(* ===== verification/Prelude.thy ===== *)
theory Prelude
  imports Main "HOL-Library.Word"
begin

text \<open>
  Shared vocabulary of the development: the machine integers of the C++ code as fixed-width
  words, characters as bytes, the rule collections the component theories feed, and the
  generic facts on lists and words that several components use.

  Conventions. \<^verbatim>\<open>std::uint8_t\<close> ... \<^verbatim>\<open>std::uint64_t\<close> (and \<^verbatim>\<open>std::size_t\<close>, 64 bits on every platform
  the engine builds for) are \<open>u8\<close> ... \<open>u64\<close>; a \<^verbatim>\<open>static_cast\<close> between them is \<open>ucast\<close>. Sizes and
  positions of buffers, which the code never lets overflow, are \<open>nat\<close>. A \<^verbatim>\<open>char\<close> is an
  Isabelle \<open>char\<close>, which is one byte, and a \<^verbatim>\<open>std::string_view\<close> a list of them.
\<close>

unbundle bit_operations_syntax

type_synonym u8 = "8 word"
type_synonym u16 = "16 word"
type_synonym u32 = "32 word"
type_synonym u64 = "64 word"

named_theorems codec "reading back the fields of a packed word"
named_theorems step_inv "steps of a transition system keep an invariant"

section \<open>Characters as byte codes\<close>

definition code_of :: "char \<Rightarrow> u8" where
  "code_of c = of_nat (of_char c)"

definition char_of_code :: "u8 \<Rightarrow> char" where
  "char_of_code w = char_of (unat w)"

lemma of_char_less_256: "(of_char c :: nat) < 256"
  using of_char_mod_256 [of c] by (metis mod_less_divisor zero_less_numeral)

lemma unat_code_of: "unat (code_of c) = of_char c"
  using of_char_less_256 [of c] by (simp add: code_of_def unat_of_nat)

lemma char_of_code_of [simp]: "char_of_code (code_of c) = c"
  by (simp add: char_of_code_def unat_code_of)

lemma code_of_inject [simp]: "code_of c = code_of d \<longleftrightarrow> c = d"
  by (metis char_of_code_of)

definition LF :: char where "LF = CHR 0x0A"
definition CR :: char where "CR = CHR 0x0D"
definition DEL :: char where "DEL = CHR 0x7F"

text \<open>Printable ASCII.\<close>

definition printable :: "char \<Rightarrow> bool" where
  "printable c \<longleftrightarrow> 32 \<le> (of_char c :: nat) \<and> (of_char c :: nat) \<le> 126"

section \<open>Lists\<close>

lemma take_append_take: "take n (take n xs @ ys) = take n (xs @ ys)"
  by (cases "n \<le> length xs") (auto simp: min_def)

lemma list_update_map_nth:
  "(\<And>i. i < n \<Longrightarrow> f i \<noteq> k) \<Longrightarrow> map (\<lambda>i. xs[k := v] ! f i) [0..<n] = map (\<lambda>i. xs ! f i) [0..<n]"
  by (rule map_cong) (auto simp: nth_list_update_neq [OF not_sym])

lemma take_eq_prefix: "take n xs = ys \<Longrightarrow> \<exists>zs. xs = ys @ zs"
  by (metis append_take_drop_id)

section \<open>Buffers\<close>

text \<open>\<^verbatim>\<open>std::memcpy\<close> of \<open>length value\<close> and of \<open>n\<close> bytes, into and out of a buffer.\<close>

definition memcpy_in :: "nat \<Rightarrow> 'a list \<Rightarrow> 'a list \<Rightarrow> 'a list" where
  "memcpy_in off value mem = take off mem @ value @ drop (off + length value) mem"

definition memcpy_out :: "nat \<Rightarrow> nat \<Rightarrow> 'a list \<Rightarrow> 'a list" where
  "memcpy_out off n mem = take n (drop off mem)"

lemma length_memcpy_in [simp]:
  "off + length v \<le> length mem \<Longrightarrow> length (memcpy_in off v mem) = length mem"
  by (simp add: memcpy_in_def)

lemma memcpy_out_in_same:
  "off + length v \<le> length mem \<Longrightarrow> memcpy_out off (length v) (memcpy_in off v mem) = v"
  by (simp add: memcpy_in_def memcpy_out_def)

lemma memcpy_out_in_disjoint:
  assumes "off + length v \<le> length mem" and "off' + n \<le> length mem"
    and "off' + n \<le> off \<or> off + length v \<le> off'"
  shows "memcpy_out off' n (memcpy_in off v mem) = memcpy_out off' n mem"
  using assms(3)
proof
  assume "off' + n \<le> off"
  then show ?thesis
    using assms(1) by (simp add: memcpy_in_def memcpy_out_def drop_take min_absorb1 take_take)
next
  assume "off + length v \<le> off'"
  then have "drop off' (take off mem @ v @ drop (off + length v) mem) = drop off' mem"
    using assms(1) by simp
  then show ?thesis by (simp add: memcpy_in_def memcpy_out_def)
qed

section \<open>Words\<close>

lemma unat_less_2p64: "unat (w :: u64) < 18446744073709551616"
proof -
  have "unat w < 2 ^ LENGTH(64)" by (rule unsigned_less)
  then show ?thesis by simp
qed

lemma unat_less_2p32: "unat (w :: u32) < 4294967296"
proof -
  have "unat w < 2 ^ LENGTH(32)" by (rule unsigned_less)
  then show ?thesis by simp
qed

lemma unat_ucast_u32_u64 [simp]: "unat (ucast (w :: u32) :: u64) = unat w"
  by (simp add: unsigned_ucast_eq take_bit_nat_eq_self_iff less_trans [OF unat_less_2p32])

lemma mask_8: "(0xFF :: u64) = mask 8"
  by (simp add: mask_eq_exp_minus_1)

lemma mask_16: "(0xFFFF :: u64) = mask 16"
  by (simp add: mask_eq_exp_minus_1)

lemma bit_mask_u64: "bit (mask m :: u64) n \<longleftrightarrow> n < m \<and> n < 64"
  by (auto simp: bit_mask_iff)

lemmas field_bits = bit_simps mask_8 mask_16 bit_mask_u64

lemma unat_word_diff: "(b :: u64) \<le> a \<Longrightarrow> unat (a - b) = unat a - unat b"
  by (rule unat_sub)

lemma unat_power2_u64: "k < 64 \<Longrightarrow> unat (2 ^ k :: u64) = 2 ^ k"
proof -
  assume "k < 64"
  then have "(2::nat) ^ k < 2 ^ 64" by (intro power_strict_increasing) simp_all
  then have "unat (of_nat (2 ^ k) :: u64) = 2 ^ k" by (simp only: unat_of_nat) simp
  then show ?thesis by simp
qed

lemma unat_plus_no_wrap:
  "unat (a :: u64) + unat b < 2 ^ 64 \<Longrightarrow> unat (a + b) = unat a + unat b"
  by (simp add: unat_word_ariths)

end
