(* ===== verification/Core_Clock.thy ===== *)
theory Core_Clock
  imports Prelude
begin

text \<open>
  \<^verbatim>\<open>core_clock.h\<close>: the monotonic tick counter and the conversion of its ticks to time.

  The three operating-system clocks are not under the repository: what a call returns is an
  argument of the definitions that make it (\<open>clock_source\<close>). \<^verbatim>\<open>TickConversion\<close> is a record
  of its three data members, and its constructor, whose contract is \<^verbatim>\<open>0 < denom\<close>, returns
  \<open>None\<close> where the \<^verbatim>\<open>assert\<close> fails.
\<close>

section \<open>The clock\<close>

datatype platform = Apple | Linux | Other_platform

text \<open>What one reading of the platform's clock sees.\<close>

record clock_source =
  mach_absolute_time :: u64
  ts_sec :: u64
  ts_nsec :: u64
  steady_count :: u64

definition k_NS_PER_SECOND :: u64 where
  "k_NS_PER_SECOND = 1000000000"

fun clock_now :: "platform \<Rightarrow> clock_source \<Rightarrow> u64" where
  "clock_now Apple src = mach_absolute_time src"
| "clock_now Linux src = ts_sec src * k_NS_PER_SECOND + ts_nsec src"
| "clock_now Other_platform src = steady_count src"

section \<open>The conversion\<close>

record tick_conversion =
  d_start :: u64
  d_num :: u32
  d_denom :: u32

definition tick_conversion_make :: "u64 \<Rightarrow> u32 \<Rightarrow> u32 \<Rightarrow> tick_conversion option" where
  "tick_conversion_make start num denom =
     (if 0 < denom then Some \<lparr>d_start = start, d_num = num, d_denom = denom\<rparr> else None)"

text \<open>
  \<open>ratio\<close> is what the platform says a tick is worth: \<^verbatim>\<open>mach_timebase_info\<close> on macOS and the
  period of \<^verbatim>\<open>std::chrono::steady_clock\<close> in nanoseconds elsewhere, where a term that does not
  fit 32 bits does not compile (\<open>None\<close>).
\<close>

fun start_now :: "platform \<Rightarrow> clock_source \<Rightarrow> nat \<times> nat \<Rightarrow> tick_conversion option" where
  "start_now Apple src ratio =
     tick_conversion_make (clock_now Apple src) (of_nat (fst ratio)) (of_nat (snd ratio))"
| "start_now Linux src ratio = tick_conversion_make (clock_now Linux src) 1 1"
| "start_now Other_platform src ratio =
     (if 0 < fst ratio \<and> fst ratio \<le> unat (- 1 :: u32) \<and> snd ratio \<le> unat (- 1 :: u32)
      then tick_conversion_make (clock_now Other_platform src)
             (of_nat (fst ratio)) (of_nat (snd ratio))
      else None)"

definition ns_elapsed_since_start :: "tick_conversion \<Rightarrow> u64 \<Rightarrow> u64" where
  "ns_elapsed_since_start c ticks =
     (if ticks \<le> d_start c then 0
      else
        let elapsed = ticks - d_start c;
            num = ucast (d_num c) :: u64;
            denom = ucast (d_denom c) :: u64
        in (elapsed div denom * num) + (elapsed mod denom * num div denom))"

text \<open>The class invariant: the denominator is never 0.\<close>

definition conversion_ok :: "tick_conversion \<Rightarrow> bool" where
  "conversion_ok c \<longleftrightarrow> 0 < d_denom c"

text \<open>The mathematical value: the elapsed time in nanoseconds, rounded down.\<close>

definition ideal_ns :: "tick_conversion \<Rightarrow> u64 \<Rightarrow> nat" where
  "ideal_ns c ticks = (unat ticks - unat (d_start c)) * unat (d_num c) div unat (d_denom c)"

section \<open>Correctness\<close>

lemma tick_conversion_make_ok: "tick_conversion_make s n d = Some c \<Longrightarrow> conversion_ok c"
  by (auto simp: tick_conversion_make_def conversion_ok_def split: if_splits)

lemma conversion_ok_unat: "conversion_ok c \<Longrightarrow> 0 < unat (d_denom c)"
  by (simp add: conversion_ok_def word_less_nat_alt)

text \<open>The split of the product, on the natural numbers.\<close>

lemma split_muldiv:
  fixes e n d :: nat
  assumes "0 < d"
  shows "e * n div d = e div d * n + e mod d * n div d"
proof -
  have "e * n = (e div d * d + e mod d) * n"
    by (simp only: div_mult_mod_eq)
  also have "\<dots> = e mod d * n + (e div d * n) * d"
    by (metis add.commute add_mult_distrib mult.assoc mult.commute)
  finally show ?thesis
    using assms by simp
qed

lemma remainder_product_fits:
  fixes n d :: u32
  assumes "0 < unat d"
  shows "e mod unat d * unat n < 2 ^ 64"
proof -
  have "e mod unat d * unat n \<le> 4294967295 * 4294967295"
    using assms unat_less_2p32 [of n] unat_less_2p32 [of d] mod_less_divisor [OF assms, of e]
    by (intro mult_le_mono) linarith+
  then show ?thesis by simp
qed

lemma unat_ns_elapsed:
  assumes "conversion_ok c"
  shows "unat (ns_elapsed_since_start c t) = ideal_ns c t mod 2 ^ 64"
proof (cases "t \<le> d_start c")
  case True
  then show ?thesis
    by (simp add: ns_elapsed_since_start_def ideal_ns_def word_le_nat_alt)
next
  case False
  define e where "e = unat t - unat (d_start c)"
  let ?n = "unat (d_num c)" and ?d = "unat (d_denom c)"
  have d: "0 < ?d" using assms by (rule conversion_ok_unat)
  have e: "unat (t - d_start c) = e"
    using False by (simp add: e_def unat_word_diff)
  have r: "e mod ?d * ?n < 18446744073709551616"
    using remainder_product_fits [OF d, of e "d_num c"] by simp
  have rem: "unat ((t - d_start c) mod ucast (d_denom c) * ucast (d_num c)) = e mod ?d * ?n"
    using r by (simp add: unat_word_ariths(2) unat_mod_distrib e)
  have quo: "unat ((t - d_start c) div ucast (d_denom c) * ucast (d_num c)) =
      (e div ?d * ?n) mod 2 ^ 64"
    by (simp add: unat_word_ariths(2) unat_div_distrib e)
  have "unat (ns_elapsed_since_start c t) =
      (e div ?d * ?n + e mod ?d * ?n div ?d) mod 2 ^ 64"
    using False by (simp add: ns_elapsed_since_start_def Let_def unat_word_ariths(1)
        unat_div_distrib rem quo [simplified] mod_add_left_eq)
  also have "e div ?d * ?n + e mod ?d * ?n div ?d = ideal_ns c t"
    using split_muldiv [OF d, of e ?n] by (simp add: ideal_ns_def e_def)
  finally show ?thesis .
qed

lemma ideal_ns_mono: "t \<le> u \<Longrightarrow> ideal_ns c t \<le> ideal_ns c u"
  by (auto simp: ideal_ns_def word_le_nat_alt intro!: div_le_mono mult_le_mono1)

text \<open>
  C24. The conversion is exact: as long as the elapsed time fits in 64 bits of nanoseconds, the
  result is the elapsed ticks times \<^verbatim>\<open>num\<close> over \<^verbatim>\<open>denom\<close>, rounded down, although the
  code never forms the full product.
\<close>

theorem ns_elapsed_exact:
  assumes "conversion_ok c" and "ideal_ns c ticks < 2 ^ 64"
  shows "unat (ns_elapsed_since_start c ticks) =
    (unat ticks - unat (d_start c)) * unat (d_num c) div unat (d_denom c)"
  using unat_ns_elapsed [OF assms(1)] assms(2) by (simp add: ideal_ns_def)

theorem ns_elapsed_exact_witness:
  "unat (ns_elapsed_since_start \<lparr>d_start = 1000, d_num = 125, d_denom = 3\<rparr> 1007) = 291"
  using ns_elapsed_exact [of "\<lparr>d_start = 1000, d_num = 125, d_denom = 3\<rparr>" 1007]
  by (simp add: conversion_ok_def ideal_ns_def)

text \<open>
  Timestamps are monotone: a later tick never converts to less time, as long as the later
  one fits in 64 bits.
\<close>

theorem ns_elapsed_monotone:
  assumes "conversion_ok c" and "t \<le> u" and "ideal_ns c u < 2 ^ 64"
  shows "ns_elapsed_since_start c t \<le> ns_elapsed_since_start c u"
  using unat_ns_elapsed [OF assms(1)] ideal_ns_mono [OF assms(2), of c] assms(3)
  by (simp add: word_le_nat_alt)

theorem ns_elapsed_monotone_witness:
  "ns_elapsed_since_start \<lparr>d_start = 5, d_num = 125, d_denom = 3\<rparr> 10
     \<le> ns_elapsed_since_start \<lparr>d_start = 5, d_num = 125, d_denom = 3\<rparr> 4000"
  by (rule ns_elapsed_monotone) (simp_all add: conversion_ok_def ideal_ns_def)

end
