(* ===== verification/Bounded_Fifo.thy ===== *)
theory Bounded_Fifo
  imports Prelude
begin

text \<open>
  The interface between a ring and its users: a bounded queue that never waits. The laws say
  what a push and a pop answer and what they leave, over the abstract contents (a list, the
  oldest value first); the client lemmas, proved once here, are about draining a queue and
  about whole runs of pushes and pops. The ring of \<open>Core_Spsc_Ring\<close> and the logger's
  producers of \<open>Core_Log\<close> provide the interface.
\<close>

datatype 'v queue_op = Push 'v | Pop

text \<open>Pop until the queue is empty or the limit is reached: the values, oldest first.\<close>

fun pop_upto :: "('q \<Rightarrow> 'v option \<times> 'q) \<Rightarrow> nat \<Rightarrow> 'q \<Rightarrow> 'v list \<times> 'q" where
  "pop_upto pop 0 q = ([], q)"
| "pop_upto pop (Suc n) q =
     (case pop q of
        (None, q') \<Rightarrow> ([], q')
      | (Some v, q') \<Rightarrow> (let (vs, q'') = pop_upto pop n q' in (v # vs, q'')))"

text \<open>
  A run of calls from a queue: the values accepted, the values popped, and the queue left.
\<close>

fun run_queue ::
  "('v \<Rightarrow> 'q \<Rightarrow> bool \<times> 'q) \<Rightarrow> ('q \<Rightarrow> 'v option \<times> 'q) \<Rightarrow> 'v queue_op list \<Rightarrow> 'q \<Rightarrow>
     'v list \<times> 'v list \<times> 'q" where
  "run_queue push pop [] q = ([], [], q)"
| "run_queue push pop (Push v # ops) q =
     (case push v q of (accepted, q') \<Rightarrow>
        (case run_queue push pop ops q' of (ins, outs, q'') \<Rightarrow>
           ((if accepted then v # ins else ins), outs, q'')))"
| "run_queue push pop (Pop # ops) q =
     (case pop q of (popped, q') \<Rightarrow>
        (case run_queue push pop ops q' of (ins, outs, q'') \<Rightarrow>
           (ins, (case popped of None \<Rightarrow> outs | Some v \<Rightarrow> v # outs), q'')))"

locale bounded_fifo =
  fixes push :: "'v \<Rightarrow> 'q \<Rightarrow> bool \<times> 'q"
    and pop :: "'q \<Rightarrow> 'v option \<times> 'q"
    and contents :: "'q \<Rightarrow> 'v list"
    and inv :: "'q \<Rightarrow> bool"
    and cap :: nat
    and ok :: "'v \<Rightarrow> bool"
  assumes push_inv: "inv q \<Longrightarrow> ok v \<Longrightarrow> inv (snd (push v q))"
    and push_answer: "inv q \<Longrightarrow> ok v \<Longrightarrow> fst (push v q) \<longleftrightarrow> length (contents q) < cap"
    and push_contents: "inv q \<Longrightarrow> ok v \<Longrightarrow>
      contents (snd (push v q)) = (if length (contents q) < cap then contents q @ [v] else contents q)"
    and pop_inv: "inv q \<Longrightarrow> inv (snd (pop q))"
    and pop_answer: "inv q \<Longrightarrow>
      fst (pop q) = (case contents q of [] \<Rightarrow> None | v # _ \<Rightarrow> Some v)"
    and pop_contents: "inv q \<Longrightarrow> contents (snd (pop q)) = tl (contents q)"
    and bounded: "inv q \<Longrightarrow> length (contents q) \<le> cap"
begin

lemma pop_empty: "inv q \<Longrightarrow> contents q = [] \<Longrightarrow>
    \<exists>q'. pop q = (None, q') \<and> inv q' \<and> contents q' = []"
  using pop_inv [of q] pop_answer [of q] pop_contents [of q]
  by (metis list.case(1) list.sel(2) prod.collapse)

lemma pop_cons: "inv q \<Longrightarrow> contents q = v # vs \<Longrightarrow>
    \<exists>q'. pop q = (Some v, q') \<and> inv q' \<and> contents q' = vs"
  using pop_inv [of q] pop_answer [of q] pop_contents [of q]
  by (metis list.case(2) list.sel(3) prod.collapse)

lemma pop_upto_spec:
  "inv q \<Longrightarrow> \<exists>q'. pop_upto pop n q = (take n (contents q), q') \<and> inv q' \<and>
     contents q' = drop n (contents q)"
proof (induction n arbitrary: q)
  case 0
  then show ?case by simp
next
  case (Suc n)
  show ?case
  proof (cases "contents q")
    case Nil
    with pop_empty [OF Suc.prems] show ?thesis by auto
  next
    case (Cons v vs)
    with pop_cons [OF Suc.prems] obtain q' where q': "pop q = (Some v, q')" "inv q'" "contents q' = vs"
      by blast
    with Suc.IH [of q'] Cons show ?thesis by auto
  qed
qed

text \<open>Draining with the capacity as the limit empties the queue.\<close>

lemma pop_upto_all:
  "inv q \<Longrightarrow> cap \<le> n \<Longrightarrow> \<exists>q'. pop_upto pop n q = (contents q, q') \<and> inv q' \<and> contents q' = []"
  using pop_upto_spec [of q n] bounded [of q] by simp

text \<open>First in, first out: what went in is what came out, then what is still inside.\<close>

lemma run_queue_fifo:
  assumes "inv q" and "\<forall>v. Push v \<in> set ops \<longrightarrow> ok v"
  shows "case run_queue push pop ops q of (ins, outs, q') \<Rightarrow>
    inv q' \<and> contents q @ ins = outs @ contents q'"
  using assms
proof (induction ops arbitrary: q)
  case Nil
  then show ?case by simp
next
  case (Cons op ops)
  show ?case
  proof (cases op)
    case (Push v)
    obtain b q' where push: "push v q = (b, q')" by fastforce
    then have "inv q'" and "contents q' = (if b then contents q @ [v] else contents q)"
      using Cons.prems Push push_inv [of q v] push_answer [of q v] push_contents [of q v] by auto
    with Cons.IH [of q'] Cons.prems Push push show ?thesis
      by (auto split: prod.splits if_splits)
  next
    case Pop
    obtain x q' where pop: "pop q = (x, q')" by fastforce
    then have "inv q'" and "contents q = (case x of None \<Rightarrow> contents q' | Some v \<Rightarrow> v # contents q')"
      using Cons.prems Pop pop_inv [of q] pop_answer [of q] pop_contents [of q]
      by (auto split: list.splits)
    with Cons.IH [of q'] Cons.prems Pop pop show ?thesis
      by (auto split: prod.splits option.splits)
  qed
qed

end

end
