(* ===== verification/Core_Spsc_Ring.thy ===== *)
theory Core_Spsc_Ring
  imports Bounded_Fifo
begin

text \<open>
  \<^verbatim>\<open>core_spsc_ring.h\<close>: the wait-free single-producer, single-consumer ring buffer.

  This theory holds the ring's state and its three calls, run to completion one after the
  other, and shows that they implement a bounded queue; \<open>Core_Spsc_Concurrent\<close> interleaves
  the individual memory accesses of the two threads. The template arguments
  \<^verbatim>\<open>t_CAPACITY\<close> and \<^verbatim>\<open>sizeof(t_TYPE)\<close> are the arguments \<open>cap\<close> and \<open>sz\<close>. The slots
  are raw bytes, as in the code: a value is the list of its \<open>sz\<close> bytes (it is trivially
  copyable), \<^verbatim>\<open>slot\<close> computes a byte offset and \<^verbatim>\<open>memcpy\<close> reads and writes there. The counters
  are 64-bit words, so their wrap-around is part of the model.
\<close>

section \<open>State\<close>

type_synonym bytes = "u8 list"

record spsc_ring =
  d_head :: u64
  d_cached_tail :: u64
  d_tail :: u64
  d_cached_head :: u64
  d_slots :: bytes

definition has_single_bit :: "u64 \<Rightarrow> bool" where
  "has_single_bit w \<longleftrightarrow> list_ex (\<lambda>k. w = push_bit k 1) [0..<64]"

text \<open>The concept \<^verbatim>\<open>SpscRingParameters\<close>; triviality of copying is the choice of bytes as values.\<close>

definition SpscRingParameters :: "u64 \<Rightarrow> bool" where
  "SpscRingParameters cap \<longleftrightarrow> has_single_bit cap"

definition k_MASK :: "u64 \<Rightarrow> u64" where
  "k_MASK cap = cap - 1"

definition capacity :: "u64 \<Rightarrow> nat" where
  "capacity cap = unat cap"

definition SpscRing :: "u64 \<Rightarrow> nat \<Rightarrow> spsc_ring" where
  "SpscRing cap sz = \<lparr>d_head = 0, d_cached_tail = 0, d_tail = 0, d_cached_head = 0,
     d_slots = replicate (unat cap * sz) 0\<rparr>"

section \<open>Operations\<close>

text \<open>Byte offset of the slot for a counter.\<close>

definition slot :: "u64 \<Rightarrow> nat \<Rightarrow> u64 \<Rightarrow> nat" where
  "slot cap sz counter = unat (counter AND k_MASK cap) * sz"

definition push_publish :: "u64 \<Rightarrow> nat \<Rightarrow> bytes \<Rightarrow> spsc_ring \<Rightarrow> bool \<times> spsc_ring" where
  "push_publish cap sz value r =
     (let head = d_head r in
      (True, r\<lparr>d_slots := memcpy_in (slot cap sz head) value (d_slots r), d_head := head + 1\<rparr>))"

definition try_push :: "u64 \<Rightarrow> nat \<Rightarrow> bytes \<Rightarrow> spsc_ring \<Rightarrow> bool \<times> spsc_ring" where
  "try_push cap sz value r =
     (let head = d_head r in
      if head - d_cached_tail r = cap then
        let r' = r\<lparr>d_cached_tail := d_tail r\<rparr> in
        if head - d_cached_tail r' = cap then (False, r') else push_publish cap sz value r'
      else push_publish cap sz value r)"

fun copy_values :: "u64 \<Rightarrow> nat \<Rightarrow> u64 \<Rightarrow> bytes list \<Rightarrow> bytes \<Rightarrow> bytes" where
  "copy_values cap sz counter [] mem = mem"
| "copy_values cap sz counter (v # vs) mem =
     copy_values cap sz (counter + 1) vs (memcpy_in (slot cap sz counter) v mem)"

definition span_publish :: "u64 \<Rightarrow> nat \<Rightarrow> bytes list \<Rightarrow> spsc_ring \<Rightarrow> bool \<times> spsc_ring" where
  "span_publish cap sz values r =
     (let head = d_head r in
      (True, r\<lparr>d_slots := copy_values cap sz head values (d_slots r),
               d_head := head + of_nat (length values)\<rparr>))"

definition try_push_span :: "u64 \<Rightarrow> nat \<Rightarrow> bytes list \<Rightarrow> spsc_ring \<Rightarrow> bool \<times> spsc_ring" where
  "try_push_span cap sz values r =
     (if values = [] then (True, r)
      else
        let count = of_nat (length values) :: u64 in
        if cap < count then (False, r)
        else
          let head = d_head r in
          if cap - (head - d_cached_tail r) < count then
            let r' = r\<lparr>d_cached_tail := d_tail r\<rparr> in
            if cap - (head - d_cached_tail r') < count then (False, r')
            else span_publish cap sz values r'
          else span_publish cap sz values r)"

definition pop_release :: "u64 \<Rightarrow> nat \<Rightarrow> spsc_ring \<Rightarrow> bytes option \<times> spsc_ring" where
  "pop_release cap sz r =
     (let tail = d_tail r in
      (Some (memcpy_out (slot cap sz tail) sz (d_slots r)), r\<lparr>d_tail := tail + 1\<rparr>))"

definition try_pop :: "u64 \<Rightarrow> nat \<Rightarrow> spsc_ring \<Rightarrow> bytes option \<times> spsc_ring" where
  "try_pop cap sz r =
     (let tail = d_tail r in
      if tail = d_cached_head r then
        let r' = r\<lparr>d_cached_head := d_head r\<rparr> in
        if tail = d_cached_head r' then (None, r') else pop_release cap sz r'
      else pop_release cap sz r)"

section \<open>Slots: offsets, reads and writes\<close>

lemma has_single_bitE:
  assumes "has_single_bit cap"
  obtains k where "k < 64" and "cap = 2 ^ k" and "unat cap = 2 ^ k"
proof -
  from assms obtain k where k: "k < 64" "cap = push_bit k 1"
    by (auto simp: has_single_bit_def list_ex_iff)
  then have "unat cap = 2 ^ k"
    by (simp add: push_bit_eq_mult unat_power2_u64)
  with k that show ?thesis
    by (simp add: push_bit_eq_mult)
qed

lemma slot_number:
  assumes "has_single_bit cap"
  shows "unat (c AND k_MASK cap) = unat c mod unat cap"
proof -
  obtain k where k: "k < 64" "cap = 2 ^ k" "unat cap = 2 ^ k"
    using assms by (rule has_single_bitE)
  then have "c AND k_MASK cap = take_bit k c"
    by (simp only: k_MASK_def take_bit_eq_mask mask_eq_exp_minus_1)
  then show ?thesis
    using k by (simp only: unsigned_take_bit_eq) (simp add: take_bit_eq_mod)
qed

lemma unat_add_mod_cap:
  assumes "has_single_bit cap"
  shows "unat ((c :: u64) + of_nat i) mod unat cap = (unat c + i) mod unat cap"
proof -
  obtain k where k: "k < 64" "unat cap = 2 ^ k"
    using assms by (rule has_single_bitE)
  then have "(2::nat) ^ k dvd 2 ^ 64"
    by (intro le_imp_power_dvd) simp
  then show ?thesis
    using k by (simp add: unat_word_ariths unat_of_nat mod_mod_cancel mod_add_right_eq)
qed

lemma cap_positive: "has_single_bit cap \<Longrightarrow> 0 < unat cap"
  by (erule has_single_bitE) simp

lemma cap_bound: "has_single_bit cap \<Longrightarrow> unat (cap :: u64) < 2 ^ 64"
  by (simp add: unat_less_2p64)

lemma slot_inject:
  assumes "has_single_bit cap" and "i < unat cap" and "j < unat cap"
    and "unat ((t + of_nat i) AND k_MASK cap) = unat ((t + of_nat j) AND k_MASK cap)"
  shows "i = j"
proof -
  have aux: "a = b"
    if "a \<le> b" "b < unat cap" "(unat t + a) mod unat cap = (unat t + b) mod unat cap"
    for a b :: nat
  proof -
    have "unat cap dvd (unat t + b) - (unat t + a)"
      using that by (metis add_le_cancel_left mod_eq_dvd_iff_nat)
    then have "unat cap dvd b - a" by simp
    moreover have "b - a < unat cap" using that by simp
    ultimately have "b - a = 0" using nat_dvd_not_less by blast
    with that show ?thesis by simp
  qed
  from assms(4) have "(unat t + i) mod unat cap = (unat t + j) mod unat cap"
    by (simp add: slot_number [OF assms(1)] unat_add_mod_cap [OF assms(1)])
  then show ?thesis
    using aux [of i j] aux [of j i] assms(2,3) nat_le_linear [of i j] by auto
qed

lemma slot_fits:
  assumes "has_single_bit cap"
  shows "slot cap sz c + sz \<le> unat cap * sz"
proof -
  have "Suc (unat (c AND k_MASK cap)) \<le> unat cap"
    using cap_positive [OF assms] by (simp add: slot_number [OF assms] Suc_leI)
  then have "Suc (unat (c AND k_MASK cap)) * sz \<le> unat cap * sz"
    by (rule mult_le_mono1)
  then show ?thesis by (simp add: slot_def add.commute)
qed

lemma slot_disjoint:
  assumes "unat (a AND k_MASK cap) \<noteq> unat (b AND k_MASK cap)"
  shows "slot cap sz a + sz \<le> slot cap sz b \<or> slot cap sz b + sz \<le> slot cap sz a"
proof -
  have aux: "x * sz + sz \<le> y * sz" if "x < y" for x y :: nat
    using mult_le_mono1 [of "Suc x" y sz] that by (simp add: add.commute)
  from assms show ?thesis
    unfolding slot_def using aux by (meson linorder_neqE_nat)
qed

section \<open>The bytes of consecutive slots\<close>

definition slots_from :: "u64 \<Rightarrow> nat \<Rightarrow> u64 \<Rightarrow> nat \<Rightarrow> bytes \<Rightarrow> bytes list" where
  "slots_from cap sz t n mem =
     map (\<lambda>i. memcpy_out (slot cap sz (t + of_nat i)) sz mem) [0..<n]"

lemma length_slots_from [simp]: "length (slots_from cap sz t n mem) = n"
  by (simp add: slots_from_def)

lemma slots_from_0 [simp]: "slots_from cap sz t 0 mem = []"
  by (simp add: slots_from_def)

lemma slots_from_Suc:
  "slots_from cap sz t (Suc n) mem =
     memcpy_out (slot cap sz t) sz mem # slots_from cap sz (t + 1) n mem"
proof -
  have "[0..<Suc n] = 0 # map Suc [0..<n]"
    by (simp add: upt_conv_Cons map_Suc_upt del: upt_Suc)
  then show ?thesis
    by (simp add: slots_from_def comp_def add.assoc)
qed

lemma slots_from_write:
  assumes "has_single_bit cap" and "length mem = unat cap * sz" and "n < unat cap" and "length v = sz"
  shows "slots_from cap sz t (Suc n) (memcpy_in (slot cap sz (t + of_nat n)) v mem) =
    slots_from cap sz t n mem @ [v]"
proof -
  let ?off = "slot cap sz (t + of_nat n)"
  have fits: "?off + length v \<le> length mem"
    using slot_fits [OF assms(1)] assms(2,4) by simp
  have same: "memcpy_out ?off sz (memcpy_in ?off v mem) = v"
    using memcpy_out_in_same [OF fits] assms(4) by simp
  have other: "memcpy_out (slot cap sz (t + of_nat i)) sz (memcpy_in ?off v mem) =
      memcpy_out (slot cap sz (t + of_nat i)) sz mem" if "i < n" for i
  proof (rule memcpy_out_in_disjoint [OF fits])
    show "slot cap sz (t + of_nat i) + sz \<le> length mem"
      using slot_fits [OF assms(1)] assms(2) by simp
    have "unat ((t + of_nat i) AND k_MASK cap) \<noteq> unat ((t + of_nat n) AND k_MASK cap)"
      using slot_inject [OF assms(1), of i n t] that assms(3) by auto
    from slot_disjoint [OF this, of sz]
    show "slot cap sz (t + of_nat i) + sz \<le> ?off \<or> ?off + length v \<le> slot cap sz (t + of_nat i)"
      using assms(4) by simp
  qed
  show ?thesis
    using same other by (simp add: slots_from_def)
qed

lemma copy_values_contents:
  assumes "has_single_bit cap" and "length mem = unat cap * sz"
    and "n + length vs \<le> unat cap" and "\<forall>v \<in> set vs. length v = sz"
  shows "slots_from cap sz t (n + length vs) (copy_values cap sz (t + of_nat n) vs mem) =
      slots_from cap sz t n mem @ vs
    \<and> length (copy_values cap sz (t + of_nat n) vs mem) = length mem"
  using assms(2,3,4)
proof (induction vs arbitrary: n mem)
  case Nil
  then show ?case by simp
next
  case (Cons v vs)
  let ?mem = "memcpy_in (slot cap sz (t + of_nat n)) v mem"
  have len: "length ?mem = length mem"
    using slot_fits [OF assms(1)] Cons.prems by simp
  have next_slot: "t + of_nat n + 1 = t + of_nat (Suc n)"
    by (simp add: algebra_simps)
  have "slots_from cap sz t (Suc n) ?mem = slots_from cap sz t n mem @ [v]"
    using Cons.prems by (intro slots_from_write [OF assms(1)]) simp_all
  with Cons.IH [of ?mem "Suc n"] Cons.prems len show ?case
    by (simp add: next_slot)
qed

section \<open>The ring as a bounded queue\<close>

text \<open>
  Abstraction: the ring holds \<open>head - tail\<close> values, the bytes of the slots from \<open>tail\<close> on.
  Invariant: measured back from \<open>head\<close>, which takes the wrap-around into account, the private
  copy of \<open>tail\<close> is behind \<open>tail\<close> but within the capacity, and the private copy of \<open>head\<close> lies
  between \<open>tail\<close> and \<open>head\<close>.
\<close>

definition ring_contents :: "u64 \<Rightarrow> nat \<Rightarrow> spsc_ring \<Rightarrow> bytes list" where
  "ring_contents cap sz r = slots_from cap sz (d_tail r) (unat (d_head r - d_tail r)) (d_slots r)"

definition ring_inv :: "u64 \<Rightarrow> nat \<Rightarrow> spsc_ring \<Rightarrow> bool" where
  "ring_inv cap sz r \<longleftrightarrow>
     SpscRingParameters cap \<and> length (d_slots r) = unat cap * sz
   \<and> d_head r - d_tail r \<le> d_head r - d_cached_tail r
   \<and> d_head r - d_cached_tail r \<le> cap
   \<and> d_head r - d_cached_head r \<le> d_head r - d_tail r"

lemma ring_inv_init: "SpscRingParameters cap \<Longrightarrow> ring_inv cap sz (SpscRing cap sz)"
  by (simp add: ring_inv_def SpscRing_def)

lemma ring_contents_init: "ring_contents cap sz (SpscRing cap sz) = []"
  by (simp add: ring_contents_def SpscRing_def)

lemma length_ring_contents: "length (ring_contents cap sz r) = unat (d_head r - d_tail r)"
  by (simp add: ring_contents_def)

lemma head_advance:
  "unat (h - x) + n < 2 ^ 64 \<Longrightarrow> unat ((h :: u64) + of_nat n - x) = unat (h - x) + n"
proof -
  assume n: "unat (h - x) + n < 2 ^ 64"
  then have "unat (of_nat n :: u64) = n" by (simp add: unat_of_nat)
  moreover have "h + of_nat n - x = (h - x) + of_nat n" by simp
  ultimately show ?thesis using n by (metis unat_plus_no_wrap)
qed

lemma tail_advance: "h \<noteq> t \<Longrightarrow> unat ((h :: u64) - (t + 1)) = unat (h - t) - 1"
proof -
  assume "h \<noteq> t"
  then have "1 \<le> h - t" by (simp add: word_le_nat_alt Suc_leI unat_gt_0)
  then have "unat (h - t - 1) = unat (h - t) - 1" by (simp add: unat_sub)
  then show ?thesis by (simp only: diff_diff_eq)
qed

text \<open>Publishing \<open>vs\<close> at the head, when there is room for it behind the private copy of the tail.\<close>

lemma publish_spec:
  assumes "ring_inv cap sz r" and "unat (d_head r - d_cached_tail r) + length vs \<le> unat cap"
    and "\<forall>v \<in> set vs. length v = sz"
  defines "r' \<equiv> r\<lparr>d_slots := copy_values cap sz (d_head r) vs (d_slots r),
    d_head := d_head r + of_nat (length vs)\<rparr>"
  shows "ring_inv cap sz r' \<and> ring_contents cap sz r' = ring_contents cap sz r @ vs"
proof -
  let ?h = "d_head r" and ?t = "d_tail r" and ?k = "length vs"
  have bit: "has_single_bit cap" and len: "length (d_slots r) = unat cap * sz"
    and t: "unat (?h - ?t) \<le> unat (?h - d_cached_tail r)"
    and ch: "unat (?h - d_cached_head r) \<le> unat (?h - ?t)"
    using assms(1) by (simp_all add: ring_inv_def SpscRingParameters_def word_le_nat_alt)
  have n: "unat (?h - ?t) + ?k \<le> unat cap" using t assms(2) by linarith
  have adv: "unat (?h + of_nat ?k - x) = unat (?h - x) + ?k"
    if "unat (?h - x) \<le> unat (?h - d_cached_tail r)" for x
    using that assms(2) cap_bound [OF bit] by (intro head_advance) linarith
  have "?t + of_nat (unat (?h - ?t)) = ?h" by simp
  with copy_values_contents [OF bit len n assms(3), of ?t] adv [OF t] len
  have "ring_contents cap sz r' = ring_contents cap sz r @ vs"
    and "length (d_slots r') = unat cap * sz"
    by (simp_all add: ring_contents_def r'_def)
  moreover have "ring_inv cap sz r'"
    using bit \<open>length (d_slots r') = _\<close> adv [OF t] adv [of "d_cached_tail r"]
      adv [of "d_cached_head r"] t ch assms(2)
    by (simp add: ring_inv_def r'_def SpscRingParameters_def word_le_nat_alt)
  ultimately show ?thesis by simp
qed

lemma refresh_tail_inv:
  assumes "ring_inv cap sz r"
  shows "ring_inv cap sz (r\<lparr>d_cached_tail := d_tail r\<rparr>)
    \<and> ring_contents cap sz (r\<lparr>d_cached_tail := d_tail r\<rparr>) = ring_contents cap sz r"
  using assms by (auto simp: ring_inv_def ring_contents_def)

lemma refresh_head_inv:
  assumes "ring_inv cap sz r"
  shows "ring_inv cap sz (r\<lparr>d_cached_head := d_head r\<rparr>)
    \<and> ring_contents cap sz (r\<lparr>d_cached_head := d_head r\<rparr>) = ring_contents cap sz r"
  using assms by (auto simp: ring_inv_def ring_contents_def)

lemma push_publish_eq:
  "push_publish cap sz v r = (True, r\<lparr>d_slots := copy_values cap sz (d_head r) [v] (d_slots r),
     d_head := d_head r + of_nat (length [v])\<rparr>)"
  by (simp add: push_publish_def Let_def)

lemma span_publish_eq:
  "span_publish cap sz vs r = (True, r\<lparr>d_slots := copy_values cap sz (d_head r) vs (d_slots r),
     d_head := d_head r + of_nat (length vs)\<rparr>)"
  by (simp add: span_publish_def Let_def)

lemma full_iff:
  assumes "ring_inv cap sz r"
  shows "d_head r - d_cached_tail r = cap \<longleftrightarrow>
    \<not> unat (d_head r - d_cached_tail r) + 1 \<le> unat cap"
  using assms by (auto simp: ring_inv_def word_le_nat_alt word_unat_eq_iff)

text \<open>The room computed with wrapping subtraction is the room left.\<close>

lemma no_room_iff:
  assumes "ring_inv cap sz r" and "n < 2 ^ 64"
  shows "cap - (d_head r - d_cached_tail r) < of_nat n \<longleftrightarrow>
    \<not> unat (d_head r - d_cached_tail r) + n \<le> unat cap"
proof -
  have "unat (of_nat n :: u64) = n" using assms(2) by (simp add: unat_of_nat)
  then show ?thesis
    using assms(1) by (auto simp: ring_inv_def word_less_nat_alt unat_sub word_le_nat_alt)
qed

lemma try_push_spec:
  assumes "ring_inv cap sz r" and "length v = sz"
  shows "ring_inv cap sz (snd (try_push cap sz v r))
    \<and> (fst (try_push cap sz v r) \<longleftrightarrow> length (ring_contents cap sz r) < unat cap)
    \<and> ring_contents cap sz (snd (try_push cap sz v r)) =
        (if length (ring_contents cap sz r) < unat cap
         then ring_contents cap sz r @ [v] else ring_contents cap sz r)"
proof -
  note refresh = refresh_tail_inv [OF assms(1)]
  let ?r = "r\<lparr>d_cached_tail := d_tail r\<rparr>"
  have le: "unat (d_head r - d_tail r) \<le> unat (d_head r - d_cached_tail r)"
    using assms(1) by (simp add: ring_inv_def word_le_nat_alt)
  have fits: "ring_inv cap sz (snd (push_publish cap sz v x)) \<and>
      ring_contents cap sz (snd (push_publish cap sz v x)) = ring_contents cap sz x @ [v]"
    if "ring_inv cap sz x" "unat (d_head x - d_cached_tail x) + 1 \<le> unat cap" for x
    using publish_spec [OF that(1), of "[v]"] that(2) assms(2) by (simp add: push_publish_eq)
  show ?thesis
  proof (cases "unat (d_head r - d_cached_tail r) + 1 \<le> unat cap")
    case True
    then show ?thesis
      using fits [OF assms(1)] full_iff [OF assms(1)] le
      by (auto simp: try_push_def Let_def push_publish_def length_ring_contents)
  next
    case False
    then show ?thesis
      using fits [of ?r] full_iff [OF assms(1)] full_iff [of cap sz ?r] refresh
      by (auto simp: try_push_def Let_def push_publish_def length_ring_contents)
  qed
qed

lemma try_push_span_spec:
  assumes "ring_inv cap sz r" and "\<forall>v \<in> set vs. length v = sz" and "length vs < 2 ^ 64"
  shows "ring_inv cap sz (snd (try_push_span cap sz vs r))
    \<and> (fst (try_push_span cap sz vs r) \<longleftrightarrow> length (ring_contents cap sz r) + length vs \<le> unat cap)
    \<and> ring_contents cap sz (snd (try_push_span cap sz vs r)) =
        (if length (ring_contents cap sz r) + length vs \<le> unat cap
         then ring_contents cap sz r @ vs else ring_contents cap sz r)"
proof -
  note refresh = refresh_tail_inv [OF assms(1)]
  let ?r = "r\<lparr>d_cached_tail := d_tail r\<rparr>"
  have le: "unat (d_head r - d_tail r) \<le> unat (d_head r - d_cached_tail r)"
    and bound: "unat (d_head r - d_tail r) \<le> unat cap"
    using assms(1) by (auto simp: ring_inv_def word_le_nat_alt)
  have count: "cap < of_nat (length vs) \<longleftrightarrow> unat cap < length vs"
    using assms(3) by (simp add: word_less_nat_alt unat_of_nat)
  have fits: "ring_inv cap sz (snd (span_publish cap sz vs x)) \<and>
      ring_contents cap sz (snd (span_publish cap sz vs x)) = ring_contents cap sz x @ vs"
    if "ring_inv cap sz x" "unat (d_head x - d_cached_tail x) + length vs \<le> unat cap" for x
    using publish_spec [OF that assms(2)] by (simp add: span_publish_eq)
  consider "vs = []" | "vs \<noteq> []" "unat (d_head r - d_cached_tail r) + length vs \<le> unat cap"
    | "vs \<noteq> []" "\<not> unat (d_head r - d_cached_tail r) + length vs \<le> unat cap" by blast
  then show ?thesis
  proof cases
    case 1
    then show ?thesis
      using assms(1) bound by (simp add: try_push_span_def length_ring_contents)
  next
    case 2
    then show ?thesis
      using fits [OF assms(1)] no_room_iff [OF assms(1,3)] le count
      by (auto simp: try_push_span_def Let_def span_publish_def length_ring_contents)
  next
    case 3
    then show ?thesis
      using fits [of ?r] no_room_iff [OF assms(1,3)] no_room_iff [of cap sz ?r "length vs"]
        refresh count assms(1,3)
      by (auto simp: try_push_span_def Let_def span_publish_def length_ring_contents)
  qed
qed

lemma release_spec:
  assumes "ring_inv cap sz r" and "d_tail r \<noteq> d_cached_head r"
  shows "ring_inv cap sz (snd (pop_release cap sz r))
    \<and> (\<exists>v vs. ring_contents cap sz r = v # vs \<and> fst (pop_release cap sz r) = Some v
         \<and> ring_contents cap sz (snd (pop_release cap sz r)) = vs)"
proof -
  let ?h = "d_head r" and ?t = "d_tail r"
  have "?h - d_cached_head r \<noteq> ?h - ?t" using assms(2) by simp
  then have lt: "unat (?h - d_cached_head r) < unat (?h - ?t)"
    using assms(1) by (auto simp: ring_inv_def word_le_nat_alt word_unat_eq_iff)
  then have ne: "?h \<noteq> ?t" by auto
  note adv = tail_advance [OF ne]
  obtain n where n: "unat (?h - ?t) = Suc n"
    using lt by (metis less_imp_Suc_add)
  have "ring_inv cap sz (snd (pop_release cap sz r))"
    using assms(1) lt adv by (auto simp: ring_inv_def pop_release_def Let_def word_le_nat_alt)
  moreover have "ring_contents cap sz r =
      memcpy_out (slot cap sz ?t) sz (d_slots r) # slots_from cap sz (?t + 1) n (d_slots r)"
    by (simp add: ring_contents_def n slots_from_Suc)
  ultimately show ?thesis
    using adv n by (simp add: pop_release_def Let_def ring_contents_def)
qed

lemma try_pop_spec:
  assumes "ring_inv cap sz r"
  shows "ring_inv cap sz (snd (try_pop cap sz r))
    \<and> fst (try_pop cap sz r) = (case ring_contents cap sz r of [] \<Rightarrow> None | v # _ \<Rightarrow> Some v)
    \<and> ring_contents cap sz (snd (try_pop cap sz r)) = tl (ring_contents cap sz r)"
proof -
  let ?r = "r\<lparr>d_cached_head := d_head r\<rparr>"
  note refresh = refresh_head_inv [OF assms]
  consider "d_tail r \<noteq> d_cached_head r"
    | "d_tail r = d_cached_head r" "d_tail r \<noteq> d_head r"
    | "d_tail r = d_cached_head r" "d_tail r = d_head r" by blast
  then show ?thesis
  proof cases
    case 1
    then show ?thesis
      using release_spec [OF assms 1] by (auto simp: try_pop_def Let_def)
  next
    case 2
    then show ?thesis
      using release_spec [of cap sz ?r] refresh by (auto simp: try_pop_def Let_def)
  next
    case 3
    moreover from 3 have "ring_contents cap sz r = []" by (simp add: ring_contents_def)
    ultimately show ?thesis
      using refresh by (simp add: try_pop_def Let_def)
  qed
qed

interpretation ring: bounded_fifo
  "try_push cap sz" "try_pop cap sz" "ring_contents cap sz" "ring_inv cap sz" "unat cap"
  "\<lambda>v. length v = sz" for cap sz
proof
  show "length (ring_contents cap sz q) \<le> unat cap" if "ring_inv cap sz q" for q
    using that by (auto simp: ring_inv_def length_ring_contents word_le_nat_alt)
qed (use try_push_spec try_pop_spec in blast)+

section \<open>Properties\<close>

text \<open>
  C19. A push answers \<^verbatim>\<open>true\<close> exactly when the ring is not full and then appends the value
  behind those already there; a full ring answers \<^verbatim>\<open>false\<close> and keeps its contents. The
  counters may have wrapped around, and the private copy of the tail may be stale.
\<close>

theorem ring_push_appends:
  assumes "ring_inv cap sz r" and "length v = sz" and "try_push cap sz v r = (pushed, r')"
  shows "ring_inv cap sz r' \<and> (pushed \<longleftrightarrow> length (ring_contents cap sz r) < capacity cap) \<and>
    ring_contents cap sz r' = ring_contents cap sz r @ (if pushed then [v] else [])"
  using ring.push_inv [OF assms(1,2)] ring.push_answer [OF assms(1,2)]
    ring.push_contents [OF assms(1,2)] assms(3)
  by (simp add: capacity_def)

text \<open>A ring of two one-byte slots whose head has wrapped around, holding one value.\<close>

definition wrapped_ring :: spsc_ring where
  "wrapped_ring = \<lparr>d_head = 0, d_cached_tail = - 2, d_tail = - 1, d_cached_head = - 1,
     d_slots = [11, 22]\<rparr>"

lemma two_slots [simp]: "SpscRingParameters 2"
  by (simp add: SpscRingParameters_def has_single_bit_def upt_rec)

lemma wrapped_ring_inv: "ring_inv 2 1 wrapped_ring"
  by (simp add: ring_inv_def wrapped_ring_def)

lemma wrapped_ring_contents: "ring_contents 2 1 wrapped_ring = [[22]]"
  by (simp add: ring_contents_def wrapped_ring_def slots_from_def slot_def k_MASK_def memcpy_out_def)

theorem ring_push_appends_witness:
  "ring_contents 2 1 (snd (try_push 2 1 [33] wrapped_ring)) = [[22], [33]]"
  using ring_push_appends [OF wrapped_ring_inv, of "[33]" "fst (try_push 2 1 [33] wrapped_ring)"
      "snd (try_push 2 1 [33] wrapped_ring)"]
  by (simp add: wrapped_ring_contents [simplified] capacity_def)

text \<open>
  C21. A batch goes in whole or not at all, whatever its length: it is accepted exactly when all of
  it fits in the room left, and then stands in order behind what was there.
\<close>

theorem ring_batch_all_or_nothing:
  assumes "ring_inv cap sz r" and "\<forall>v \<in> set vs. length v = sz" and "length vs < 2 ^ 64"
    and "try_push_span cap sz vs r = (pushed, r')"
  shows "ring_inv cap sz r' \<and>
    (pushed \<longleftrightarrow> length (ring_contents cap sz r) + length vs \<le> capacity cap) \<and>
    ring_contents cap sz r' = ring_contents cap sz r @ (if pushed then vs else [])"
  using try_push_span_spec [OF assms(1-3)] assms(4) by (simp add: capacity_def)

theorem ring_batch_all_or_nothing_witness:
  "ring_contents 2 1 (snd (try_push_span 2 1 [[1], [2]] wrapped_ring)) = [[22]]"
  using ring_batch_all_or_nothing [OF wrapped_ring_inv, of "[[1], [2]]"
      "fst (try_push_span 2 1 [[1], [2]] wrapped_ring)"
      "snd (try_push_span 2 1 [[1], [2]] wrapped_ring)"]
  by (simp add: wrapped_ring_contents [simplified] capacity_def)

text \<open>
  C20. A pop returns the oldest value and removes it, or returns nothing exactly when the ring is
  empty.
\<close>

theorem ring_pop_oldest:
  assumes "ring_inv cap sz r" and "try_pop cap sz r = (popped, r')"
  shows "ring_inv cap sz r' \<and>
    (case popped of
       None \<Rightarrow> ring_contents cap sz r = [] \<and> ring_contents cap sz r' = []
     | Some v \<Rightarrow> ring_contents cap sz r = v # ring_contents cap sz r')"
  using ring.pop_inv [OF assms(1)] ring.pop_answer [OF assms(1)] ring.pop_contents [OF assms(1)]
    assms(2)
  by (auto split: list.splits)

theorem ring_pop_oldest_witness:
  "ring_contents 2 1 (snd (try_pop 2 1 wrapped_ring)) = []"
  using ring_pop_oldest [OF wrapped_ring_inv, of "fst (try_pop 2 1 wrapped_ring)"
      "snd (try_pop 2 1 wrapped_ring)"]
  by (auto simp: wrapped_ring_contents [simplified] split: option.splits)

text \<open>
  First in, first out over any sequence of calls on a new ring: the values accepted are the
  values popped followed by those still inside, which are never more than the capacity.
\<close>

theorem ring_runs_fifo:
  assumes "SpscRingParameters cap" and "\<forall>v. Push v \<in> set ops \<longrightarrow> length v = sz"
    and "run_queue (try_push cap sz) (try_pop cap sz) ops (SpscRing cap sz) = (accepted, popped, r)"
  shows "accepted = popped @ ring_contents cap sz r \<and>
    length (ring_contents cap sz r) \<le> capacity cap"
  using ring.run_queue_fifo [OF ring_inv_init [OF assms(1), of sz], of ops] assms(2,3)
    ring.bounded [of cap sz r]
  by (simp add: ring_contents_init capacity_def)

theorem ring_runs_fifo_witness:
  "let ops = [Push [7], Push [8], Push [9], Pop];
       (accepted, popped, r) = run_queue (try_push 2 1) (try_pop 2 1) ops (SpscRing 2 1)
   in accepted = popped @ ring_contents 2 1 r"
  using ring_runs_fifo [of 2 "[Push [7], Push [8], Push [9], Pop]" 1]
  by (auto simp: Let_def split: prod.splits)

end
