(* ===== verification/Core_Spsc_Concurrent.thy ===== *)
theory Core_Spsc_Concurrent
  imports Core_Spsc_Ring
begin

text \<open>
  The ring of \<^verbatim>\<open>core_spsc_ring.h\<close> with its two threads interleaved, one memory access per step,
  under the release/acquire part of the C++ memory model.

  Each counter is written by one thread, so its modification order is the list of the values
  stored (\<open>head_hist\<close>, \<open>tail_hist\<close>), and a load of the other side's counter may return
  \<^emph>\<open>any\<close> stored value not older than the last one that thread has read (coherence): stale
  reads are part of the model. A release store carries the clock of its thread, the number of slot
  bytes that thread has accessed so far; the acquire load that reads it learns that clock
  (edges A and B of the component documentation). A thread reads its own counter with a relaxed
  load, which returns its last store.

  The slots are plain bytes, copied one byte per step. As C++ defines it, two accesses
  to one byte from different threads, one of them a write, race unless the first happens before
  the second, that is, unless the second thread has learned a clock that covers the first. A
  racing or out-of-bounds access sets \<open>undefined\<close>. The observable histories are the answers
  of the producer's calls and the returns of the consumer's.
\<close>

section \<open>State\<close>

datatype push_call = Push_one bytes | Push_span "bytes list"

fun call_values :: "push_call \<Rightarrow> bytes list" where
  "call_values (Push_one v) = [v]"
| "call_values (Push_span vs) = vs"

datatype producer_pc =
    P_Idle
  | P_Refresh push_call
  | P_Copy "(nat \<times> u8) list" push_call

datatype consumer_pc =
    C_Idle
  | C_Refresh
  | C_Read bytes

type_synonym message = "u64 \<times> nat"

record spsc_state =
  head_hist :: "message list"
  tail_hist :: "message list"
  memory :: "nat \<Rightarrow> u8"
  w_time :: "nat \<Rightarrow> nat"
  r_time :: "nat \<Rightarrow> nat"
  p_pc :: producer_pc
  cached_tail :: u64
  p_seen :: nat
  p_known :: nat
  p_time :: nat
  c_pc :: consumer_pc
  cached_head :: u64
  c_seen :: nat
  c_known :: nat
  c_time :: nat
  answers :: "(push_call \<times> bool) list"
  returns :: "bytes option list"
  undefined_behavior :: bool

definition spsc_init :: spsc_state where
  "spsc_init = \<lparr>head_hist = [(0, 0)], tail_hist = [(0, 0)], memory = (\<lambda>_. 0),
     w_time = (\<lambda>_. 0), r_time = (\<lambda>_. 0),
     p_pc = P_Idle, cached_tail = 0, p_seen = 0, p_known = 0, p_time = 0,
     c_pc = C_Idle, cached_head = 0, c_seen = 0, c_known = 0, c_time = 0,
     answers = [], returns = [], undefined_behavior = False\<rparr>"

text \<open>The values accepted and the values popped so far.\<close>

definition accepted :: "spsc_state \<Rightarrow> bytes list" where
  "accepted s = concat (map (\<lambda>(call, b). if b then call_values call else []) (answers s))"

definition popped :: "spsc_state \<Rightarrow> bytes list" where
  "popped s = concat (map (\<lambda>x. case x of None \<Rightarrow> [] | Some v \<Rightarrow> [v]) (returns s))"

section \<open>Steps of the producer\<close>

definition own_head :: "spsc_state \<Rightarrow> u64" where
  "own_head s = fst (last (head_hist s))"

definition own_tail :: "spsc_state \<Rightarrow> u64" where
  "own_tail s = fst (last (tail_hist s))"

fun lacks_room :: "u64 \<Rightarrow> push_call \<Rightarrow> u64 \<Rightarrow> u64 \<Rightarrow> bool" where
  "lacks_room cap (Push_one v) head tail \<longleftrightarrow> head - tail = cap"
| "lacks_room cap (Push_span vs) head tail \<longleftrightarrow> cap - (head - tail) < of_nat (length vs)"

fun too_many :: "u64 \<Rightarrow> push_call \<Rightarrow> bool" where
  "too_many cap (Push_one v) \<longleftrightarrow> False"
| "too_many cap (Push_span vs) \<longleftrightarrow> cap < of_nat (length vs)"

text \<open>The byte stores of the \<^verbatim>\<open>memcpy\<close> calls: address and byte, in order.\<close>

fun copy_plan :: "u64 \<Rightarrow> nat \<Rightarrow> u64 \<Rightarrow> bytes list \<Rightarrow> (nat \<times> u8) list" where
  "copy_plan cap sz counter [] = []"
| "copy_plan cap sz counter (v # vs) =
     zip [slot cap sz counter..<slot cap sz counter + sz] v @ copy_plan cap sz (counter + 1) vs"

definition answer :: "push_call \<Rightarrow> bool \<Rightarrow> spsc_state \<Rightarrow> spsc_state" where
  "answer call b s = s\<lparr>p_pc := P_Idle, answers := answers s @ [(call, b)]\<rparr>"

definition begin_copy :: "u64 \<Rightarrow> nat \<Rightarrow> push_call \<Rightarrow> spsc_state \<Rightarrow> spsc_state" where
  "begin_copy cap sz call s =
     s\<lparr>p_pc := P_Copy (copy_plan cap sz (own_head s) (call_values call)) call\<rparr>"

definition start_push :: "u64 \<Rightarrow> nat \<Rightarrow> push_call \<Rightarrow> spsc_state \<Rightarrow> spsc_state" where
  "start_push cap sz call s =
     (if call_values call = [] then answer call True s
      else if too_many cap call then answer call False s
      else if lacks_room cap call (own_head s) (cached_tail s) then s\<lparr>p_pc := P_Refresh call\<rparr>
      else begin_copy cap sz call s)"

text \<open>The acquire load of \<^verbatim>\<open>d_tail\<close> reads the store number \<open>j\<close> (edge B).\<close>

definition refresh_push :: "u64 \<Rightarrow> nat \<Rightarrow> push_call \<Rightarrow> nat \<Rightarrow> spsc_state \<Rightarrow> spsc_state" where
  "refresh_push cap sz call j s =
     (let s' = s\<lparr>cached_tail := fst (tail_hist s ! j), p_seen := j,
                 p_known := max (p_known s) (snd (tail_hist s ! j))\<rparr>
      in if lacks_room cap call (own_head s') (cached_tail s') then answer call False s'
         else begin_copy cap sz call s')"

text \<open>A plain store of one byte: it races unless the consumer's last read of it is known.\<close>

definition store_byte ::
  "u64 \<Rightarrow> nat \<Rightarrow> nat \<Rightarrow> u8 \<Rightarrow> (nat \<times> u8) list \<Rightarrow> push_call \<Rightarrow> spsc_state \<Rightarrow> spsc_state" where
  "store_byte cap sz a b todo call s =
     s\<lparr>memory := (memory s)(a := b), w_time := (w_time s)(a := p_time s + 1),
       p_time := p_time s + 1, p_pc := P_Copy todo call,
       undefined_behavior := undefined_behavior s \<or> unat cap * sz \<le> a \<or> p_known s < r_time s a\<rparr>"

text \<open>The release store of \<^verbatim>\<open>d_head\<close> (edge A).\<close>

definition publish :: "push_call \<Rightarrow> spsc_state \<Rightarrow> spsc_state" where
  "publish call s = answer call True
     (s\<lparr>head_hist := head_hist s @
         [(own_head s + of_nat (length (call_values call)), p_time s)]\<rparr>)"

section \<open>Steps of the consumer\<close>

definition start_pop :: "spsc_state \<Rightarrow> spsc_state" where
  "start_pop s = s\<lparr>c_pc := (if own_tail s = cached_head s then C_Refresh else C_Read [])\<rparr>"

text \<open>The acquire load of \<^verbatim>\<open>d_head\<close> reads the store number \<open>j\<close> (edge A).\<close>

definition refresh_pop :: "nat \<Rightarrow> spsc_state \<Rightarrow> spsc_state" where
  "refresh_pop j s =
     (let s' = s\<lparr>cached_head := fst (head_hist s ! j), c_seen := j,
                 c_known := max (c_known s) (snd (head_hist s ! j))\<rparr>
      in if own_tail s' = cached_head s'
         then s'\<lparr>c_pc := C_Idle, returns := returns s' @ [None]\<rparr>
         else s'\<lparr>c_pc := C_Read []\<rparr>)"

definition load_byte :: "u64 \<Rightarrow> nat \<Rightarrow> bytes \<Rightarrow> spsc_state \<Rightarrow> spsc_state" where
  "load_byte cap sz acc s =
     (let a = slot cap sz (own_tail s) + length acc in
      s\<lparr>r_time := (r_time s)(a := c_time s + 1), c_time := c_time s + 1,
        c_pc := C_Read (acc @ [memory s a]),
        undefined_behavior := undefined_behavior s \<or> unat cap * sz \<le> a \<or> c_known s < w_time s a\<rparr>)"

text \<open>The release store of \<^verbatim>\<open>d_tail\<close> (edge B).\<close>

definition release :: "bytes \<Rightarrow> spsc_state \<Rightarrow> spsc_state" where
  "release acc s = s\<lparr>tail_hist := tail_hist s @ [(own_tail s + 1, c_time s)], c_pc := C_Idle,
     returns := returns s @ [Some acc]\<rparr>"

section \<open>The transition system\<close>

definition call_ok :: "nat \<Rightarrow> push_call \<Rightarrow> bool" where
  "call_ok sz call \<longleftrightarrow> (\<forall>v \<in> set (call_values call). length v = sz) \<and>
     length (call_values call) < 2 ^ 64"

inductive p_step :: "u64 \<Rightarrow> nat \<Rightarrow> spsc_state \<Rightarrow> spsc_state \<Rightarrow> bool" for cap sz where
  p_start: "p_pc s = P_Idle \<Longrightarrow> call_ok sz call \<Longrightarrow> p_step cap sz s (start_push cap sz call s)"
| p_refresh: "p_pc s = P_Refresh call \<Longrightarrow> p_seen s \<le> j \<Longrightarrow> j < length (tail_hist s) \<Longrightarrow>
    p_step cap sz s (refresh_push cap sz call j s)"
| p_store: "p_pc s = P_Copy ((a, b) # todo) call \<Longrightarrow>
    p_step cap sz s (store_byte cap sz a b todo call s)"
| p_publish: "p_pc s = P_Copy [] call \<Longrightarrow> p_step cap sz s (publish call s)"

inductive c_step :: "u64 \<Rightarrow> nat \<Rightarrow> spsc_state \<Rightarrow> spsc_state \<Rightarrow> bool" for cap sz where
  c_start: "c_pc s = C_Idle \<Longrightarrow> c_step cap sz s (start_pop s)"
| c_refresh: "c_pc s = C_Refresh \<Longrightarrow> c_seen s \<le> j \<Longrightarrow> j < length (head_hist s) \<Longrightarrow>
    c_step cap sz s (refresh_pop j s)"
| c_load: "c_pc s = C_Read acc \<Longrightarrow> length acc < sz \<Longrightarrow> c_step cap sz s (load_byte cap sz acc s)"
| c_release: "c_pc s = C_Read acc \<Longrightarrow> length acc = sz \<Longrightarrow> c_step cap sz s (release acc s)"

inductive spsc_reachable :: "u64 \<Rightarrow> nat \<Rightarrow> spsc_state \<Rightarrow> bool" for cap sz where
  start: "spsc_reachable cap sz spsc_init"
| producer: "spsc_reachable cap sz s \<Longrightarrow> p_step cap sz s t \<Longrightarrow> spsc_reachable cap sz t"
| consumer: "spsc_reachable cap sz s \<Longrightarrow> c_step cap sz s t \<Longrightarrow> spsc_reachable cap sz t"

section \<open>A counter's history\<close>

text \<open>
  The history of a counter with one writer is a growing list of counts, each stored with the clock
  \<open>count * sz\<close>; the other thread's copy holds one of them, never a later one than the last.
\<close>

definition msg :: "nat \<Rightarrow> nat \<Rightarrow> message" where
  "msg sz n = (of_nat n, n * sz)"

definition hist_ok :: "nat \<Rightarrow> message list \<Rightarrow> nat \<Rightarrow> nat \<Rightarrow> nat \<Rightarrow> bool" where
  "hist_ok sz hist seen cur l \<longleftrightarrow>
     (\<exists>ns. hist = map (msg sz) ns \<and> ns \<noteq> [] \<and> sorted ns \<and> seen < length ns \<and> ns ! seen = cur \<and> last ns = l)"

lemma hist_ok_init: "hist_ok sz [(0, 0)] 0 0 0"
  unfolding hist_ok_def by (rule exI [of _ "[0]"]) (simp add: msg_def)

lemma hist_ok_last: "hist_ok sz hist seen cur l \<Longrightarrow> fst (last hist) = of_nat l"
proof -
  assume "hist_ok sz hist seen cur l"
  then obtain ns where "hist = map (msg sz) ns" "ns \<noteq> []" "last ns = l"
    by (auto simp: hist_ok_def)
  then show ?thesis by (simp add: last_map msg_def)
qed

lemma hist_ok_le: "hist_ok sz hist seen cur l \<Longrightarrow> cur \<le> l"
proof -
  assume "hist_ok sz hist seen cur l"
  then obtain ns where "ns \<noteq> []" "sorted ns" "seen < length ns" "ns ! seen = cur" "last ns = l"
    by (auto simp: hist_ok_def)
  moreover from this have "last ns = ns ! (length ns - 1)" and "seen \<le> length ns - 1"
    by (auto simp: last_conv_nth)
  ultimately show ?thesis
    using sorted_nth_mono [of ns seen "length ns - 1"] by simp
qed

lemma hist_ok_read:
  assumes "hist_ok sz hist seen cur l" and "seen \<le> j" and "j < length hist"
  obtains n where "hist ! j = (of_nat n, n * sz)" and "cur \<le> n" and "hist_ok sz hist j n l"
proof -
  from assms(1) obtain ns where ns: "hist = map (msg sz) ns" "sorted ns" "ns ! seen = cur" "last ns = l"
    by (auto simp: hist_ok_def)
  with assms(2,3) have "cur \<le> ns ! j" and "hist ! j = (of_nat (ns ! j), ns ! j * sz)"
    by (auto simp: msg_def intro: sorted_nth_mono)
  moreover have "hist_ok sz hist j (ns ! j) l"
    using ns assms(3) by (auto simp: hist_ok_def)
  ultimately show ?thesis using that by blast
qed

lemma hist_ok_store:
  assumes "hist_ok sz hist seen cur l" and "l \<le> l'"
  shows "hist_ok sz (hist @ [(of_nat l', l' * sz)]) seen cur l'"
proof -
  from assms(1) obtain ns where ns: "hist = map (msg sz) ns" "ns \<noteq> []" "sorted ns"
    "seen < length ns" "ns ! seen = cur" "last ns = l"
    by (auto simp: hist_ok_def)
  have "\<forall>n \<in> set ns. n \<le> l"
  proof
    fix n assume "n \<in> set ns"
    then obtain i where "i < length ns" "ns ! i = n" by (auto simp: in_set_conv_nth)
    with ns have "hist_ok sz hist i n l" by (auto simp: hist_ok_def)
    then show "n \<le> l" by (rule hist_ok_le)
  qed
  with ns(2,3) assms(2) have "sorted (ns @ [l'])"
    by (auto simp: sorted_append)
  moreover have "hist @ [(of_nat l', l' * sz)] = map (msg sz) (ns @ [l'])"
    by (simp only: ns(1) map_append list.map msg_def)
  moreover have "seen < length (ns @ [l'])" and "(ns @ [l']) ! seen = cur"
    using ns(4,5) by (simp_all add: nth_append)
  ultimately show ?thesis
    unfolding hist_ok_def by (intro exI [of _ "ns @ [l']"]) simp
qed

section \<open>The slots as a ring of bytes\<close>

text \<open>
  Number the bytes of all values ever pushed from 0: byte \<open>i\<close> of value \<open>k\<close> is byte
  \<open>k * sz + i\<close>, and it lives at that number modulo the size of the slots.
\<close>

lemma slot_of_nat:
  assumes "has_single_bit cap"
  shows "slot cap sz (of_nat k) = k mod unat cap * sz"
  using unat_add_mod_cap [OF assms, of 0 k] by (simp add: slot_def slot_number [OF assms])

lemma byte_address:
  assumes "has_single_bit cap" and "i < sz"
  shows "slot cap sz (of_nat k) + i = (k * sz + i) mod (unat cap * sz)"
proof -
  have "(k * sz + i) div sz = k" and "(k * sz + i) mod sz = i"
    using assms(2) by simp_all
  then have "(k * sz + i) mod (sz * unat cap) = sz * (k mod unat cap) + i"
    by (simp add: mod_mult2_eq)
  then show ?thesis
    by (simp add: slot_of_nat [OF assms(1)] mult.commute)
qed

lemma mod_window_inject:
  fixes a b n :: nat
  assumes "a mod n = b mod n" and "a \<le> b" and "b < a + n"
  shows "a = b"
proof -
  have "n dvd b - a" using assms(1,2) by (metis mod_eq_dvd_iff_nat)
  moreover have "b - a < n" using assms(2,3) by linarith
  ultimately have "b - a = 0" using nat_dvd_not_less by blast
  then show ?thesis using assms(2) by simp
qed

lemma length_concat_const: "\<forall>v \<in> set vs. length v = sz \<Longrightarrow> length (concat vs) = length vs * sz"
  by (induction vs) auto

lemma concat_nth_block:
  assumes "\<forall>v \<in> set vs. length v = sz" and "k < length vs"
  shows "take sz (drop (k * sz) (concat vs)) = vs ! k"
  using assms
proof (induction vs arbitrary: k)
  case Nil
  then show ?case by simp
next
  case (Cons v vs)
  then show ?case by (cases k) auto
qed

lemma copy_plan_first:
  assumes "has_single_bit cap" and "length v = sz"
  shows "zip [slot cap sz (of_nat k)..<slot cap sz (of_nat k) + sz] v =
    map (\<lambda>n. ((k * sz + n) mod (unat cap * sz), v ! n)) [0..<sz]"
proof -
  have "zip [slot cap sz (of_nat k)..<slot cap sz (of_nat k) + sz] v =
      map (\<lambda>n. (slot cap sz (of_nat k) + n, v ! n)) [0..<sz]"
    by (rule nth_equalityI) (use assms(2) in auto)
  also have "\<dots> = map (\<lambda>n. ((k * sz + n) mod (unat cap * sz), v ! n)) [0..<sz]"
    unfolding map_eq_conv
  proof
    fix n assume "n \<in> set [0..<sz]"
    then have "n < sz" by simp
    then show "(slot cap sz (of_nat k) + n, v ! n) = ((k * sz + n) mod (unat cap * sz), v ! n)"
      by (simp only: byte_address [OF assms(1)])
  qed
  finally show ?thesis .
qed

lemma map_nth_append:
  "map (\<lambda>n. (g n, (v @ w) ! n)) [0..<length v + m] =
     map (\<lambda>n. (g n, v ! n)) [0..<length v] @ map (\<lambda>n. (g (length v + n), w ! n)) [0..<m]"
  by (rule nth_equalityI) (auto simp: nth_append)

lemma copy_plan_eq:
  assumes "has_single_bit cap" and "\<forall>v \<in> set vs. length v = sz"
  shows "copy_plan cap sz (of_nat k) vs =
    map (\<lambda>n. ((k * sz + n) mod (unat cap * sz), concat vs ! n)) [0..<length vs * sz]"
  using assms(2)
proof (induction vs arbitrary: k)
  case Nil
  then show ?case by simp
next
  case (Cons v vs)
  have v: "length v = sz" and all: "\<forall>v \<in> set vs. length v = sz" using Cons.prems by auto
  have "of_nat k + 1 = (of_nat (Suc k) :: u64)" by simp
  with Cons.IH [OF all, of "Suc k"]
  have rest: "copy_plan cap sz (of_nat k + 1) vs =
      map (\<lambda>n. ((Suc k * sz + n) mod (unat cap * sz), concat vs ! n)) [0..<length vs * sz]"
    by (simp only:)
  have "(Suc k * sz + n) = (k * sz + (sz + n))" for n by simp
  then have "copy_plan cap sz (of_nat k) (v # vs) =
      map (\<lambda>n. ((k * sz + n) mod (unat cap * sz), (v @ concat vs) ! n)) [0..<sz + length vs * sz]"
    using map_nth_append [of "\<lambda>n. (k * sz + n) mod (unat cap * sz)" v "concat vs" "length vs * sz"] v
    by (simp only: copy_plan.simps rest copy_plan_first [OF assms(1) v])
  then show ?case by simp
qed

section \<open>The invariant\<close>

text \<open>Bytes written and not yet handed back hold the stream, each stamped with its store.\<close>

definition mem_ok :: "nat \<Rightarrow> nat \<Rightarrow> nat \<Rightarrow> bytes \<Rightarrow> (nat \<Rightarrow> u8) \<Rightarrow> (nat \<Rightarrow> nat) \<Rightarrow> bool" where
  "mem_ok N lo hi stream m wt \<longleftrightarrow>
     (\<forall>n. lo \<le> n \<and> n < hi \<longrightarrow> m (n mod N) = stream ! n \<and> wt (n mod N) = n + 1)"

text \<open>The last read of each byte, seen from the consumer's position: one round earlier.\<close>

definition reads_ok :: "nat \<Rightarrow> nat \<Rightarrow> (nat \<Rightarrow> nat) \<Rightarrow> bool" where
  "reads_ok N pos rt \<longleftrightarrow>
     (\<forall>n. pos \<le> n \<and> n < pos + N \<longrightarrow> rt (n mod N) = (if n < N then 0 else n - N + 1))"

lemma mem_ok_store:
  assumes "mem_ok N lo hi stream m wt" and "hi < lo + N"
  shows "mem_ok N lo (hi + 1) stream (m(hi mod N := stream ! hi)) (wt(hi mod N := hi + 1))"
proof -
  have "n mod N \<noteq> hi mod N" if "lo \<le> n" "n < hi" for n
    using mod_window_inject [of n N hi] that assms(2) by auto
  then show ?thesis
    using assms(1) by (auto simp: mem_ok_def less_Suc_eq)
qed

lemma mem_ok_mono: "mem_ok N lo hi stream m wt \<Longrightarrow> lo \<le> lo' \<Longrightarrow> mem_ok N lo' hi stream m wt"
  by (auto simp: mem_ok_def)

lemma mem_ok_extend:
  "mem_ok N lo hi stream m wt \<Longrightarrow> hi \<le> length stream \<Longrightarrow> mem_ok N lo hi (stream @ xs) m wt"
  by (auto simp: mem_ok_def nth_append)

lemma reads_ok_load:
  assumes "reads_ok N pos rt" and "0 < N"
  shows "reads_ok N (pos + 1) (rt(pos mod N := pos + 1))"
proof -
  have "rt' (n mod N) = (if n < N then 0 else n - N + 1)"
    if n: "pos + 1 \<le> n" "n < pos + 1 + N" and rt': "rt' = rt(pos mod N := pos + 1)" for n rt'
  proof (cases "n = pos + N")
    case True
    then show ?thesis by (simp add: rt')
  next
    case False
    then have "n mod N \<noteq> pos mod N"
      using mod_window_inject [of pos N n] n by auto
    then show ?thesis
      using assms(1) n False by (simp add: rt' reads_ok_def)
  qed
  then show ?thesis by (simp add: reads_ok_def)
qed

definition in_flight :: "spsc_state \<Rightarrow> bytes list" where
  "in_flight s = (case p_pc s of P_Copy todo call \<Rightarrow> call_values call | _ \<Rightarrow> [])"

definition stream :: "spsc_state \<Rightarrow> bytes" where
  "stream s = concat (accepted s @ in_flight s)"

text \<open>The producer's half, from a tail copy of \<open>ct\<close>, with \<open>T\<close> values popped.\<close>

definition p_inv :: "u64 \<Rightarrow> nat \<Rightarrow> nat \<Rightarrow> spsc_state \<Rightarrow> bool" where
  "p_inv cap sz ct s \<longleftrightarrow>
     (let H = length (accepted s); T = length (popped s); k = length (in_flight s) in
      hist_ok sz (tail_hist s) (p_seen s) ct T
    \<and> cached_tail s = of_nat ct \<and> p_known s = ct * sz
    \<and> (\<forall>v \<in> set (accepted s @ in_flight s). length v = sz)
    \<and> H * sz \<le> p_time s \<and> p_time s \<le> (H + k) * sz \<and> H + k \<le> ct + unat cap
    \<and> (case p_pc s of
         P_Idle \<Rightarrow> True
       | P_Refresh call \<Rightarrow> call_ok sz call \<and> \<not> too_many cap call
       | P_Copy todo call \<Rightarrow>
           todo = map (\<lambda>n. (n mod (unat cap * sz), stream s ! n)) [p_time s..<(H + k) * sz]))"

text \<open>The consumer's half, from a head copy of \<open>ch\<close>.\<close>

definition c_inv :: "u64 \<Rightarrow> nat \<Rightarrow> nat \<Rightarrow> spsc_state \<Rightarrow> bool" where
  "c_inv cap sz ch s \<longleftrightarrow>
     (let H = length (accepted s); T = length (popped s) in
      hist_ok sz (head_hist s) (c_seen s) ch H
    \<and> cached_head s = of_nat ch \<and> c_known s = ch * sz \<and> T \<le> ch
    \<and> popped s = take T (accepted s)
    \<and> (case c_pc s of
         C_Read acc \<Rightarrow> T < ch \<and> c_time s = T * sz + length acc \<and> length acc \<le> sz
                      \<and> acc = take (length acc) (accepted s ! T)
       | _ \<Rightarrow> c_time s = T * sz))"

definition spsc_inv :: "u64 \<Rightarrow> nat \<Rightarrow> spsc_state \<Rightarrow> bool" where
  "spsc_inv cap sz s \<longleftrightarrow>
     \<not> undefined_behavior s
   \<and> mem_ok (unat cap * sz) (length (popped s) * sz) (p_time s) (stream s) (memory s) (w_time s)
   \<and> reads_ok (unat cap * sz) (c_time s) (r_time s)
   \<and> (\<exists>ct. p_inv cap sz ct s) \<and> (\<exists>ch. c_inv cap sz ch s)"

lemma spsc_init_inv: "spsc_inv cap sz spsc_init"
proof -
  have "p_inv cap sz 0 spsc_init"
    by (simp add: p_inv_def spsc_init_def accepted_def popped_def in_flight_def hist_ok_init)
  moreover have "c_inv cap sz 0 spsc_init"
    by (simp add: c_inv_def spsc_init_def accepted_def popped_def hist_ok_init)
  moreover have "popped spsc_init = []" by (simp add: popped_def spsc_init_def)
  ultimately show ?thesis
    by (auto simp: spsc_inv_def mem_ok_def reads_ok_def) (auto simp: spsc_init_def)
qed

text \<open>What the two halves know of each other.\<close>

lemma spsc_inv_bounds:
  assumes "p_inv cap sz ct s" and "c_inv cap sz ch s"
  defines "H \<equiv> length (accepted s)" and "T \<equiv> length (popped s)"
  shows "ct \<le> T" and "T \<le> ch" and "ch \<le> H" and "H \<le> ct + unat cap"
    and "own_head s = of_nat H" and "own_tail s = of_nat T"
    and "T * sz \<le> c_time s" and "c_time s \<le> H * sz"
proof -
  have t: "hist_ok sz (tail_hist s) (p_seen s) ct T" and "H + length (in_flight s) \<le> ct + unat cap"
    using assms(1) by (simp_all add: p_inv_def Let_def H_def T_def)
  moreover have h: "hist_ok sz (head_hist s) (c_seen s) ch H"
    and "T \<le> ch"
    and c: "case c_pc s of C_Read acc \<Rightarrow> T < ch \<and> c_time s = T * sz + length acc \<and> length acc \<le> sz
         \<and> acc = take (length acc) (accepted s ! T) | _ \<Rightarrow> c_time s = T * sz"
    using assms(2) unfolding H_def T_def by (simp_all only: c_inv_def Let_def)
  ultimately show "ct \<le> T" and "T \<le> ch" and ch: "ch \<le> H" and "H \<le> ct + unat cap"
    and "own_head s = of_nat H" and "own_tail s = of_nat T"
    using hist_ok_le [OF t] hist_ok_le [OF h] hist_ok_last [OF t] hist_ok_last [OF h]
    by (simp_all add: own_head_def own_tail_def)
  show "T * sz \<le> c_time s"
    using c by (auto split: consumer_pc.splits)
  show "c_time s \<le> H * sz"
  proof (cases "c_pc s")
    case (C_Read acc)
    then have "c_time s \<le> Suc T * sz" and "Suc T \<le> H" using c ch by auto
    then show ?thesis by (meson le_trans mult_le_mono1)
  qed (use c \<open>T \<le> ch\<close> ch in \<open>auto intro: mult_le_mono1\<close>)
qed

text \<open>Each half depends on its own variables and on the observable histories only.\<close>

lemma c_inv_frame:
  assumes "c_inv cap sz ch s" and "head_hist t = head_hist s" and "c_seen t = c_seen s"
    and "cached_head t = cached_head s" and "c_known t = c_known s" and "c_pc t = c_pc s"
    and "c_time t = c_time s" and "accepted t = accepted s" and "popped t = popped s"
  shows "c_inv cap sz ch t"
  using assms(1) unfolding c_inv_def assms(2-) .

lemma p_inv_frame:
  assumes "p_inv cap sz ct s" and "tail_hist t = tail_hist s" and "p_seen t = p_seen s"
    and "cached_tail t = cached_tail s" and "p_known t = p_known s" and "p_pc t = p_pc s"
    and "p_time t = p_time s" and "accepted t = accepted s" and "popped t = popped s"
  shows "p_inv cap sz ct t"
proof -
  have flight: "in_flight t = in_flight s" using assms(6) by (simp add: in_flight_def)
  then have stream: "stream t = stream s" using assms(8) by (simp add: stream_def)
  show ?thesis
    using assms(1) unfolding p_inv_def assms(2-) flight stream .
qed

lemma spsc_inv_frame:
  assumes "spsc_inv cap sz s" and "p_inv cap sz ct t" and "c_inv cap sz ch t"
    and "undefined_behavior t = undefined_behavior s" and "memory t = memory s"
    and "w_time t = w_time s" and "r_time t = r_time s" and "p_time t = p_time s"
    and "c_time t = c_time s" and "stream t = stream s" and "popped t = popped s"
  shows "spsc_inv cap sz t"
  using assms(1-3) unfolding spsc_inv_def assms(4-) by blast

text \<open>Outside a copy the producer's half is only about its counters.\<close>

lemma p_inv_no_copy:
  assumes "in_flight s = []"
  shows "p_inv cap sz ct s \<longleftrightarrow>
     hist_ok sz (tail_hist s) (p_seen s) ct (length (popped s))
   \<and> cached_tail s = of_nat ct \<and> p_known s = ct * sz
   \<and> (\<forall>v \<in> set (accepted s). length v = sz)
   \<and> p_time s = length (accepted s) * sz \<and> length (accepted s) \<le> ct + unat cap
   \<and> (case p_pc s of
        P_Idle \<Rightarrow> True
      | P_Refresh call \<Rightarrow> call_ok sz call \<and> \<not> too_many cap call
      | P_Copy todo call \<Rightarrow> todo = [])"
  using assms by (auto simp: p_inv_def Let_def split: producer_pc.splits)

section \<open>The producer's steps keep the invariant\<close>

lemma word_room:
  fixes cap :: u64
  assumes "ct \<le> H" and "H \<le> ct + unat cap"
  shows "unat (of_nat H - of_nat ct :: u64) = H - ct"
proof -
  have "of_nat H - of_nat ct = (of_nat (H - ct) :: u64)" using assms(1) by simp
  moreover have "H - ct < 2 ^ 64" using assms unat_less_2p64 [of cap] by simp
  ultimately show ?thesis by (simp add: unat_of_nat)
qed

lemma lacks_room_iff:
  assumes "ct \<le> H" and "H \<le> ct + unat cap" and "call_ok sz call"
  shows "lacks_room cap call (of_nat H) (of_nat ct) \<longleftrightarrow>
    \<not> H + length (call_values call) \<le> ct + unat cap"
proof (cases call)
  case (Push_one v)
  then show ?thesis
    using word_room [OF assms(1,2)] assms(1,2)
    by (auto simp: word_unat_eq_iff)
next
  case (Push_span vs)
  then have "unat (of_nat (length vs) :: u64) = length vs"
    using assms(3) by (simp add: call_ok_def unat_of_nat)
  moreover have "of_nat H - of_nat ct \<le> cap"
    using word_room [OF assms(1,2)] assms(2) by (simp add: word_le_nat_alt)
  ultimately show ?thesis
    using word_room [OF assms(1,2)] Push_span assms(1,2)
    by (auto simp: word_less_nat_alt unat_sub)
qed

text \<open>An answer that accepts nothing leaves every observation of the ring unchanged.\<close>

lemma answer_nothing_inv:
  assumes "spsc_inv cap sz s" and "in_flight s = []" and "b \<Longrightarrow> call_values call = []"
  shows "spsc_inv cap sz (answer call b s)"
proof -
  have same: "accepted (answer call b s) = accepted s" "popped (answer call b s) = popped s"
    "in_flight (answer call b s) = []" "stream (answer call b s) = stream s"
    using assms(2,3) by (auto simp: accepted_def popped_def answer_def in_flight_def stream_def)
  obtain ct ch where p: "p_inv cap sz ct s" and c: "c_inv cap sz ch s"
    using assms(1) by (auto simp: spsc_inv_def)
  have "p_inv cap sz ct (answer call b s)"
    using p same unfolding p_inv_no_copy [OF assms(2)] p_inv_no_copy [OF same(3)]
    by (simp add: answer_def)
  moreover have "c_inv cap sz ch (answer call b s)"
    by (rule c_inv_frame [OF c]) (use same in \<open>simp_all add: answer_def\<close>)
  ultimately show ?thesis
    using assms(1) same by (auto simp: spsc_inv_def) (auto simp: answer_def)
qed

lemma begin_copy_inv:
  assumes bit: "has_single_bit cap" and inv: "spsc_inv cap sz s" and p: "p_inv cap sz ct s"
    and idle: "in_flight s = []" and ok: "call_ok sz call"
    and room: "length (accepted s) + length (call_values call) \<le> ct + unat cap"
  shows "spsc_inv cap sz (begin_copy cap sz call s)"
proof -
  let ?s = "begin_copy cap sz call s" and ?vs = "call_values call" and ?N = "unat cap * sz"
  let ?H = "length (accepted s)"
  obtain ch where c: "c_inv cap sz ch s" using inv by (auto simp: spsc_inv_def)
  have same: "accepted ?s = accepted s" "popped ?s = popped s" "in_flight ?s = ?vs"
    by (simp_all add: accepted_def popped_def begin_copy_def in_flight_def)
  have all: "\<forall>v \<in> set (accepted s). length v = sz" and "\<forall>v \<in> set ?vs. length v = sz"
    and W: "p_time s = ?H * sz"
    using p idle ok by (auto simp: p_inv_def Let_def call_ok_def)
  have len: "length (concat (accepted s)) = ?H * sz"
    using all by (rule length_concat_const)
  have stream: "stream ?s = stream s @ concat ?vs" and old: "stream s = concat (accepted s)"
    using same idle by (simp_all add: stream_def)
  have upt: "[?H * sz..<(?H + length ?vs) * sz] = map (\<lambda>n. ?H * sz + n) [0..<length ?vs * sz]"
    by (rule nth_equalityI) (auto simp: algebra_simps)
  have plan: "copy_plan cap sz (own_head s) ?vs =
      map (\<lambda>n. (n mod ?N, stream ?s ! n)) [?H * sz..<(?H + length ?vs) * sz]"
    using spsc_inv_bounds(5) [OF p c] copy_plan_eq [OF bit \<open>\<forall>v \<in> set ?vs. length v = sz\<close>, of ?H]
    by (simp add: upt stream old len comp_def nth_append_length_plus [of "concat (accepted s)", unfolded len])
  have "p_inv cap sz ct ?s"
    using p room plan W same \<open>\<forall>v \<in> set ?vs. length v = sz\<close> all
    by (auto simp: p_inv_def Let_def) (auto simp: begin_copy_def)
  moreover have "c_inv cap sz ch ?s"
    by (rule c_inv_frame [OF c]) (use same in \<open>simp_all add: begin_copy_def\<close>)
  moreover have "mem_ok ?N (length (popped s) * sz) (p_time s) (stream ?s) (memory s) (w_time s)"
    unfolding stream
    by (rule mem_ok_extend) (use inv W old len in \<open>auto simp: spsc_inv_def\<close>)
  ultimately show ?thesis
    using inv same by (auto simp: spsc_inv_def begin_copy_def)
qed

lemma start_push_inv [step_inv]:
  assumes "has_single_bit cap" and inv: "spsc_inv cap sz s" and pc: "p_pc s = P_Idle"
    and ok: "call_ok sz call"
  shows "spsc_inv cap sz (start_push cap sz call s)"
proof -
  obtain ct ch where p: "p_inv cap sz ct s" and c: "c_inv cap sz ch s"
    using inv by (auto simp: spsc_inv_def)
  note b = spsc_inv_bounds [OF p c]
  have idle: "in_flight s = []" using pc by (simp add: in_flight_def)
  have "cached_tail s = of_nat ct" using p by (simp add: p_inv_def Let_def)
  with b lacks_room_iff [OF _ _ ok, of ct "length (accepted s)" cap]
  have room: "lacks_room cap call (own_head s) (cached_tail s) \<longleftrightarrow>
      \<not> length (accepted s) + length (call_values call) \<le> ct + unat cap" by simp
  let ?r = "s\<lparr>p_pc := P_Refresh call\<rparr>"
  have same: "accepted ?r = accepted s" "popped ?r = popped s" "in_flight ?r = in_flight s"
    "stream ?r = stream s"
    using idle by (simp_all add: accepted_def popped_def in_flight_def stream_def)
  have "p_inv cap sz ct ?r" if "\<not> too_many cap call"
    using p that ok same(1,2) idle
    unfolding p_inv_no_copy [OF idle] p_inv_no_copy [of ?r, OF trans [OF same(3) idle]] by simp
  moreover have "c_inv cap sz ch ?r"
    by (rule c_inv_frame [OF c]) (use same in simp_all)
  ultimately have "spsc_inv cap sz ?r" if "\<not> too_many cap call"
    using inv same that by (auto simp: spsc_inv_def)
  then show ?thesis
    using answer_nothing_inv [OF inv idle] begin_copy_inv [OF assms(1) inv p idle ok] room
    by (auto simp: start_push_def)
qed

lemma refresh_push_inv [step_inv]:
  assumes "has_single_bit cap" and inv: "spsc_inv cap sz s" and pc: "p_pc s = P_Refresh call"
    and j: "p_seen s \<le> j" "j < length (tail_hist s)"
  shows "spsc_inv cap sz (refresh_push cap sz call j s)"
proof -
  obtain ct ch where p: "p_inv cap sz ct s" and c: "c_inv cap sz ch s"
    using inv by (auto simp: spsc_inv_def)
  note b = spsc_inv_bounds [OF p c]
  have idle: "in_flight s = []" using pc by (simp add: in_flight_def)
  note p' = p [unfolded p_inv_no_copy [OF idle]]
  from p' have "hist_ok sz (tail_hist s) (p_seen s) ct (length (popped s))" by simp
  from this j obtain n where n: "tail_hist s ! j = (of_nat n, n * sz)" "ct \<le> n"
    "hist_ok sz (tail_hist s) j n (length (popped s))"
    by (rule hist_ok_read)
  define t where "t = s\<lparr>cached_tail := of_nat n, p_seen := j, p_known := n * sz\<rparr>"
  have known: "max (p_known s) (n * sz) = n * sz"
    using p' n(2) by (simp add: max_absorb2 mult_le_mono1)
  have same: "accepted t = accepted s" "popped t = popped s" "in_flight t = []" "stream t = stream s"
    using idle by (simp_all add: t_def accepted_def popped_def in_flight_def stream_def)
  have pt: "p_inv cap sz n t"
    using p' n same(1,2) b(4) pc unfolding p_inv_no_copy [OF same(3)] by (simp add: t_def)
  have "c_inv cap sz ch t"
    by (rule c_inv_frame [OF c]) (use same in \<open>simp_all add: t_def\<close>)
  with inv same pt have it: "spsc_inv cap sz t"
    by (auto simp: spsc_inv_def) (auto simp: t_def)
  have ok: "call_ok sz call" using p' pc by simp
  have "n \<le> length (popped s)" using n(3) by (rule hist_ok_le)
  with b n(2) have "n \<le> length (accepted s)" "length (accepted s) \<le> n + unat cap" by linarith+
  note room = lacks_room_iff [OF this ok]
  have "own_head t = of_nat (length (accepted s))" and "cached_tail t = of_nat n"
    using b(5) by (simp_all add: t_def own_head_def)
  then show ?thesis
    using answer_nothing_inv [OF it same(3), of False call] same(1) room
      begin_copy_inv [OF assms(1) it pt same(3) ok]
    by (simp add: refresh_push_def Let_def n(1) known flip: t_def)
qed

text \<open>
  The heart of the ring: the byte about to be overwritten was last read one round earlier, for a
  value whose release the producer has acquired, so the store cannot race.
\<close>

lemma byte_to_write:
  assumes bit: "has_single_bit cap" and inv: "spsc_inv cap sz s"
    and p: "p_inv cap sz ct s" and c: "c_inv cap sz ch s"
    and pc: "p_pc s = P_Copy ((a, b) # todo) call"
  defines "stop \<equiv> (length (accepted s) + length (in_flight s)) * sz"
  shows "p_time s < stop" and "a = p_time s mod (unat cap * sz)" and "b = stream s ! p_time s"
    and "todo = map (\<lambda>n. (n mod (unat cap * sz), stream s ! n)) [Suc (p_time s)..<stop]"
    and "p_time s < length (popped s) * sz + unat cap * sz" and "0 < unat cap * sz"
    and "r_time s a \<le> p_known s"
proof -
  let ?N = "unat cap * sz" and ?W = "p_time s"
  note bounds = spsc_inv_bounds [OF p c]
  have p': "length (accepted s) * sz \<le> ?W" "length (accepted s) + length (in_flight s) \<le> ct + unat cap"
      "p_known s = ct * sz"
    and todo: "(a, b) # todo = map (\<lambda>n. (n mod ?N, stream s ! n)) [?W..<stop]"
    using p pc by (simp_all add: p_inv_def Let_def stop_def)
  show W: "?W < stop" using todo by (cases "?W < stop") simp_all
  with todo show a: "a = ?W mod ?N" "b = stream s ! ?W"
    and "todo = map (\<lambda>n. (n mod ?N, stream s ! n)) [Suc ?W..<stop]"
    by (simp_all add: upt_conv_Cons)
  have "stop \<le> ct * sz + ?N"
    using mult_le_mono1 [OF p'(2), of sz] by (simp add: add_mult_distrib stop_def)
  with W have limit: "?W < ct * sz + ?N" by linarith
  have ct: "ct * sz \<le> length (popped s) * sz" using bounds(1) by (rule mult_le_mono1)
  show "?W < length (popped s) * sz + ?N" using limit ct by linarith
  show "0 < ?N" using W cap_positive [OF bit] by (cases sz) (auto simp: stop_def)
  have "reads_ok ?N (c_time s) (r_time s)" using inv by (simp add: spsc_inv_def)
  moreover have "c_time s \<le> ?W" and "?W < c_time s + ?N"
    using bounds(7,8) p'(1) limit ct by linarith+
  ultimately have "r_time s a = (if ?W < ?N then 0 else ?W - ?N + 1)"
    unfolding reads_ok_def a(1) by blast
  then show "r_time s a \<le> p_known s"
    using limit p'(3) by (simp split: if_splits)
qed

lemma store_byte_inv [step_inv]:
  assumes "has_single_bit cap" and inv: "spsc_inv cap sz s"
    and pc: "p_pc s = P_Copy ((a, b) # todo) call"
  shows "spsc_inv cap sz (store_byte cap sz a b todo call s)"
proof -
  let ?t = "store_byte cap sz a b todo call s" and ?N = "unat cap * sz" and ?W = "p_time s"
  obtain ct ch where p: "p_inv cap sz ct s" and c: "c_inv cap sz ch s"
    using inv by (auto simp: spsc_inv_def)
  note a = byte_to_write [OF assms(1) inv p c pc]
  have no_race: "\<not> undefined_behavior ?t"
    using inv a(2,6,7) by (simp add: spsc_inv_def store_byte_def not_le)
  have same: "accepted ?t = accepted s" "popped ?t = popped s" "in_flight ?t = in_flight s"
    "stream ?t = stream s"
    using pc by (simp_all add: accepted_def popped_def in_flight_def stream_def store_byte_def)
  have "mem_ok ?N (length (popped s) * sz) (?W + 1) (stream s)
      ((memory s)(?W mod ?N := stream s ! ?W)) ((w_time s)(?W mod ?N := ?W + 1))"
    by (intro mem_ok_store) (use inv a(5) in \<open>auto simp: spsc_inv_def\<close>)
  moreover have "p_inv cap sz ct ?t"
    using p a(1,4) same by (auto simp: p_inv_def Let_def) (auto simp: store_byte_def)
  moreover have "c_inv cap sz ch ?t"
    by (rule c_inv_frame [OF c]) (use same in \<open>simp_all add: store_byte_def\<close>)
  ultimately show ?thesis
    using inv no_race same a(2,3) by (auto simp: spsc_inv_def) (auto simp: store_byte_def)
qed

lemma publish_inv [step_inv]:
  assumes inv: "spsc_inv cap sz s" and pc: "p_pc s = P_Copy [] call"
  shows "spsc_inv cap sz (publish call s)"
proof -
  let ?t = "publish call s" and ?vs = "call_values call"
  let ?H = "length (accepted s)" and ?T = "length (popped s)"
  obtain ct ch where p: "p_inv cap sz ct s" and c: "c_inv cap sz ch s"
    using inv by (auto simp: spsc_inv_def)
  note b = spsc_inv_bounds [OF p c]
  have flight: "in_flight s = ?vs" using pc by (simp add: in_flight_def)
  have W: "p_time s = (?H + length ?vs) * sz"
    using p pc flight by (auto simp: p_inv_def Let_def)
  have same: "accepted ?t = accepted s @ ?vs" "popped ?t = popped s" "in_flight ?t = []"
    "stream ?t = stream s"
    using flight
    by (simp_all add: accepted_def popped_def in_flight_def stream_def publish_def answer_def)
  have pt: "p_inv cap sz ct ?t"
    using p W flight same unfolding p_inv_no_copy [OF same(3)]
    by (auto simp: p_inv_def Let_def publish_def answer_def)
  have hist: "head_hist ?t = head_hist s @ [(of_nat (?H + length ?vs), (?H + length ?vs) * sz)]"
    using b(5) W by (simp add: publish_def answer_def)
  have c': "hist_ok sz (head_hist s) (c_seen s) ch ?H" "popped s = take ?T (accepted s)"
    using c by (simp_all add: c_inv_def Let_def)
  have "c_inv cap sz ch ?t"
    unfolding c_inv_def Let_def same hist
  proof (intro conjI)
    show "hist_ok sz (head_hist s @ [(of_nat (?H + length ?vs), (?H + length ?vs) * sz)])
        (c_seen ?t) ch (length (accepted s @ ?vs))"
      using hist_ok_store [OF c'(1), of "?H + length ?vs"]
      by (simp add: publish_def answer_def)
    show "popped s = take ?T (accepted s @ ?vs)"
      using c'(2) b by simp
  next
    have "(accepted s @ ?vs) ! ?T = accepted s ! ?T" if "?T < ch"
      using that b by (simp add: nth_append)
    then show "case c_pc ?t of
        C_Read acc \<Rightarrow> ?T < ch \<and> c_time ?t = ?T * sz + length acc \<and> length acc \<le> sz
          \<and> acc = take (length acc) ((accepted s @ ?vs) ! ?T)
      | _ \<Rightarrow> c_time ?t = ?T * sz"
      using c by (auto simp: c_inv_def Let_def publish_def answer_def split: consumer_pc.splits)
  qed (use c in \<open>simp_all add: c_inv_def Let_def publish_def answer_def\<close>)
  then show ?thesis
    using inv same pt by (auto simp: spsc_inv_def) (auto simp: publish_def answer_def)
qed

section \<open>The consumer's steps keep the invariant\<close>

lemma start_pop_inv [step_inv]:
  assumes inv: "spsc_inv cap sz s" and pc: "c_pc s = C_Idle"
  shows "spsc_inv cap sz (start_pop s)"
proof -
  let ?t = "start_pop s"
  obtain ct ch where p: "p_inv cap sz ct s" and c: "c_inv cap sz ch s"
    using inv by (auto simp: spsc_inv_def)
  have same: "accepted ?t = accepted s" "popped ?t = popped s" "in_flight ?t = in_flight s"
    "stream ?t = stream s"
    by (simp_all add: accepted_def popped_def in_flight_def stream_def start_pop_def)
  have "p_inv cap sz ct ?t"
    by (rule p_inv_frame [OF p]) (use same in \<open>simp_all add: start_pop_def\<close>)
  moreover have "cached_head s = of_nat ch" using c by (simp add: c_inv_def Let_def)
  then have "own_tail s \<noteq> cached_head s \<Longrightarrow> length (popped s) \<noteq> ch"
    using spsc_inv_bounds(6) [OF p c] by auto
  then have "c_inv cap sz ch ?t"
    using c pc same by (auto simp: c_inv_def Let_def) (auto simp: start_pop_def)
  ultimately show ?thesis
    using inv same by (auto simp: spsc_inv_def) (auto simp: start_pop_def)
qed

lemma refresh_pop_inv [step_inv]:
  assumes inv: "spsc_inv cap sz s" and pc: "c_pc s = C_Refresh"
    and j: "c_seen s \<le> j" "j < length (head_hist s)"
  shows "spsc_inv cap sz (refresh_pop j s)"
proof -
  let ?t = "refresh_pop j s"
  obtain ct ch where p: "p_inv cap sz ct s" and c: "c_inv cap sz ch s"
    using inv by (auto simp: spsc_inv_def)
  have "hist_ok sz (head_hist s) (c_seen s) ch (length (accepted s))"
    using c by (simp add: c_inv_def Let_def)
  from this j obtain n where n: "head_hist s ! j = (of_nat n, n * sz)" "ch \<le> n"
    "hist_ok sz (head_hist s) j n (length (accepted s))"
    by (rule hist_ok_read)
  have c': "popped s = take (length (popped s)) (accepted s)" "length (popped s) \<le> ch"
    "c_time s = length (popped s) * sz" "c_known s = ch * sz"
    using c pc by (simp_all add: c_inv_def Let_def)
  have known: "max (c_known s) (n * sz) = n * sz"
    using c'(4) n(2) by (simp add: max_absorb2 mult_le_mono1)
  have own: "own_tail s = of_nat (length (popped s))"
    by (rule spsc_inv_bounds(6) [OF p c])
  have same: "accepted ?t = accepted s" "popped ?t = popped s" "in_flight ?t = in_flight s"
    "stream ?t = stream s"
    by (simp_all add: accepted_def popped_def in_flight_def stream_def refresh_pop_def Let_def)
  have pt: "p_inv cap sz ct ?t"
    by (rule p_inv_frame [OF p]) (use same in \<open>simp_all add: refresh_pop_def Let_def\<close>)
  have "length (popped s) < n \<or> length (popped s) = n"
    using c'(2) n(2) by linarith
  then consider "own_tail s = of_nat n" | "own_tail s \<noteq> of_nat n" "length (popped s) < n"
    using own by auto
  then have "c_inv cap sz n ?t"
    unfolding c_inv_def Let_def same
    using c' n known by cases (simp_all add: refresh_pop_def Let_def own_tail_def)
  with inv pt show ?thesis
    by (rule spsc_inv_frame) (use same in \<open>simp_all add: refresh_pop_def Let_def\<close>)
qed

text \<open>
  The mirror image: the byte about to be read was written for a value whose publication the
  consumer has acquired, and holds it still.
\<close>

lemma byte_to_read:
  assumes bit: "has_single_bit cap" and inv: "spsc_inv cap sz s"
    and p: "p_inv cap sz ct s" and c: "c_inv cap sz ch s"
    and pc: "c_pc s = C_Read acc" and more: "length acc < sz"
  shows "slot cap sz (own_tail s) + length acc = c_time s mod (unat cap * sz)"
    and "c_time s + 1 \<le> ch * sz"
    and "w_time s (c_time s mod (unat cap * sz)) = c_time s + 1"
    and "acc @ [memory s (c_time s mod (unat cap * sz))] =
      take (Suc (length acc)) (accepted s ! length (popped s))"
proof -
  let ?N = "unat cap * sz" and ?H = "length (accepted s)" and ?T = "length (popped s)" and ?R = "c_time s"
  note b = spsc_inv_bounds [OF p c]
  have c': "?T < ch" "?R = ?T * sz + length acc" "acc = take (length acc) (accepted s ! ?T)"
    using c pc by (simp_all add: c_inv_def Let_def)
  have lens: "\<forall>v \<in> set (accepted s). length v = sz" and W: "?H * sz \<le> p_time s"
    using p by (simp_all add: p_inv_def Let_def)
  show "slot cap sz (own_tail s) + length acc = ?R mod ?N"
    using byte_address [OF bit more] b(6) c'(2) by simp
  have "Suc ?T * sz \<le> ch * sz" and chH: "ch * sz \<le> ?H * sz"
    using mult_le_mono1 [of "Suc ?T" ch sz] mult_le_mono1 [of ch ?H sz] c'(1) b(3) by simp_all
  with c'(2) more show R: "?R + 1 \<le> ch * sz" by simp
  have RH: "?R < ?H * sz" using R chH by linarith
  have "mem_ok ?N (?T * sz) (p_time s) (stream s) (memory s) (w_time s)"
    using inv by (simp add: spsc_inv_def)
  moreover have "?T * sz \<le> ?R" and "?R < p_time s"
    using c'(2) R chH W by linarith+
  ultimately have mem: "memory s (?R mod ?N) = stream s ! ?R"
    and "w_time s (?R mod ?N) = ?R + 1"
    unfolding mem_ok_def by blast+
  then show "w_time s (?R mod ?N) = ?R + 1" by simp
  have "take sz (drop (?T * sz) (concat (accepted s))) = accepted s ! ?T"
    using concat_nth_block [OF lens] c'(1) b(3) by simp
  then have "accepted s ! ?T ! length acc = concat (accepted s) ! ?R"
    using more c'(2) R chH length_concat_const [OF lens]
    by (metis nth_take nth_drop add_leD1 le_trans)
  also have "\<dots> = stream s ! ?R"
    using RH length_concat_const [OF lens] by (simp add: stream_def nth_append)
  finally show "acc @ [memory s (?R mod ?N)] = take (Suc (length acc)) (accepted s ! ?T)"
    using c'(1,3) more lens b(3) mem by (simp add: take_Suc_conv_app_nth)
qed

lemma load_byte_inv [step_inv]:
  assumes bit: "has_single_bit cap" and inv: "spsc_inv cap sz s"
    and pc: "c_pc s = C_Read acc" and more: "length acc < sz"
  shows "spsc_inv cap sz (load_byte cap sz acc s)"
proof -
  let ?t = "load_byte cap sz acc s" and ?N = "unat cap * sz" and ?R = "c_time s"
  obtain ct ch where p: "p_inv cap sz ct s" and c: "c_inv cap sz ch s"
    using inv by (auto simp: spsc_inv_def)
  note a = byte_to_read [OF bit inv p c pc more]
  have c': "length (popped s) < ch" "c_time s = length (popped s) * sz + length acc" "c_known s = ch * sz"
    using c pc by (simp_all add: c_inv_def Let_def)
  have "0 < ?N" using more cap_positive [OF bit] by simp
  have same: "accepted ?t = accepted s" "popped ?t = popped s" "in_flight ?t = in_flight s"
    "stream ?t = stream s"
    by (simp_all add: accepted_def popped_def in_flight_def stream_def load_byte_def Let_def)
  have frame: "head_hist ?t = head_hist s" "c_seen ?t = c_seen s" "cached_head ?t = cached_head s"
    "c_known ?t = c_known s" "c_time ?t = ?R + 1" "c_pc ?t = C_Read (acc @ [memory s (?R mod ?N)])"
    using a(1) by (simp_all add: load_byte_def Let_def)
  have "length (take (Suc (length acc)) (accepted s ! length (popped s))) = Suc (length acc)"
    unfolding a(4) [symmetric] by simp
  then have "c_inv cap sz ch ?t"
    using c c'(1,2) more a(4) unfolding c_inv_def Let_def same frame by simp
  moreover have "p_inv cap sz ct ?t"
    by (rule p_inv_frame [OF p]) (use same in \<open>simp_all add: load_byte_def Let_def\<close>)
  moreover have "reads_ok ?N (?R + 1) ((r_time s)(?R mod ?N := ?R + 1))"
    by (rule reads_ok_load) (use inv \<open>0 < ?N\<close> in \<open>auto simp: spsc_inv_def\<close>)
  moreover have "\<not> undefined_behavior ?t"
    using inv a(1-3) c'(3) \<open>0 < ?N\<close> by (simp add: spsc_inv_def load_byte_def Let_def not_le)
  ultimately show ?thesis
    using inv same a(1) by (auto simp: spsc_inv_def) (auto simp: load_byte_def Let_def)
qed

lemma release_inv [step_inv]:
  assumes inv: "spsc_inv cap sz s" and pc: "c_pc s = C_Read acc" and full: "length acc = sz"
  shows "spsc_inv cap sz (release acc s)"
proof -
  let ?t = "release acc s"
  let ?H = "length (accepted s)" and ?T = "length (popped s)"
  obtain ct ch where p: "p_inv cap sz ct s" and c: "c_inv cap sz ch s"
    using inv by (auto simp: spsc_inv_def)
  note b = spsc_inv_bounds [OF p c]
  have c': "?T < ch" "c_time s = Suc ?T * sz" "acc = take (length acc) (accepted s ! ?T)"
    "popped s = take ?T (accepted s)"
    using c pc full by (simp_all add: c_inv_def Let_def)
  have lens: "\<forall>v \<in> set (accepted s). length v = sz"
    using p by (simp add: p_inv_def Let_def)
  then have "acc = accepted s ! ?T"
    using c'(1,3) full b(3) by simp
  then have popped: "popped ?t = take (Suc ?T) (accepted s)"
    using c'(1,4) b(3) by (simp add: popped_def release_def take_Suc_conv_app_nth)
  have same: "accepted ?t = accepted s" "in_flight ?t = in_flight s" "stream ?t = stream s"
    by (simp_all add: accepted_def in_flight_def stream_def release_def)
  have T': "length (popped ?t) = Suc ?T"
    using c'(1) b(3) popped by simp
  have frame: "p_seen ?t = p_seen s" "cached_tail ?t = cached_tail s" "p_known ?t = p_known s"
    "p_time ?t = p_time s" "p_pc ?t = p_pc s"
    by (simp_all add: release_def)
  have hist: "tail_hist ?t = tail_hist s @ [(of_nat (Suc ?T), Suc ?T * sz)]"
    using b(6) c'(2) by (simp add: release_def add.commute)
  have "hist_ok sz (tail_hist s) (p_seen s) ct ?T"
    using p by (simp add: p_inv_def Let_def)
  then have "hist_ok sz (tail_hist ?t) (p_seen s) ct (Suc ?T)"
    unfolding hist by (rule hist_ok_store) simp
  then have "p_inv cap sz ct ?t"
    using p unfolding p_inv_def Let_def same T' frame by simp
  moreover have "c_inv cap sz ch ?t"
    using c c' same popped T' by (auto simp: c_inv_def Let_def) (auto simp: release_def)
  moreover have "mem_ok (unat cap * sz) (Suc ?T * sz) (p_time s) (stream s) (memory s) (w_time s)"
    by (rule mem_ok_mono) (use inv in \<open>auto simp: spsc_inv_def\<close>)
  ultimately show ?thesis
    using inv same T' by (auto simp: spsc_inv_def) (auto simp: release_def)
qed

section \<open>Reachable states\<close>

lemma p_step_inv:
  "p_step cap sz s t \<Longrightarrow> has_single_bit cap \<Longrightarrow> spsc_inv cap sz s \<Longrightarrow> spsc_inv cap sz t"
  by (induction rule: p_step.induct) (blast intro: step_inv)+

lemma c_step_inv:
  "c_step cap sz s t \<Longrightarrow> has_single_bit cap \<Longrightarrow> spsc_inv cap sz s \<Longrightarrow> spsc_inv cap sz t"
  by (induction rule: c_step.induct) (blast intro: step_inv)+

lemma spsc_reachable_inv:
  "spsc_reachable cap sz s \<Longrightarrow> has_single_bit cap \<Longrightarrow> spsc_inv cap sz s"
  by (induction rule: spsc_reachable.induct) (auto intro: spsc_init_inv p_step_inv c_step_inv)

section \<open>Wait-freedom\<close>

text \<open>
  The number of its own steps a call still has to take, whatever the other thread does: the
  refresh, one step per byte, and the store of the counter.
\<close>

fun p_work :: "nat \<Rightarrow> producer_pc \<Rightarrow> nat" where
  "p_work sz P_Idle = 0"
| "p_work sz (P_Refresh call) = length (call_values call) * sz + 2"
| "p_work sz (P_Copy todo call) = length todo + 1"

fun c_work :: "nat \<Rightarrow> consumer_pc \<Rightarrow> nat" where
  "c_work sz C_Idle = 0"
| "c_work sz C_Refresh = sz + 2"
| "c_work sz (C_Read acc) = (sz - length acc) + 1"

lemma length_copy_plan:
  "\<forall>v \<in> set vs. length v = sz \<Longrightarrow> length (copy_plan cap sz k vs) = length vs * sz"
  by (induction vs arbitrary: k) auto

lemma p_work_start:
  assumes "call_ok sz call"
  shows "p_work sz (p_pc (start_push cap sz call s)) \<le> length (call_values call) * sz + 2"
  using assms length_copy_plan [of "call_values call" sz]
  by (simp add: start_push_def answer_def begin_copy_def call_ok_def)

lemma p_work_decreases:
  assumes "spsc_inv cap sz s" and "p_step cap sz s t" and "p_pc s \<noteq> P_Idle"
  shows "p_work sz (p_pc t) < p_work sz (p_pc s)"
  using assms(2)
proof cases
  case (p_refresh call j)
  then have "call_ok sz call"
    using assms(1) by (auto simp: spsc_inv_def p_inv_def Let_def)
  with p_refresh show ?thesis
    using length_copy_plan [of "call_values call" sz]
    by (simp add: refresh_push_def Let_def answer_def begin_copy_def call_ok_def)
qed (use assms(3) in \<open>simp_all add: store_byte_def publish_def answer_def\<close>)

lemma c_work_decreases:
  assumes "c_step cap sz s t" and "c_pc s \<noteq> C_Idle"
  shows "c_work sz (c_pc t) < c_work sz (c_pc s)"
  using assms by cases (simp_all add: refresh_pop_def Let_def load_byte_def release_def)

lemma c_work_start: "c_work sz (c_pc (start_pop s)) \<le> sz + 2"
  by (simp add: start_pop_def)

lemma p_step_enabled:
  assumes "spsc_inv cap sz s" and "p_pc s \<noteq> P_Idle"
  shows "\<exists>t. p_step cap sz s t"
proof (cases "p_pc s")
  case (P_Refresh call)
  from assms(1) obtain ct where "p_inv cap sz ct s" by (auto simp: spsc_inv_def)
  then have "p_seen s < length (tail_hist s)" by (auto simp: p_inv_def Let_def hist_ok_def)
  with P_Refresh show ?thesis by (blast intro: p_step.p_refresh)
next
  case (P_Copy todo call)
  then show ?thesis by (cases todo) (auto intro: p_step.intros)
qed (use assms(2) in simp)

lemma c_step_enabled:
  assumes "spsc_inv cap sz s"
  shows "\<exists>t. c_step cap sz s t"
proof -
  from assms obtain ch where c: "c_inv cap sz ch s" by (auto simp: spsc_inv_def)
  show ?thesis
  proof (cases "c_pc s")
    case C_Refresh
    from c have "c_seen s < length (head_hist s)" by (auto simp: c_inv_def Let_def hist_ok_def)
    with C_Refresh show ?thesis by (blast intro: c_step.c_refresh)
  next
    case (C_Read acc)
    then have "length acc < sz \<or> length acc = sz" using c by (auto simp: c_inv_def Let_def)
    with C_Read show ?thesis by (blast intro: c_step.intros)
  qed (blast intro: c_step.c_start)
qed

text \<open>The other thread's steps do not touch a thread's own program counter.\<close>

lemma c_step_p_pc: "c_step cap sz s t \<Longrightarrow> p_pc t = p_pc s"
  by (induction rule: c_step.induct)
    (simp_all add: start_pop_def refresh_pop_def Let_def load_byte_def release_def)

lemma p_step_c_pc: "p_step cap sz s t \<Longrightarrow> c_pc t = c_pc s"
  by (induction rule: p_step.induct)
    (simp_all add: start_push_def refresh_push_def Let_def answer_def begin_copy_def
      store_byte_def publish_def)

section \<open>Properties\<close>

text \<open>A run used by the witnesses: one value pushed, then popped, through one one-byte slot.\<close>

definition one_push :: spsc_state where
  "one_push = publish (Push_one [7])
     (store_byte 1 1 0 7 [] (Push_one [7]) (start_push 1 1 (Push_one [7]) spsc_init))"

lemma one_slot: "has_single_bit 1"
  by (simp add: has_single_bit_def upt_rec)

lemma one_push_reachable: "spsc_reachable 1 1 one_push"
proof -
  let ?call = "Push_one [7]"
  let ?a = "start_push 1 1 ?call spsc_init"
  have "p_step 1 1 spsc_init ?a"
    by (rule p_step.p_start) (simp_all add: spsc_init_def call_ok_def)
  then have "spsc_reachable 1 1 ?a"
    by (rule spsc_reachable.producer [OF spsc_reachable.start])
  moreover have "p_step 1 1 ?a (store_byte 1 1 0 7 [] ?call ?a)"
    by (rule p_step.p_store)
      (simp add: start_push_def spsc_init_def own_head_def begin_copy_def slot_def k_MASK_def)
  ultimately have "spsc_reachable 1 1 (store_byte 1 1 0 7 [] ?call ?a)"
    by (rule spsc_reachable.producer)
  moreover have "p_step 1 1 (store_byte 1 1 0 7 [] ?call ?a) one_push"
    unfolding one_push_def by (rule p_step.p_publish) (simp add: store_byte_def)
  ultimately show ?thesis by (rule spsc_reachable.producer)
qed

text \<open>
  C10. No undefined behaviour: in every interleaving of the two threads, stale reads of the
  counters included, no byte access races with the other thread's and none falls outside the
  slots. So a value is never read half-written and never overwritten while it is being read.
\<close>

theorem spsc_race_free:
  assumes "SpscRingParameters cap" and "spsc_reachable cap sz s"
  shows "\<not> undefined_behavior s"
  using spsc_reachable_inv [OF assms(2)] assms(1) by (simp add: SpscRingParameters_def spsc_inv_def)

theorem spsc_race_free_witness: "\<not> undefined_behavior one_push"
  using spsc_race_free [OF _ one_push_reachable] one_slot by (simp add: SpscRingParameters_def)

text \<open>
  C9. In every interleaving the values popped so far are the first values accepted, in order,
  byte for byte, and at most the capacity are in the ring: nothing is lost, duplicated,
  reordered or torn.
\<close>

theorem spsc_concurrent_fifo:
  assumes "SpscRingParameters cap" and "spsc_reachable cap sz s"
  shows "popped s = take (length (popped s)) (accepted s) \<and>
    length (accepted s) - length (popped s) \<le> capacity cap"
proof -
  from spsc_reachable_inv [OF assms(2)] assms(1) obtain ct ch
    where p: "p_inv cap sz ct s" and c: "c_inv cap sz ch s"
    by (auto simp: SpscRingParameters_def spsc_inv_def)
  with spsc_inv_bounds [OF p c] show ?thesis
    by (simp add: c_inv_def Let_def capacity_def)
qed

theorem spsc_concurrent_fifo_witness:
  "popped one_push = take (length (popped one_push)) [[7]]"
  using spsc_concurrent_fifo [OF _ one_push_reachable] one_slot
  by (simp add: SpscRingParameters_def one_push_def start_push_def answer_def begin_copy_def
      store_byte_def publish_def spsc_init_def own_head_def popped_def accepted_def)

text \<open>
  C22. Every call is wait-free: once started, a push of \<open>n\<close> values has at most \<open>n * sz + 2\<close>
  steps left; each step of its own brings it closer to its answer, no step of the consumer
  delays it, and it can always take its next step.
\<close>

theorem push_wait_free:
  assumes "SpscRingParameters cap" and "spsc_reachable cap sz s" and "p_pc s \<noteq> P_Idle"
  shows "(\<exists>t. p_step cap sz s t) \<and>
    (\<forall>t. p_step cap sz s t \<longrightarrow> p_work sz (p_pc t) < p_work sz (p_pc s)) \<and>
    (\<forall>t. c_step cap sz s t \<longrightarrow> p_work sz (p_pc t) = p_work sz (p_pc s)) \<and>
    (\<forall>call r. call_ok sz call \<longrightarrow>
       p_work sz (p_pc (start_push cap sz call r)) \<le> length (call_values call) * sz + 2)"
  using spsc_reachable_inv [OF assms(2)] assms(1,3)
  by (auto simp: SpscRingParameters_def c_step_p_pc p_step_enabled p_work_decreases
      p_work_start [simplified])

theorem push_wait_free_witness:
  "\<exists>t. p_step 1 1 (start_push 1 1 (Push_one [7]) spsc_init) t"
proof -
  let ?s = "start_push 1 1 (Push_one [7]) spsc_init"
  have "p_step 1 1 spsc_init ?s"
    by (rule p_step.p_start) (simp_all add: spsc_init_def call_ok_def)
  then have "spsc_reachable 1 1 ?s"
    by (rule spsc_reachable.producer [OF spsc_reachable.start])
  moreover have "p_pc ?s \<noteq> P_Idle"
    by (simp add: start_push_def spsc_init_def own_head_def begin_copy_def)
  ultimately show ?thesis
    using push_wait_free [of 1 1 ?s] one_slot by (simp add: SpscRingParameters_def)
qed

text \<open>C23. A pop is wait-free in the same sense: at most \<open>sz + 2\<close> steps of its own.\<close>

theorem pop_wait_free:
  assumes "SpscRingParameters cap" and "spsc_reachable cap sz s"
  shows "(\<exists>t. c_step cap sz s t) \<and>
    (c_pc s \<noteq> C_Idle \<longrightarrow> (\<forall>t. c_step cap sz s t \<longrightarrow> c_work sz (c_pc t) < c_work sz (c_pc s))) \<and>
    (\<forall>t. p_step cap sz s t \<longrightarrow> c_work sz (c_pc t) = c_work sz (c_pc s)) \<and>
    (\<forall>r. c_work sz (c_pc (start_pop r)) \<le> sz + 2)"
  using spsc_reachable_inv [OF assms(2)] assms(1)
  by (auto simp: SpscRingParameters_def p_step_c_pc c_step_enabled c_work_decreases
      c_work_start [simplified])

theorem pop_wait_free_witness: "\<exists>t. c_step 1 1 one_push t"
  using pop_wait_free [OF _ one_push_reachable] one_slot by (simp add: SpscRingParameters_def)

end
