(* ===== verification/Transition_System.thy ===== *)
theory Transition_System
  imports Prelude
begin

text \<open>
  Runs of a transition system whose steps are labelled with what an observer sees of them, and three
  interfaces, as locales: an invariant of the steps, a forward simulation by an abstract system, in
  which a step may match any number of abstract ones with the same labels, and progress, steps that
  bring a goal nearer whatever the others do. The interleaved ring (\<open>Core_Spsc_Linear\<close>) and the
  interleaved logger (\<open>Core_Log_File\<close>, \<open>Core_Log_Fair\<close>) provide them.
\<close>

section \<open>Runs\<close>

inductive runs :: "('s \<Rightarrow> 'e list \<Rightarrow> 's \<Rightarrow> bool) \<Rightarrow> 's \<Rightarrow> 'e list \<Rightarrow> 's \<Rightarrow> bool" for step s0 where
  runs_start: "runs step s0 [] s0"
| runs_step: "runs step s0 es s \<Longrightarrow> step s es' s' \<Longrightarrow> runs step s0 (es @ es') s'"

lemma runs_single: "step s es s' \<Longrightarrow> runs step s es s'"
  using runs_step [OF runs_start, of step s es s'] by simp

lemma runs_append: "runs step b es' c \<Longrightarrow> runs step a es b \<Longrightarrow> runs step a (es @ es') c"
proof (induction rule: runs.induct)
  case (runs_step es1 s es2 s')
  then have "runs step a ((es @ es1) @ es2) s'" by (blast intro: runs.runs_step)
  then show ?case by simp
qed simp

text \<open>A run that does not end.\<close>

definition infinite_run ::
  "('s \<Rightarrow> 'e list \<Rightarrow> 's \<Rightarrow> bool) \<Rightarrow> 's \<Rightarrow> (nat \<Rightarrow> 's) \<Rightarrow> (nat \<Rightarrow> 'e list) \<Rightarrow> bool" where
  "infinite_run step s0 \<sigma> es \<longleftrightarrow> \<sigma> 0 = s0 \<and> (\<forall>n. step (\<sigma> n) (es n) (\<sigma> (Suc n)))"

abbreviation trace_to :: "(nat \<Rightarrow> 'e list) \<Rightarrow> nat \<Rightarrow> 'e list" where
  "trace_to es n \<equiv> concat (map es [0..<n])"

lemma infinite_run_step: "infinite_run step s0 \<sigma> es \<Longrightarrow> step (\<sigma> n) (es n) (\<sigma> (Suc n))"
  by (simp add: infinite_run_def)

lemma infinite_run_to: "infinite_run step s0 \<sigma> es \<Longrightarrow> runs step s0 (trace_to es n) (\<sigma> n)"
  by (induction n) (auto simp: infinite_run_def intro: runs.intros)

lemma infinite_run_Suc:
  assumes "step s e t" and "infinite_run step t \<sigma> es"
  shows "infinite_run step s (case_nat s \<sigma>) (case_nat e es)"
  using assms by (auto simp: infinite_run_def split: nat.split)

section \<open>Invariants, simulations and progress\<close>

locale invariant =
  fixes step :: "'s \<Rightarrow> 'e list \<Rightarrow> 's \<Rightarrow> bool" and s0 :: 's and inv :: "'s \<Rightarrow> bool"
  assumes inv_start: "inv s0"
    and inv_step: "inv s \<Longrightarrow> step s es s' \<Longrightarrow> inv s'"
begin

lemma always: "runs step s0 es s \<Longrightarrow> inv s"
  by (induction rule: runs.induct) (blast intro: inv_start inv_step)+

end

locale simulation = invariant step s0 inv
  for step :: "'s \<Rightarrow> 'e list \<Rightarrow> 's \<Rightarrow> bool" and s0 :: 's and inv :: "'s \<Rightarrow> bool" +
  fixes abs_step :: "'a \<Rightarrow> 'e list \<Rightarrow> 'a \<Rightarrow> bool" and a0 :: 'a and rel :: "'s \<Rightarrow> 'a \<Rightarrow> bool"
  assumes rel_start: "rel s0 a0"
    and rel_step: "inv s \<Longrightarrow> rel s a \<Longrightarrow> step s es s' \<Longrightarrow> \<exists>a'. runs abs_step a es a' \<and> rel s' a'"
begin

lemma simulates:
  assumes "runs step s0 es s"
  shows "\<exists>a. runs abs_step a0 es a \<and> rel s a"
  using assms
proof (induction rule: runs.induct)
  case runs_start
  show ?case by (intro exI [of _ a0] conjI runs.runs_start rel_start)
next
  case (runs_step es s es' s')
  then obtain a where a: "runs abs_step a0 es a" "rel s a" by blast
  obtain a' where "runs abs_step a es' a'" "rel s' a'"
    using rel_step [OF always [OF runs_step(1)] a(2) runs_step(2)] by blast
  then show ?case by (intro exI [of _ a'] conjI runs_append [OF _ a(1)])
qed

end

text \<open>
  The steps \<open>acts\<close> lower the rank or reach the goal, and no other step raises it: then a run in which they
  go on reaches the goal again and again.
\<close>

locale progress = invariant step s0 inv
  for step :: "'s \<Rightarrow> 'e list \<Rightarrow> 's \<Rightarrow> bool" and s0 :: 's and inv :: "'s \<Rightarrow> bool" +
  fixes acts :: "'s \<Rightarrow> 's \<Rightarrow> bool" and goal :: "'s \<Rightarrow> 's \<Rightarrow> bool" and rank :: "'s \<Rightarrow> nat"
  assumes act_lowers: "inv s \<Longrightarrow> step s es s' \<Longrightarrow> acts s s' \<Longrightarrow> rank s' < rank s \<or> goal s s'"
    and others_keep: "inv s \<Longrightarrow> step s es s' \<Longrightarrow> \<not> acts s s' \<Longrightarrow> rank s' \<le> rank s"
begin

lemma rank_falls:
  assumes "infinite_run step s0 \<sigma> es" and "n \<le> m" and "\<forall>k. n \<le> k \<and> k < m \<longrightarrow> \<not> goal (\<sigma> k) (\<sigma> (Suc k))"
  shows "rank (\<sigma> m) \<le> rank (\<sigma> n)"
  using assms(2,3)
proof (induction rule: dec_induct)
  case (step m)
  note inv = always [OF infinite_run_to [OF assms(1)]] and st = infinite_run_step [OF assms(1)]
  have "rank (\<sigma> (Suc m)) \<le> rank (\<sigma> m)"
    using act_lowers [OF inv st, of m] others_keep [OF inv st, of m] step by (meson less_imp_le lessI)
  then show ?case using step by (meson le_trans less_SucI)
qed simp

lemma goal_recurs:
  assumes run: "infinite_run step s0 \<sigma> es" and acting: "\<forall>n. \<exists>m\<ge>n. acts (\<sigma> m) (\<sigma> (Suc m))"
  shows "\<exists>m\<ge>n. goal (\<sigma> m) (\<sigma> (Suc m))"
proof (induction "rank (\<sigma> n)" arbitrary: n rule: less_induct)
  case less
  obtain m where m: "n \<le> m" "acts (\<sigma> m) (\<sigma> (Suc m))" using acting by blast
  show ?case
  proof (cases "\<exists>k. n \<le> k \<and> k \<le> m \<and> goal (\<sigma> k) (\<sigma> (Suc k))")
    case False
    then have "rank (\<sigma> m) \<le> rank (\<sigma> n)" using rank_falls [OF run m(1)] by simp
    moreover have "rank (\<sigma> (Suc m)) < rank (\<sigma> m)"
      using act_lowers [OF always [OF infinite_run_to [OF run]] infinite_run_step [OF run] m(2)] False m(1)
      by blast
    ultimately have "\<exists>k\<ge>Suc m. goal (\<sigma> k) (\<sigma> (Suc k))" using less by simp
    then show ?thesis using m(1) by (meson Suc_leD le_trans)
  qed blast
qed

end

end
