(* ===== verification/Core_Spsc_Linear.thy ===== *)
theory Core_Spsc_Linear
  imports Core_Spsc_Concurrent Transition_System
begin

text \<open>
  The ring of \<^verbatim>\<open>core_spsc_ring.h\<close> is linearizable: whatever the interleaving of the byte accesses of its
  two threads in \<open>Core_Spsc_Concurrent\<close>, the calls answer as if each ran alone, as in
  \<open>Core_Spsc_Ring\<close>, at the moment it returns. The one difference is that a call run alone may see an
  old counter of the other side, one that lies between its private copy and the counter itself.
  The proof is a simulation: a step of a thread either stutters or returns from a call, which is then
  one step of a run of whole calls.

  So a client of the ring can treat a call as one step, which is what \<open>Core_Log_Concurrent\<close> does.
\<close>

section \<open>Whole calls that may see an old counter\<close>

fun push_call_run :: "u64 \<Rightarrow> nat \<Rightarrow> push_call \<Rightarrow> spsc_ring \<Rightarrow> bool \<times> spsc_ring" where
  "push_call_run cap sz (Push_one v) r = try_push cap sz v r"
| "push_call_run cap sz (Push_span vs) r = try_push_span cap sz vs r"

text \<open>A push whose load of the consumer's counter, if it makes one, answers \<open>tail\<close>.\<close>

definition push_call_seeing ::
  "u64 \<Rightarrow> nat \<Rightarrow> u64 \<Rightarrow> push_call \<Rightarrow> spsc_ring \<Rightarrow> bool \<times> spsc_ring" where
  "push_call_seeing cap sz tail call r =
     (let (b, r') = push_call_run cap sz call (r\<lparr>d_tail := tail\<rparr>) in (b, r'\<lparr>d_tail := d_tail r\<rparr>))"

text \<open>A pop whose load of the producer's counter, if it makes one, answers \<open>head\<close>.\<close>

definition try_pop_seeing :: "u64 \<Rightarrow> nat \<Rightarrow> u64 \<Rightarrow> spsc_ring \<Rightarrow> bytes option \<times> spsc_ring" where
  "try_pop_seeing cap sz head r =
     (let (v, r') = try_pop cap sz (r\<lparr>d_head := head\<rparr>) in (v, r'\<lparr>d_head := d_head r\<rparr>))"

definition tail_between :: "spsc_ring \<Rightarrow> u64 \<Rightarrow> bool" where
  "tail_between r tail \<longleftrightarrow> tail - d_cached_tail r \<le> d_tail r - d_cached_tail r"

definition head_between :: "spsc_ring \<Rightarrow> u64 \<Rightarrow> bool" where
  "head_between r head \<longleftrightarrow> head - d_cached_head r \<le> d_head r - d_cached_head r"

text \<open>Both in one form: refresh the private copy where it decides, then answer from it.\<close>

definition refreshed :: "u64 \<Rightarrow> push_call \<Rightarrow> u64 \<Rightarrow> spsc_ring \<Rightarrow> spsc_ring" where
  "refreshed cap call tail r =
     (if lacks_room cap call (d_head r) (d_cached_tail r) then r\<lparr>d_cached_tail := tail\<rparr> else r)"

definition published :: "u64 \<Rightarrow> nat \<Rightarrow> bytes list \<Rightarrow> spsc_ring \<Rightarrow> spsc_ring" where
  "published cap sz vs r = r\<lparr>d_slots := copy_values cap sz (d_head r) vs (d_slots r),
     d_head := d_head r + of_nat (length vs)\<rparr>"

lemma push_call_seeing_eq:
  "push_call_seeing cap sz tail call r =
     (if call_values call = [] then (True, r)
      else if too_many cap call then (False, r)
      else if lacks_room cap call (d_head r) (d_cached_tail (refreshed cap call tail r))
      then (False, refreshed cap call tail r)
      else (True, published cap sz (call_values call) (refreshed cap call tail r)))"
  by (cases call)
    (auto simp: push_call_seeing_def refreshed_def published_def try_push_def push_publish_def
      try_push_span_def span_publish_def Let_def)

lemma try_pop_seeing_eq:
  "try_pop_seeing cap sz head r =
     (if d_tail r = d_cached_head r then
        if d_tail r = head then (None, r\<lparr>d_cached_head := head\<rparr>)
        else pop_release cap sz (r\<lparr>d_cached_head := head\<rparr>)
      else pop_release cap sz r)"
  by (simp add: try_pop_seeing_def try_pop_def pop_release_def Let_def)

subsection \<open>They keep the ring's invariant and its order\<close>

lemma word_between:
  assumes "(t :: u64) - c \<le> d - c" and "h - d \<le> h - c"
  shows "h - d \<le> h - t" "h - t \<le> h - c"
proof -
  define x y z where "x = t - c" and "y = d - c" and "z = h - c"
  have e: "h - d = z - y" "h - t = z - x" "h - c = z" by (simp_all add: x_def y_def z_def)
  have le: "x \<le> y" "z - y \<le> z" using assms by (simp_all add: x_def y_def z_def)
  have "y \<le> z" using le(2) by (metis diff_diff_eq2 diff_zero word_sub_le_iff)
  then show "h - d \<le> h - t" "h - t \<le> h - c"
    unfolding e using le(1) by (simp_all add: word_le_nat_alt unat_sub_if')
qed

lemma has_room_iff:
  assumes "ring_inv cap sz r" and "length (call_values call) < 2 ^ 64"
  shows "lacks_room cap call (d_head r) (d_cached_tail r) \<longleftrightarrow>
    \<not> unat (d_head r - d_cached_tail r) + length (call_values call) \<le> unat cap"
  using full_iff [OF assms(1)] no_room_iff [OF assms(1), of "length (call_values call)"] assms(2)
  by (cases call) auto

lemma refreshed_spec:
  assumes "ring_inv cap sz r" and "tail_between r tail"
  shows "ring_inv cap sz (refreshed cap call tail r)"
    and "ring_contents cap sz (refreshed cap call tail r) = ring_contents cap sz r"
  using word_between [of tail "d_cached_tail r" "d_tail r" "d_head r"] assms
  by (auto simp: refreshed_def ring_inv_def ring_contents_def tail_between_def intro: order_trans)

lemma push_call_seeing_spec:
  assumes "ring_inv cap sz r" and "call_ok sz call" and "tail_between r tail"
    and "push_call_seeing cap sz tail call r = (b, r')"
  shows "ring_inv cap sz r'"
    and "ring_contents cap sz r' = ring_contents cap sz r @ (if b then call_values call else [])"
proof -
  let ?r = "refreshed cap call tail r"
  note new = refreshed_spec [OF assms(1,3), of call]
  have "d_head ?r = d_head r" by (simp add: refreshed_def)
  then have "ring_inv cap sz (published cap sz (call_values call) ?r) \<and>
      ring_contents cap sz (published cap sz (call_values call) ?r) =
        ring_contents cap sz ?r @ call_values call"
    if "\<not> lacks_room cap call (d_head r) (d_cached_tail ?r)"
    using that publish_spec [OF new(1), of "call_values call"] has_room_iff [OF new(1), of call] assms(2)
    by (simp add: published_def call_ok_def)
  then show "ring_inv cap sz r'"
    and "ring_contents cap sz r' = ring_contents cap sz r @ (if b then call_values call else [])"
    using assms(1,4) new by (auto simp: push_call_seeing_eq split: if_splits)
qed

lemma try_pop_seeing_spec:
  assumes "ring_inv cap sz r" and "head_between r head" and "try_pop_seeing cap sz head r = (x, r')"
  shows "ring_inv cap sz r'"
    and "x = None \<Longrightarrow> ring_contents cap sz r' = ring_contents cap sz r"
    and "x = None \<Longrightarrow> head = d_head r \<Longrightarrow> ring_contents cap sz r = []"
    and "x = Some v \<Longrightarrow> ring_contents cap sz r = v # ring_contents cap sz r'"
proof -
  let ?new = "r\<lparr>d_cached_head := head\<rparr>"
  have new: "ring_inv cap sz ?new" if "d_tail r = d_cached_head r"
  proof -
    have "(d_head r - d_cached_head r) - (head - d_cached_head r) \<le> d_head r - d_cached_head r"
      using assms(2) unfolding head_between_def by (rule word_sub_le)
    then show ?thesis using assms(1) that by (simp add: ring_inv_def)
  qed
  have keep: "ring_contents cap sz ?new = ring_contents cap sz r" by (simp add: ring_contents_def)
  show "ring_inv cap sz r'"
    and "x = None \<Longrightarrow> ring_contents cap sz r' = ring_contents cap sz r"
    and "x = None \<Longrightarrow> head = d_head r \<Longrightarrow> ring_contents cap sz r = []"
    and "x = Some v \<Longrightarrow> ring_contents cap sz r = v # ring_contents cap sz r'"
    using assms(1,3) new keep release_spec [OF new] release_spec [OF assms(1)]
    by (auto simp: try_pop_seeing_eq ring_contents_def [of cap sz r] split: if_splits)
qed

text \<open>A thread's call leaves what the other thread may still see between its bounds.\<close>

lemma word_step:
  assumes "(x :: u64) \<le> t - c" and "h - t \<le> h - c" and "h \<noteq> t"
  shows "x \<le> t + 1 - c"
proof -
  define a b where "a = t - c" and "b = h - t"
  have ab: "b \<le> a + b" "b \<noteq> 0" "x \<le> a" using assms by (simp_all add: a_def b_def)
  have "1 + a \<noteq> 0"
  proof
    assume "1 + a = 0"
    then have "a = - 1" by (simp only: add_eq_0_iff)
    then have "a + b = b - 1" by simp
    then have "unat (a + b) = unat b - 1" using unat_minus_one [OF ab(2)] by simp
    moreover have "0 < unat b" using ab(2) by (simp add: unat_gt_0)
    ultimately show False using ab(1) unfolding word_le_nat_alt by linarith
  qed
  then have "unat (1 + a) = Suc (unat a)" by (rule unatSuc)
  then have "x \<le> 1 + a" using ab(3) by (simp only: word_le_nat_alt)
  then show ?thesis by (simp add: a_def algebra_simps)
qed

lemma push_call_seeing_fields:
  assumes "push_call_seeing cap sz tail call r = (b, r')"
  shows "d_tail r' = d_tail r" "d_cached_head r' = d_cached_head r"
    and "d_head r' = d_head r + (if b then of_nat (length (call_values call)) else 0)"
  using assms by (auto simp: push_call_seeing_eq refreshed_def published_def split: if_splits)

lemma try_pop_seeing_fields:
  assumes "try_pop_seeing cap sz head r = (x, r')"
  shows "d_head r' = d_head r" "d_cached_tail r' = d_cached_tail r"
    and "d_tail r' = d_tail r + (if x = None then 0 else 1)"
  using assms by (auto simp: try_pop_seeing_eq pop_release_def Let_def split: if_splits)

lemma head_between_push:
  assumes "ring_inv cap sz r" and "call_ok sz call" and "tail_between r tail"
    and "push_call_seeing cap sz tail call r = (b, r')" and "head_between r head"
  shows "head_between r' head"
proof -
  note r' = push_call_seeing_spec [OF assms(1-4)] push_call_seeing_fields [OF assms(4)]
  define n where "n = (if b then length (call_values call) else 0)"
  have d: "unat (d_head r' - d_tail r) = unat (d_head r - d_tail r) + n"
    using arg_cong [OF r'(2), of length] r'(3) by (simp add: length_ring_contents n_def)
  have "unat (d_head r' - d_tail r') < 2 ^ 64" using unat_less_2p64 by simp
  moreover have "unat (d_head r - d_cached_head r) \<le> unat (d_head r - d_tail r)"
    using assms(1) by (simp add: ring_inv_def word_le_nat_alt)
  ultimately have "unat (d_head r - d_cached_head r) + n < 2 ^ 64" using d r'(3) by simp
  then have "unat (d_head r + of_nat n - d_cached_head r) = unat (d_head r - d_cached_head r) + n"
    by (rule head_advance)
  moreover have "d_head r' = d_head r + of_nat n" using r'(5) by (simp add: n_def)
  ultimately show ?thesis using assms(5) r'(4) by (simp add: head_between_def word_le_nat_alt)
qed

lemma tail_between_pop:
  assumes "ring_inv cap sz r" and "head_between r head" and "try_pop_seeing cap sz head r = (x, r')"
    and "tail_between r tail"
  shows "tail_between r' tail"
proof (cases x)
  case None
  then show ?thesis
    using try_pop_seeing_fields [OF assms(3)] assms(4) by (simp add: tail_between_def)
next
  case (Some v)
  then have "length (ring_contents cap sz r) \<noteq> 0"
    using try_pop_seeing_spec(4) [OF assms(1-3)] by simp
  then have "d_head r \<noteq> d_tail r" by (auto simp: length_ring_contents)
  then show ?thesis
    using word_step [of _ "d_tail r" "d_cached_tail r" "d_head r"] try_pop_seeing_fields [OF assms(3)]
      assms(1,4) Some by (simp add: tail_between_def ring_inv_def)
qed

section \<open>Runs\<close>

datatype call_event = Pushed push_call bool | Popped "bytes option"

text \<open>A whole call and what it answered; a run of them starts from a new ring.\<close>

inductive call_step :: "u64 \<Rightarrow> nat \<Rightarrow> spsc_ring \<Rightarrow> call_event list \<Rightarrow> spsc_ring \<Rightarrow> bool" for cap sz where
  push_call: "call_ok sz call \<Longrightarrow> tail_between r tail \<Longrightarrow> push_call_seeing cap sz tail call r = (b, r') \<Longrightarrow>
    call_step cap sz r [Pushed call b] r'"
| pop_call: "head_between r head \<Longrightarrow> try_pop_seeing cap sz head r = (x, r') \<Longrightarrow>
    call_step cap sz r [Popped x] r'"

definition calls_run :: "u64 \<Rightarrow> nat \<Rightarrow> call_event list \<Rightarrow> spsc_ring \<Rightarrow> bool" where
  "calls_run cap sz = runs (call_step cap sz) (SpscRing cap sz)"

text \<open>
  A step of either thread of a ring whose parameters the compiler accepts, with the calls that return in
  it, and an interleaving with the calls in the order they return.
\<close>

definition answered :: "spsc_state \<Rightarrow> spsc_state \<Rightarrow> call_event list" where
  "answered s t =
     map (\<lambda>(call, b). Pushed call b) (drop (length (answers s)) (answers t)) @
     map Popped (drop (length (returns s)) (returns t))"

definition ring_step :: "u64 \<Rightarrow> nat \<Rightarrow> spsc_state \<Rightarrow> call_event list \<Rightarrow> spsc_state \<Rightarrow> bool" where
  "ring_step cap sz s es t \<longleftrightarrow>
     SpscRingParameters cap \<and> (p_step cap sz s t \<or> c_step cap sz s t) \<and> es = answered s t"

definition interleaving :: "u64 \<Rightarrow> nat \<Rightarrow> call_event list \<Rightarrow> spsc_state \<Rightarrow> bool" where
  "interleaving cap sz = runs (ring_step cap sz) spsc_init"

lemma reachable_interleaving:
  "spsc_reachable cap sz s \<Longrightarrow> SpscRingParameters cap \<Longrightarrow> \<exists>es. interleaving cap sz es s"
  unfolding interleaving_def
  by (induction rule: spsc_reachable.induct)
    (blast intro: runs_start runs_step ring_step_def [THEN iffD2])+

section \<open>The simulation\<close>

text \<open>
  The ring of the whole calls takes a call's refresh over only when the call returns, so until then its
  private copy is the older one and the new one lies between its bounds.
\<close>

definition pushing :: "u64 \<Rightarrow> nat \<Rightarrow> spsc_ring \<Rightarrow> spsc_state \<Rightarrow> bool" where
  "pushing cap sz r s \<longleftrightarrow> (case p_pc s of
       P_Idle \<Rightarrow> d_cached_tail r = cached_tail s
     | P_Refresh call \<Rightarrow> d_cached_tail r = cached_tail s \<and> call_ok sz call \<and> call_values call \<noteq> [] \<and>
         \<not> too_many cap call \<and> lacks_room cap call (own_head s) (cached_tail s)
     | P_Copy todo call \<Rightarrow> call_ok sz call \<and> call_values call \<noteq> [] \<and> \<not> too_many cap call \<and>
         \<not> lacks_room cap call (own_head s) (cached_tail s) \<and> tail_between r (cached_tail s) \<and>
         (d_cached_tail r = cached_tail s \<or> lacks_room cap call (own_head s) (d_cached_tail r)))"

definition popping :: "spsc_ring \<Rightarrow> spsc_state \<Rightarrow> bool" where
  "popping r s \<longleftrightarrow> (case c_pc s of
       C_Idle \<Rightarrow> d_cached_head r = cached_head s
     | C_Refresh \<Rightarrow> d_cached_head r = cached_head s \<and> own_tail s = cached_head s
     | C_Read acc \<Rightarrow> own_tail s \<noteq> cached_head s \<and> head_between r (cached_head s) \<and>
         (d_cached_head r = cached_head s \<or> d_cached_head r = own_tail s))"

definition sim :: "u64 \<Rightarrow> nat \<Rightarrow> spsc_state \<Rightarrow> spsc_ring \<Rightarrow> bool" where
  "sim cap sz s r \<longleftrightarrow>
     ring_inv cap sz r \<and> ring_contents cap sz r = drop (length (popped s)) (accepted s) \<and>
     d_head r = own_head s \<and> d_tail r = own_tail s \<and> pushing cap sz r s \<and> popping r s"

lemma sim_init: "SpscRingParameters cap \<Longrightarrow> sim cap sz spsc_init (SpscRing cap sz)"
  using ring_inv_init [of cap sz] ring_contents_init [of cap sz]
  by (simp add: sim_def pushing_def popping_def)
    (simp add: spsc_init_def SpscRing_def own_head_def own_tail_def accepted_def)

text \<open>A step of the producer that returns nothing, and one that returns from a call.\<close>

definition same_for_consumer :: "spsc_state \<Rightarrow> spsc_state \<Rightarrow> bool" where
  "same_for_consumer s t \<longleftrightarrow> c_pc t = c_pc s \<and> cached_head t = cached_head s \<and>
     tail_hist t = tail_hist s \<and> returns t = returns s"

definition same_for_producer :: "spsc_state \<Rightarrow> spsc_state \<Rightarrow> bool" where
  "same_for_producer s t \<longleftrightarrow> p_pc t = p_pc s \<and> cached_tail t = cached_tail s \<and>
     head_hist t = head_hist s \<and> answers t = answers s"

lemma same_for_consumerD:
  assumes "same_for_consumer s t"
  shows "own_tail t = own_tail s" "popped t = popped s" "popping r t = popping r s"
  using assms by (simp_all add: same_for_consumer_def own_tail_def popped_def popping_def
      cong: consumer_pc.case_cong)

lemma same_for_producerD:
  assumes "same_for_producer s t"
  shows "own_head t = own_head s" "accepted t = accepted s" "pushing cap sz r t = pushing cap sz r s"
  using assms by (simp_all add: same_for_producer_def own_head_def accepted_def pushing_def
      cong: producer_pc.case_cong)

lemma push_stutters:
  assumes "sim cap sz s r" and "same_for_consumer s t" and "head_hist t = head_hist s"
    and "answers t = answers s" and "pushing cap sz r t"
  shows "answered s t = [] \<and> sim cap sz t r"
  using assms same_for_consumerD [OF assms(2)]
  by (simp add: sim_def answered_def accepted_def own_head_def same_for_consumer_def)

lemma pop_stutters:
  assumes "sim cap sz s r" and "same_for_producer s t" and "tail_hist t = tail_hist s"
    and "returns t = returns s" and "popping r t"
  shows "answered s t = [] \<and> sim cap sz t r"
  using assms same_for_producerD [OF assms(2)]
  by (simp add: sim_def answered_def popped_def own_tail_def same_for_producer_def)

lemma push_returns:
  assumes "sim cap sz s r" and "spsc_inv cap sz s" and "same_for_consumer s t"
    and "call_ok sz call" and "tail_between r tail"
    and eq: "push_call_seeing cap sz tail call r = (b, r')"
    and t: "answers t = answers s @ [(call, b)]" "p_pc t = P_Idle" "cached_tail t = d_cached_tail r'"
      "own_head t = own_head s + (if b then of_nat (length (call_values call)) else 0)"
  shows "answered s t = [Pushed call b] \<and> sim cap sz t r'"
proof -
  have r: "ring_inv cap sz r" "ring_contents cap sz r = drop (length (popped s)) (accepted s)"
      "d_head r = own_head s" "d_tail r = own_tail s" "popping r s"
    using assms(1) by (simp_all add: sim_def)
  note r' = push_call_seeing_spec [OF r(1) assms(4,5) eq] push_call_seeing_fields [OF eq]
  note c = same_for_consumerD [OF assms(3)]
  have "length (popped s) \<le> length (accepted s)"
    using assms(2) spsc_inv_bounds(2,3) by (meson le_trans spsc_inv_def)
  moreover have "accepted t = accepted s @ (if b then call_values call else [])"
    by (simp add: accepted_def t(1))
  ultimately have "ring_contents cap sz r' = drop (length (popped t)) (accepted t)"
    using r'(2) r(2) c(2) by simp
  moreover have "popping r' s"
    using r(5) head_between_push [OF r(1) assms(4,5) eq] r'(4)
    by (auto simp: popping_def split: consumer_pc.splits)
  ultimately have "sim cap sz t r'"
    using r r' c t(2-4) by (simp add: sim_def pushing_def)
  then show ?thesis
    using t(1) assms(3) by (simp add: answered_def same_for_consumer_def)
qed

lemma pop_returns:
  assumes "sim cap sz s r" and "spsc_inv cap sz s" and "same_for_producer s t"
    and "head_between r head" and eq: "try_pop_seeing cap sz head r = (x, r')"
    and t: "returns t = returns s @ [x]" "c_pc t = C_Idle" "cached_head t = d_cached_head r'"
      "own_tail t = own_tail s + (if x = None then 0 else 1)"
  shows "answered s t = [Popped x] \<and> sim cap sz t r'"
proof -
  have r: "ring_inv cap sz r" "ring_contents cap sz r = drop (length (popped s)) (accepted s)"
      "d_head r = own_head s" "d_tail r = own_tail s" "pushing cap sz r s"
    using assms(1) by (simp_all add: sim_def)
  note r' = try_pop_seeing_spec [OF r(1) assms(4) eq] try_pop_seeing_fields [OF eq]
  note p = same_for_producerD [OF assms(3)]
  have "ring_contents cap sz r' = drop (length (popped t)) (accepted t)"
  proof (cases x)
    case None
    then show ?thesis using r'(2) r(2) p(2) t(1) by (simp add: popped_def)
  next
    case (Some v)
    then have "length (popped t) = Suc (length (popped s))" using t(1) by (simp add: popped_def)
    then have "drop (length (popped t)) (accepted t) = tl (ring_contents cap sz r)"
      by (simp add: r(2) p(2) drop_Suc tl_drop)
    then show ?thesis using r'(4) [OF Some] by simp
  qed
  moreover have "pushing cap sz r' s"
    using r(5) tail_between_pop [OF r(1) assms(4) eq] r'(6)
    by (auto simp: pushing_def split: producer_pc.splits)
  ultimately have "sim cap sz t r'"
    using r r' p t(2-4) by (simp add: sim_def popping_def)
  then show ?thesis
    using t(1) assms(3) by (simp add: answered_def same_for_producer_def)
qed

subsection \<open>The producer's steps\<close>

text \<open>What a step of a thread amounts to: nothing, or one call.\<close>

definition one_call :: "u64 \<Rightarrow> nat \<Rightarrow> spsc_state \<Rightarrow> spsc_state \<Rightarrow> spsc_ring \<Rightarrow> bool" where
  "one_call cap sz s t r \<longleftrightarrow>
     answered s t = [] \<and> sim cap sz t r \<or>
     (\<exists>call tail b r'. call_ok sz call \<and> tail_between r tail \<and>
        push_call_seeing cap sz tail call r = (b, r') \<and> answered s t = [Pushed call b] \<and> sim cap sz t r') \<or>
     (\<exists>head x r'. head_between r head \<and> try_pop_seeing cap sz head r = (x, r') \<and>
        answered s t = [Popped x] \<and> sim cap sz t r')"

lemma one_call_push:
  "sim cap sz s r \<Longrightarrow> spsc_inv cap sz s \<Longrightarrow> same_for_consumer s t \<Longrightarrow> call_ok sz call \<Longrightarrow>
   tail_between r tail \<Longrightarrow> push_call_seeing cap sz tail call r = (b, r') \<Longrightarrow>
   answers t = answers s @ [(call, b)] \<Longrightarrow> p_pc t = P_Idle \<Longrightarrow> cached_tail t = d_cached_tail r' \<Longrightarrow>
   own_head t = own_head s + (if b then of_nat (length (call_values call)) else 0) \<Longrightarrow>
   one_call cap sz s t r"
  using push_returns unfolding one_call_def by blast

lemma one_call_pop:
  "sim cap sz s r \<Longrightarrow> spsc_inv cap sz s \<Longrightarrow> same_for_producer s t \<Longrightarrow> head_between r head \<Longrightarrow>
   try_pop_seeing cap sz head r = (x, r') \<Longrightarrow> returns t = returns s @ [x] \<Longrightarrow> c_pc t = C_Idle \<Longrightarrow>
   cached_head t = d_cached_head r' \<Longrightarrow> own_tail t = own_tail s + (if x = None then 0 else 1) \<Longrightarrow>
   one_call cap sz s t r"
  using pop_returns unfolding one_call_def by blast

lemma start_push_call:
  assumes "sim cap sz s r" and "spsc_inv cap sz s" and "p_pc s = P_Idle" and "call_ok sz call"
  shows "one_call cap sz s (start_push cap sz call s) r"
proof (cases "call_values call = [] \<or> too_many cap call")
  case True
  then show ?thesis
    using assms
    by (intro one_call_push [OF assms(1,2) _ assms(4), where tail = "d_cached_tail r" and r' = r
          and b = "call_values call = []"])
      (auto simp: start_push_def answer_def same_for_consumer_def tail_between_def push_call_seeing_eq
        own_head_def sim_def pushing_def)
next
  case False
  have "d_cached_tail r = cached_tail s" using assms(1,3) by (simp add: sim_def pushing_def)
  then have "answered s (start_push cap sz call s) = [] \<and> sim cap sz (start_push cap sz call s) r"
    using False assms(4)
    by (intro push_stutters [OF assms(1)])
      (auto simp: start_push_def begin_copy_def same_for_consumer_def own_head_def pushing_def tail_between_def)
  then show ?thesis by (simp add: one_call_def)
qed

lemma refresh_push_call:
  assumes "sim cap sz s r" and "spsc_inv cap sz s" and "p_pc s = P_Refresh call"
    and "p_seen s \<le> j" "j < length (tail_hist s)"
  shows "one_call cap sz s (refresh_push cap sz call j s) r"
proof -
  obtain ct ch where p: "p_inv cap sz ct s" and c: "c_inv cap sz ch s"
    using assms(2) by (auto simp: spsc_inv_def)
  note b = spsc_inv_bounds [OF p c]
  have "hist_ok sz (tail_hist s) (p_seen s) ct (length (popped s))"
    using p by (simp add: p_inv_def Let_def)
  from this assms(4,5) obtain n where n: "tail_hist s ! j = (of_nat n, n * sz)" "ct \<le> n"
      "hist_ok sz (tail_hist s) j n (length (popped s))"
    by (rule hist_ok_read)
  have le: "n \<le> length (popped s)" using n(3) by (rule hist_ok_le)
  have pc: "d_cached_tail r = cached_tail s" "call_ok sz call" "call_values call \<noteq> []"
      "\<not> too_many cap call" "lacks_room cap call (own_head s) (cached_tail s)"
    and r: "d_head r = own_head s" "d_tail r = own_tail s"
    using assms(1,3) by (simp_all add: sim_def pushing_def)
  have ct: "cached_tail s = of_nat ct" using p by (simp add: p_inv_def Let_def)
  have "unat (of_nat n - of_nat ct :: u64) = n - ct" "unat (of_nat (length (popped s)) - of_nat ct :: u64) =
      length (popped s) - ct"
    using n(2) le b(2,3,4) by (auto intro!: word_room [of _ _ cap])
  then have tail: "tail_between r (of_nat n)"
    using pc(1) ct r(2) b(6) le by (simp add: tail_between_def word_le_nat_alt)
  show ?thesis
  proof (cases "lacks_room cap call (own_head s) (of_nat n)")
    case True
    then show ?thesis
      using pc r n(1)
      by (intro one_call_push [OF assms(1,2) _ pc(2) tail, where r' = "r\<lparr>d_cached_tail := of_nat n\<rparr>"
            and b = False])
        (auto simp: refresh_push_def Let_def answer_def same_for_consumer_def push_call_seeing_eq
          refreshed_def own_head_def)
  next
    case False
    then have "answered s (refresh_push cap sz call j s) = [] \<and> sim cap sz (refresh_push cap sz call j s) r"
      using pc r n(1) tail
      by (intro push_stutters [OF assms(1)])
        (auto simp: refresh_push_def Let_def begin_copy_def same_for_consumer_def own_head_def pushing_def)
    then show ?thesis by (simp add: one_call_def)
  qed
qed

lemma store_byte_call:
  assumes "sim cap sz s r" and "p_pc s = P_Copy ((a, x) # todo) call"
  shows "one_call cap sz s (store_byte cap sz a x todo call s) r"
proof -
  have "answered s (store_byte cap sz a x todo call s) = [] \<and> sim cap sz (store_byte cap sz a x todo call s) r"
    using assms
    by (intro push_stutters [OF assms(1)])
      (auto simp: store_byte_def same_for_consumer_def own_head_def sim_def pushing_def)
  then show ?thesis by (simp add: one_call_def)
qed

lemma publish_call:
  assumes "sim cap sz s r" and "spsc_inv cap sz s" and "p_pc s = P_Copy [] call"
  shows "one_call cap sz s (publish call s) r"
proof -
  have pc: "call_ok sz call" "call_values call \<noteq> []" "\<not> too_many cap call"
      "\<not> lacks_room cap call (own_head s) (cached_tail s)" "tail_between r (cached_tail s)"
      "d_cached_tail r = cached_tail s \<or> lacks_room cap call (own_head s) (d_cached_tail r)"
    and r: "d_head r = own_head s"
    using assms(1,3) by (simp_all add: sim_def pushing_def)
  show ?thesis
    using pc r
    by (intro one_call_push [OF assms(1,2) _ pc(1,5), where b = True
          and r' = "published cap sz (call_values call) (refreshed cap call (cached_tail s) r)"])
      (auto simp: publish_def answer_def same_for_consumer_def push_call_seeing_eq refreshed_def
        published_def own_head_def)
qed

subsection \<open>The consumer's steps\<close>

lemma start_pop_call:
  assumes "sim cap sz s r" and "c_pc s = C_Idle"
  shows "one_call cap sz s (start_pop s) r"
proof -
  have "answered s (start_pop s) = [] \<and> sim cap sz (start_pop s) r"
    using assms
    by (intro pop_stutters [OF assms(1)])
      (auto simp: start_pop_def same_for_producer_def own_tail_def sim_def popping_def head_between_def)
  then show ?thesis by (simp add: one_call_def)
qed

lemma refresh_pop_call:
  assumes "sim cap sz s r" and "spsc_inv cap sz s" and "c_pc s = C_Refresh"
    and "c_seen s \<le> j" "j < length (head_hist s)"
  shows "one_call cap sz s (refresh_pop j s) r"
proof -
  obtain ct ch where p: "p_inv cap sz ct s" and c: "c_inv cap sz ch s"
    using assms(2) by (auto simp: spsc_inv_def)
  note b = spsc_inv_bounds [OF p c]
  have "hist_ok sz (head_hist s) (c_seen s) ch (length (accepted s))"
    using c by (simp add: c_inv_def Let_def)
  from this assms(4,5) obtain n where n: "head_hist s ! j = (of_nat n, n * sz)" "ch \<le> n"
      "hist_ok sz (head_hist s) j n (length (accepted s))"
    by (rule hist_ok_read)
  have le: "n \<le> length (accepted s)" using n(3) by (rule hist_ok_le)
  have pc: "d_cached_head r = cached_head s" "own_tail s = cached_head s"
    and r: "d_head r = own_head s" "d_tail r = own_tail s"
    using assms(1,3) by (simp_all add: sim_def popping_def)
  have ch: "cached_head s = of_nat ch" using c by (simp add: c_inv_def Let_def)
  have "unat (of_nat n - of_nat ch :: u64) = n - ch" "unat (of_nat (length (accepted s)) - of_nat ch :: u64) =
      length (accepted s) - ch"
    using n(2) le b(1-4) by (auto intro!: word_room [of _ _ cap])
  then have head: "head_between r (of_nat n)"
    using pc(1) ch r(1) b(5) le by (simp add: head_between_def word_le_nat_alt)
  show ?thesis
  proof (cases "own_tail s = of_nat n")
    case True
    then show ?thesis
      using pc r n(1)
      by (intro one_call_pop [OF assms(1,2) _ head, where r' = "r\<lparr>d_cached_head := of_nat n\<rparr>" and x = None])
        (auto simp: refresh_pop_def Let_def same_for_producer_def try_pop_seeing_eq own_tail_def)
  next
    case False
    then have "answered s (refresh_pop j s) = [] \<and> sim cap sz (refresh_pop j s) r"
      using pc r n(1) head
      by (intro pop_stutters [OF assms(1)])
        (auto simp: refresh_pop_def Let_def same_for_producer_def own_tail_def popping_def)
    then show ?thesis by (simp add: one_call_def)
  qed
qed

lemma load_byte_call:
  assumes "sim cap sz s r" and "c_pc s = C_Read acc"
  shows "one_call cap sz s (load_byte cap sz acc s) r"
proof -
  have "answered s (load_byte cap sz acc s) = [] \<and> sim cap sz (load_byte cap sz acc s) r"
    using assms
    by (intro pop_stutters [OF assms(1)])
      (auto simp: load_byte_def Let_def same_for_producer_def own_tail_def sim_def popping_def)
  then show ?thesis by (simp add: one_call_def)
qed

text \<open>The bytes copied out are those of the oldest value of the ring of whole calls.\<close>

lemma release_call:
  assumes "sim cap sz s r" and "spsc_inv cap sz s" and "c_pc s = C_Read acc" and "length acc = sz"
  shows "one_call cap sz s (release acc s) r"
proof -
  obtain ct ch where p: "p_inv cap sz ct s" and c: "c_inv cap sz ch s"
    using assms(2) by (auto simp: spsc_inv_def)
  note b = spsc_inv_bounds [OF p c]
  have acc: "length (popped s) < ch" "acc = take sz (accepted s ! length (popped s))"
    using c assms(3,4) by (simp_all add: c_inv_def Let_def)
  have "accepted s ! length (popped s) \<in> set (accepted s)" using acc(1) b(3) by simp
  then have "length (accepted s ! length (popped s)) = sz" using p by (simp add: p_inv_def Let_def)
  then have front: "drop (length (popped s)) (accepted s) = acc # drop (Suc (length (popped s))) (accepted s)"
    using acc b(3) by (simp add: Cons_nth_drop_Suc)
  have pc: "own_tail s \<noteq> cached_head s" "head_between r (cached_head s)"
      "d_cached_head r = cached_head s \<or> d_cached_head r = own_tail s"
    and r: "d_tail r = own_tail s" "ring_inv cap sz r"
      "ring_contents cap sz r = drop (length (popped s)) (accepted s)"
    using assms(1,3) by (simp_all add: sim_def popping_def)
  obtain x r' where eq: "try_pop_seeing cap sz (cached_head s) r = (x, r')" by fastforce
  then have some: "x \<noteq> None" "d_cached_head r' = cached_head s"
    using pc r(1) by (auto simp: try_pop_seeing_eq pop_release_def Let_def split: if_splits)
  then obtain v where v: "x = Some v" by blast
  have "v = acc" using try_pop_seeing_spec(4) [OF r(2) pc(2) eq v] r(3) front by simp
  then show ?thesis
    using some v
    by (intro one_call_pop [OF assms(1,2) _ pc(2) eq])
      (auto simp: release_def same_for_producer_def own_tail_def)
qed

section \<open>Runs are simulated\<close>

lemma p_step_call:
  "p_step cap sz s t \<Longrightarrow> sim cap sz s r \<Longrightarrow> spsc_inv cap sz s \<Longrightarrow> one_call cap sz s t r"
  by (induction rule: p_step.induct)
    (blast intro: start_push_call refresh_push_call store_byte_call publish_call)+

lemma c_step_call:
  "c_step cap sz s t \<Longrightarrow> sim cap sz s r \<Longrightarrow> spsc_inv cap sz s \<Longrightarrow> one_call cap sz s t r"
  by (induction rule: c_step.induct)
    (blast intro: start_pop_call refresh_pop_call load_byte_call release_call)+

lemma one_call_run:
  assumes "one_call cap sz s t r"
  shows "\<exists>r'. runs (call_step cap sz) r (answered s t) r' \<and> sim cap sz t r'"
  using assms unfolding one_call_def
  by (elim disjE exE conjE)
    (metis runs_start, metis push_call runs_single, metis pop_call runs_single)

interpretation ring_simulation: simulation "ring_step cap sz" spsc_init
    "\<lambda>s. SpscRingParameters cap \<longrightarrow> spsc_inv cap sz s"
    "call_step cap sz" "SpscRing cap sz" "\<lambda>s r. SpscRingParameters cap \<longrightarrow> sim cap sz s r" for cap sz
proof
  show "SpscRingParameters cap \<longrightarrow> spsc_inv cap sz t"
    if "SpscRingParameters cap \<longrightarrow> spsc_inv cap sz s" "ring_step cap sz s es t" for s es t
    using that p_step_inv c_step_inv by (auto simp: ring_step_def SpscRingParameters_def)
  show "\<exists>r'. runs (call_step cap sz) r es r' \<and> (SpscRingParameters cap \<longrightarrow> sim cap sz t r')"
    if "SpscRingParameters cap \<longrightarrow> spsc_inv cap sz s" "SpscRingParameters cap \<longrightarrow> sim cap sz s r"
      "ring_step cap sz s es t" for s r es t
    using that p_step_call c_step_call one_call_run unfolding ring_step_def by metis
qed (use spsc_init_inv sim_init in blast)+

lemma interleaving_reachable: "interleaving cap sz es s \<Longrightarrow> spsc_reachable cap sz s"
  unfolding interleaving_def
  by (induction rule: runs.induct) (auto simp: ring_step_def intro: spsc_reachable.intros)

section \<open>Properties\<close>

text \<open>
  C8. The ring is linearizable: in every interleaving of its two threads' memory accesses, stale reads
  included, the calls answer, in the order they return, as the calls of a run that makes them one at a
  time, each load of the other side's counter answering a value between the private copy and the
  counter; and the ring of that run then holds the values accepted and not yet popped.
\<close>

theorem ring_linearizable:
  assumes "SpscRingParameters cap" and "interleaving cap sz es s"
  shows "\<exists>r. calls_run cap sz es r \<and>
    ring_contents cap sz r = drop (length (popped s)) (accepted s) \<and>
    d_head r = own_head s \<and> d_tail r = own_tail s"
  using ring_simulation.simulates [OF assms(2) [unfolded interleaving_def]] assms(1)
  by (auto simp: sim_def calls_run_def)

lemma one_push_interleaving: "interleaving 1 1 [Pushed (Push_one [7]) True] one_push"
proof -
  let ?call = "Push_one [7]"
  let ?a = "start_push 1 1 ?call spsc_init"
  let ?b = "store_byte 1 1 0 7 [] ?call ?a"
  have ok: "SpscRingParameters 1" using one_slot by (simp add: SpscRingParameters_def)
  have a: "?a = spsc_init\<lparr>p_pc := P_Copy [(0, 7)] ?call\<rparr>"
    by (simp add: start_push_def spsc_init_def own_head_def begin_copy_def slot_def k_MASK_def)
  have "p_step 1 1 spsc_init ?a"
    by (rule p_step.p_start) (simp_all add: spsc_init_def call_ok_def)
  then have "interleaving 1 1 ([] @ answered spsc_init ?a) ?a"
    unfolding interleaving_def using ok by (intro runs_step [OF runs_start]) (simp add: ring_step_def)
  moreover have "p_step 1 1 ?a ?b"
    unfolding a by (rule p_step.p_store) simp
  ultimately have "interleaving 1 1 (([] @ answered spsc_init ?a) @ answered ?a ?b) ?b"
    unfolding interleaving_def using ok by (elim runs_step) (simp add: ring_step_def)
  moreover have "p_step 1 1 ?b one_push"
    unfolding one_push_def by (rule p_step.p_publish) (simp add: store_byte_def)
  ultimately have "interleaving 1 1 ((([] @ answered spsc_init ?a) @ answered ?a ?b) @ answered ?b one_push)
      one_push"
    unfolding interleaving_def using ok by (elim runs_step) (simp add: ring_step_def)
  then show ?thesis
    unfolding one_push_def a
    by (simp add: answered_def store_byte_def publish_def answer_def spsc_init_def)
qed

theorem ring_linearizable_witness:
  "\<exists>r. calls_run 1 1 [Pushed (Push_one [7]) True] r \<and> ring_contents 1 1 r = [[7]]"
  using ring_linearizable [OF _ one_push_interleaving] one_slot
  by (simp add: SpscRingParameters_def)
    (auto simp: one_push_def popped_def accepted_def publish_def answer_def store_byte_def
      start_push_def begin_copy_def spsc_init_def own_head_def)

end
