(* ===== verification/Core_Domain.thy ===== *)
theory Core_Domain
  imports Prelude
begin

text \<open>
  \<^verbatim>\<open>core_domain.h\<close>: the subsystems that raise errors and log messages.

  A scoped enumeration with a fixed underlying type holds every value of that type, and
  the code relies on it: \<^verbatim>\<open>Error::from_raw\<close> accepts any 64 bits, so \<^verbatim>\<open>domain()\<close> may return a
  \<^verbatim>\<open>Domain\<close> that no enumerator names. An enumeration is therefore modelled as a datatype of
  one constructor around its underlying word (the \<^verbatim>\<open>static_cast\<close>), whose selector is
  \<^verbatim>\<open>std::to_underlying\<close>, and an enumerator is an abbreviation for its value.
\<close>

datatype domain = Domain (domain_underlying: u8)

abbreviation Domain_e_UNKNOWN :: domain where "Domain_e_UNKNOWN \<equiv> Domain 0"
abbreviation Domain_e_CORE :: domain where "Domain_e_CORE \<equiv> Domain 1"
abbreviation Domain_e_VULKAN :: domain where "Domain_e_VULKAN \<equiv> Domain 2"
abbreviation Domain_e_METAL :: domain where "Domain_e_METAL \<equiv> Domain 3"
abbreviation Domain_e_COUNT :: domain where "Domain_e_COUNT \<equiv> Domain 4"

definition k_DOMAIN_NAMES :: "string list" where
  "k_DOMAIN_NAMES = [''unknown'', ''core'', ''vulkan'', ''metal'']"

text \<open>The \<^verbatim>\<open>static_assert\<close>: one name per enumerator.\<close>

lemma length_k_DOMAIN_NAMES: "length k_DOMAIN_NAMES = unat (domain_underlying Domain_e_COUNT)"
  by (simp add: k_DOMAIN_NAMES_def)

lemma distinct_k_DOMAIN_NAMES: "distinct k_DOMAIN_NAMES"
  by (simp add: k_DOMAIN_NAMES_def)

end
