(* ===== verification/Core_Error.thy ===== *)
theory Core_Error
  imports Core_Domain
begin

text \<open>
  \<^verbatim>\<open>core_error.h\<close>: the 64-bit error value, its packing and unpacking, and the propagation of
  failures (\<^verbatim>\<open>Result\<close>, \<^verbatim>\<open>Status\<close>, \<^verbatim>\<open>GAMEGINE_ERROR_TRY\<close>).

  The three reason enumerations are wrappers of 16-bit words, as every enumeration here. The
  type parameter of \<^verbatim>\<open>make\<close> and \<^verbatim>\<open>reason_as\<close> ranges over the enumerations with an
  \<^verbatim>\<open>ErrorReasonTraits\<close> specialization: \<open>reason_enum\<close> names them, and \<open>error_reason\<close> is a
  value of any of them. \<^verbatim>\<open>reason_as\<close> asserts that the domain matches, so it returns \<open>None\<close>
  where the assertion fails. A \<^verbatim>\<open>std::int32_t\<close> is an \<open>int\<close> between \<open>- 2^31\<close> and \<open>2^31 - 1\<close>.
\<close>

section \<open>Enumerations and traits\<close>

datatype kind = Kind (kind_underlying: u8)

abbreviation Kind_e_UNKNOWN :: kind where "Kind_e_UNKNOWN \<equiv> Kind 0"
abbreviation Kind_e_EXHAUSTED :: kind where "Kind_e_EXHAUSTED \<equiv> Kind 1"
abbreviation Kind_e_COUNT :: kind where "Kind_e_COUNT \<equiv> Kind 2"

datatype error_reason =
    CoreReason (reason_underlying: u16)
  | VulkanReason (reason_underlying: u16)
  | MetalReason (reason_underlying: u16)

abbreviation CoreReason_e_UNKNOWN :: error_reason where
  "CoreReason_e_UNKNOWN \<equiv> CoreReason 0"
abbreviation CoreReason_e_LOG_TOO_MANY_THREADS :: error_reason where
  "CoreReason_e_LOG_TOO_MANY_THREADS \<equiv> CoreReason 1"
abbreviation CoreReason_e_COUNT :: error_reason where "CoreReason_e_COUNT \<equiv> CoreReason 2"
abbreviation VulkanReason_e_UNKNOWN :: error_reason where
  "VulkanReason_e_UNKNOWN \<equiv> VulkanReason 0"
abbreviation VulkanReason_e_COUNT :: error_reason where "VulkanReason_e_COUNT \<equiv> VulkanReason 1"
abbreviation MetalReason_e_UNKNOWN :: error_reason where
  "MetalReason_e_UNKNOWN \<equiv> MetalReason 0"
abbreviation MetalReason_e_COUNT :: error_reason where "MetalReason_e_COUNT \<equiv> MetalReason 1"

datatype reason_enum = CoreReason_enum | VulkanReason_enum | MetalReason_enum

fun enum_of :: "error_reason \<Rightarrow> reason_enum" where
  "enum_of (CoreReason w) = CoreReason_enum"
| "enum_of (VulkanReason w) = VulkanReason_enum"
| "enum_of (MetalReason w) = MetalReason_enum"

text \<open>\<^verbatim>\<open>static_cast<t_REASON>(value)\<close>.\<close>

fun reason_cast :: "reason_enum \<Rightarrow> u16 \<Rightarrow> error_reason" where
  "reason_cast CoreReason_enum w = CoreReason w"
| "reason_cast VulkanReason_enum w = VulkanReason w"
| "reason_cast MetalReason_enum w = MetalReason w"

text \<open>\<^verbatim>\<open>ErrorReasonTraits<t_REASON>::k_DOMAIN\<close>.\<close>

fun reason_traits_domain :: "reason_enum \<Rightarrow> domain" where
  "reason_traits_domain CoreReason_enum = Domain_e_CORE"
| "reason_traits_domain VulkanReason_enum = Domain_e_VULKAN"
| "reason_traits_domain MetalReason_enum = Domain_e_METAL"

section \<open>The error value\<close>

datatype error = Error (error_raw: u64)

definition error_make :: "kind \<Rightarrow> error_reason \<Rightarrow> u32 \<Rightarrow> error" where
  "error_make k reason context =
     Error (ucast (domain_underlying (reason_traits_domain (enum_of reason))) OR
            push_bit 8 (ucast (kind_underlying k)) OR
            push_bit 16 (ucast (reason_underlying reason)) OR
            push_bit 32 (ucast context))"

definition error_make_with_signed_context :: "kind \<Rightarrow> error_reason \<Rightarrow> int \<Rightarrow> error" where
  "error_make_with_signed_context k reason context = error_make k reason (word_of_int context)"

definition error_from_raw :: "u64 \<Rightarrow> error" where
  "error_from_raw raw = Error raw"

definition error_domain :: "error \<Rightarrow> domain" where
  "error_domain e = Domain (ucast (error_raw e AND 0xFF))"

definition error_kind :: "error \<Rightarrow> kind" where
  "error_kind e = Kind (ucast (drop_bit 8 (error_raw e) AND 0xFF))"

definition error_reason_value :: "error \<Rightarrow> u16" where
  "error_reason_value e = ucast (drop_bit 16 (error_raw e) AND 0xFFFF)"

definition error_reason_as :: "reason_enum \<Rightarrow> error \<Rightarrow> error_reason option" where
  "error_reason_as enum e =
     (if error_domain e = reason_traits_domain enum
      then Some (reason_cast enum (error_reason_value e)) else None)"

definition error_context :: "error \<Rightarrow> u32" where
  "error_context e = ucast (drop_bit 32 (error_raw e))"

definition error_signed_context :: "error \<Rightarrow> int" where
  "error_signed_context e = sint (error_context e)"

section \<open>Failures as results\<close>

type_synonym 'a result = "error + 'a"
type_synonym status = "unit result"

definition make_unexpected :: "error \<Rightarrow> 'a result" where
  "make_unexpected e = Inl e"

text \<open>
  The macros are statements of an enclosing function. A statement runs on the state of the program, and
  either returns from the function or goes on, with the value of the variable it declares. The expression
  is a call with effects: it gives its result and the state it leaves.
\<close>

datatype ('r, 'a) completion = Returns 'r | Goes_on 'a

definition GAMEGINE_ERROR_TRY ::
  "('s \<Rightarrow> 'a result \<times> 's) \<Rightarrow> 's \<Rightarrow> ('b result, unit) completion \<times> 's" where
  "GAMEGINE_ERROR_TRY expression s =
     (let (tmp, s1) = expression s in
      case tmp of
        Inl e \<Rightarrow> (Returns (make_unexpected e), s1)
      | Inr _ \<Rightarrow> (Goes_on (), s1))"

definition GAMEGINE_ERROR_TRY_ASSIGN ::
  "('s \<Rightarrow> 'a result \<times> 's) \<Rightarrow> 's \<Rightarrow> ('b result, 'a) completion \<times> 's" where
  "GAMEGINE_ERROR_TRY_ASSIGN expression s =
     (let (tmp, s1) = expression s in
      case tmp of
        Inl e \<Rightarrow> (Returns (make_unexpected e), s1)
      | Inr v \<Rightarrow> (Goes_on v, s1))"

text \<open>One statement after another, and a call of the function whose body they are.\<close>

definition then_run ::
  "('s \<Rightarrow> ('r, 'a) completion \<times> 's) \<Rightarrow> ('a \<Rightarrow> 's \<Rightarrow> ('r, 'b) completion \<times> 's) \<Rightarrow>
   's \<Rightarrow> ('r, 'b) completion \<times> 's" where
  "then_run statement rest s =
     (case statement s of
        (Returns r, s1) \<Rightarrow> (Returns r, s1)
      | (Goes_on v, s1) \<Rightarrow> rest v s1)"

definition call_function :: "('s \<Rightarrow> ('r, 'r) completion \<times> 's) \<Rightarrow> 's \<Rightarrow> 'r \<times> 's" where
  "call_function body s =
     (case body s of (Returns r, s1) \<Rightarrow> (r, s1) | (Goes_on r, s1) \<Rightarrow> (r, s1))"

section \<open>Reading back the fields\<close>

lemma error_make_domain [codec]:
  "error_domain (error_make k r c) = reason_traits_domain (enum_of r)"
proof -
  have "ucast (error_raw (error_make k r c) AND 0xFF) =
      domain_underlying (reason_traits_domain (enum_of r))"
    unfolding error_make_def by (rule bit_word_eqI) (auto simp: field_bits dest: bit_imp_le_length)
  then show ?thesis by (simp add: error_domain_def)
qed

lemma error_make_kind [codec]: "error_kind (error_make k r c) = k"
proof -
  have "ucast (drop_bit 8 (error_raw (error_make k r c)) AND 0xFF) = kind_underlying k"
    unfolding error_make_def by (rule bit_word_eqI) (auto simp: field_bits dest: bit_imp_le_length)
  then show ?thesis by (simp add: error_kind_def)
qed

lemma error_make_reason [codec]: "error_reason_value (error_make k r c) = reason_underlying r"
  unfolding error_make_def error_reason_value_def
  by (rule bit_word_eqI) (auto simp: field_bits dest: bit_imp_le_length)

lemma error_make_context [codec]: "error_context (error_make k r c) = c"
  unfolding error_make_def error_context_def
  by (rule bit_word_eqI) (auto simp: field_bits dest: bit_imp_le_length)

lemma reason_cast_inverse [simp]: "reason_cast (enum_of r) (reason_underlying r) = r"
  by (cases r) simp_all

lemma error_make_reason_as [codec]: "error_reason_as (enum_of r) (error_make k r c) = Some r"
  by (simp add: error_reason_as_def codec)

text \<open>The four fields cover all 64 bits.\<close>

lemma bit_error_raw:
  "n < 64 \<Longrightarrow> bit (error_raw e) n =
     (if n < 8 then bit (domain_underlying (error_domain e)) n
      else if n < 16 then bit (kind_underlying (error_kind e)) (n - 8)
      else if n < 32 then bit (error_reason_value e) (n - 16)
      else bit (error_context e) (n - 32))"
  by (auto simp: error_domain_def error_kind_def error_reason_value_def error_context_def
      field_bits)

lemma error_eqI:
  assumes "error_domain e = error_domain f" and "error_kind e = error_kind f"
    and "error_reason_value e = error_reason_value f" and "error_context e = error_context f"
  shows "e = f"
proof -
  have "error_raw e = error_raw f"
    by (rule bit_word_eqI) (simp add: bit_error_raw assms)
  then show ?thesis by (rule error.expand)
qed

lemma reason_as_SomeD:
  assumes "error_reason_as enum e = Some r"
  shows "enum_of r = enum" and "error_domain e = reason_traits_domain enum"
    and "reason_underlying r = error_reason_value e"
  using assms by (cases enum; auto simp: error_reason_as_def split: if_splits)+

section \<open>Properties\<close>

text \<open>
  C32. An error gives back the parts it was made from: the domain of its reason enumeration, its
  kind, its reason and its context.
\<close>

theorem error_parts_round_trip:
  "error_domain (error_make k r c) = reason_traits_domain (enum_of r) \<and>
   error_kind (error_make k r c) = k \<and>
   error_reason_as (enum_of r) (error_make k r c) = Some r \<and>
   error_reason_value (error_make k r c) = reason_underlying r \<and>
   error_context (error_make k r c) = c"
  by (simp add: codec)

text \<open>
  The other way round: an error of any 64 bits, its reason read in the enumeration of its
  domain, is the error made from what it reads as. So the packed value holds nothing but its parts,
  and equal parts mean equal errors.
\<close>

theorem error_remade_from_parts:
  assumes "error_reason_as enum (error_from_raw raw) = Some r"
  shows "error_make (error_kind (error_from_raw raw)) r (error_context (error_from_raw raw)) =
    error_from_raw raw"
  by (rule error_eqI) (simp_all add: codec reason_as_SomeD [OF assms])

theorem error_remade_from_parts_witness:
  "error_make Kind_e_EXHAUSTED CoreReason_e_LOG_TOO_MANY_THREADS 32 = error_from_raw 0x2000010101"
  using error_remade_from_parts [of CoreReason_enum "0x2000010101" "CoreReason 1"]
  by (simp add: error_reason_as_def error_domain_def error_kind_def error_reason_value_def
      error_context_def error_from_raw_def)

text \<open>A signed context, a negative \<^verbatim>\<open>VkResult\<close> say, is read back as the number it was.\<close>

theorem error_signed_context_round_trip:
  assumes "- (2 ^ 31) \<le> c" and "c < 2 ^ 31"
  shows "error_signed_context (error_make_with_signed_context k r c) = c"
proof -
  have "sint (word_of_int c :: u32) = signed_take_bit 31 c"
    by (simp add: sint_sbintrunc')
  then show ?thesis
    using assms
    by (simp add: error_signed_context_def error_make_with_signed_context_def codec
        signed_take_bit_int_eq_self)
qed

theorem error_signed_context_round_trip_witness:
  "error_signed_context (error_make_with_signed_context Kind_e_UNKNOWN VulkanReason_e_UNKNOWN (- 4)) = - 4"
  by (rule error_signed_context_round_trip) simp_all

text \<open>
  A function whose body is a list of the two macros and which returns the values they declared, and what
  its expressions would do if each were evaluated, one after the other, whatever the one before gave.
\<close>

datatype ('s, 'a) try_statement =
    Try (expression: "'s \<Rightarrow> 'a result \<times> 's")
  | is_Try_assign: Try_assign (expression: "'s \<Rightarrow> 'a result \<times> 's")

fun try_body :: "('s, 'a) try_statement list \<Rightarrow> 'a list \<Rightarrow> 's \<Rightarrow> ('a list result, 'a list result) completion \<times> 's" where
  "try_body [] declared = (\<lambda>s. (Goes_on (Inr declared), s))"
| "try_body (Try f # ts) declared = then_run (GAMEGINE_ERROR_TRY f) (\<lambda>_. try_body ts declared)"
| "try_body (Try_assign f # ts) declared =
     then_run (GAMEGINE_ERROR_TRY_ASSIGN f) (\<lambda>v. try_body ts (declared @ [v]))"

fun evaluations :: "('s, 'a) try_statement list \<Rightarrow> 's \<Rightarrow> ('a result \<times> 's) list" where
  "evaluations [] s = []"
| "evaluations (t # ts) s = expression t s # evaluations ts (snd (expression t s))"

definition values_declared :: "('s, 'a) try_statement list \<Rightarrow> ('a result \<times> 's) list \<Rightarrow> 'a list" where
  "values_declared ts ev = map (\<lambda>(t, r, s). projr r) (filter (\<lambda>(t, r, s). is_Try_assign t) (zip ts ev))"

text \<open>Up to the first failure each expression is evaluated, and from then on none.\<close>

definition try_outcome :: "('s, 'a) try_statement list \<Rightarrow> 's \<Rightarrow> 'a list result \<times> 's" where
  "try_outcome ts s =
     (let ev = evaluations ts s;
          k = length (takeWhile (\<lambda>(r, _). \<not> isl r) ev)
      in if k < length ts then (Inl (projl (fst (ev ! k))), snd (ev ! k))
         else (Inr (values_declared ts ev), last (s # map snd ev)))"

lemma length_evaluations [simp]: "length (evaluations ts s) = length ts"
  by (induction ts arbitrary: s) simp_all

text \<open>The outcome, one statement at a time, after the values \<open>declared\<close>.\<close>

lemma try_body_outcome:
  "call_function (try_body ts declared) s =
     (case try_outcome ts s of (Inl e, s1) \<Rightarrow> (Inl e, s1) | (Inr vs, s1) \<Rightarrow> (Inr (declared @ vs), s1))"
proof (induction ts arbitrary: declared s)
  case Nil
  show ?case by (simp add: call_function_def try_outcome_def values_declared_def)
next
  case (Cons t ts)
  obtain r s1 where f: "expression t s = (r, s1)" by fastforce
  note unfold = then_run_def GAMEGINE_ERROR_TRY_def GAMEGINE_ERROR_TRY_ASSIGN_def make_unexpected_def
  show ?case
  proof (cases r)
    case (Inl e)
    then show ?thesis
      using f by (cases t) (simp_all add: call_function_def unfold try_outcome_def)
  next
    case (Inr v)
    have "call_function (try_body (t # ts) declared) s =
        call_function (try_body ts (case t of Try f \<Rightarrow> declared | Try_assign f \<Rightarrow> declared @ [v])) s1"
      using f Inr by (cases t) (simp_all add: call_function_def unfold)
    moreover have "try_outcome (t # ts) s = (case try_outcome ts s1 of
        (Inl e, s2) \<Rightarrow> (Inl e, s2)
      | (Inr vs, s2) \<Rightarrow> (Inr ((case t of Try f \<Rightarrow> [] | Try_assign f \<Rightarrow> [v]) @ vs), s2))"
      using f Inr by (cases t) (auto simp: try_outcome_def values_declared_def Let_def)
    ultimately show ?thesis
      using Cons.IH by (cases t) (auto split: sum.splits prod.splits)
  qed
qed

text \<open>
  C33. Propagation. A function made of the two macros evaluates their expressions in order, each once, up to
  the first that fails: it returns that error unchanged and leaves the state as that expression left it;
  if none fails it goes on to its end with the values declared. And an error passes unchanged, and with
  no further effect, through any number of callers that use the macros.
\<close>

theorem error_try_propagates:
  "call_function (try_body ts []) s = try_outcome ts s \<and>
   foldr (\<lambda>rest f. call_function (then_run (GAMEGINE_ERROR_TRY_ASSIGN f) rest)) callers
     (\<lambda>s. (make_unexpected e, effect s)) s = (make_unexpected e, effect s)"
proof
  show "call_function (try_body ts []) s = try_outcome ts s"
    by (simp add: try_body_outcome split: sum.splits prod.splits)
  show "foldr (\<lambda>rest f. call_function (then_run (GAMEGINE_ERROR_TRY_ASSIGN f) rest)) callers
      (\<lambda>s. (make_unexpected e, effect s)) s = (make_unexpected e, effect s)"
    by (induction callers)
      (simp_all add: call_function_def then_run_def GAMEGINE_ERROR_TRY_ASSIGN_def make_unexpected_def)
qed

end
