(* ===== verification/Core_Error_Catalog.thy ===== *)
theory Core_Error_Catalog
  imports Core_Error
begin

text \<open>
  \<^verbatim>\<open>core_error_catalog.h\<close>: the names of the parts of an error. A table is a list of names in
  enumerator order; a value past the end of its table is named \<^verbatim>\<open>"?"\<close>.
\<close>

section \<open>Names\<close>

fun ErrorReasonNames_k_NAMES :: "reason_enum \<Rightarrow> string list" where
  "ErrorReasonNames_k_NAMES CoreReason_enum = [''unknown'', ''log_too_many_threads'']"
| "ErrorReasonNames_k_NAMES VulkanReason_enum = [''unknown'']"
| "ErrorReasonNames_k_NAMES MetalReason_enum = [''unknown'']"

definition k_KIND_NAMES :: "string list" where
  "k_KIND_NAMES = [''unknown'', ''exhausted'']"

definition k_UNNAMED :: string where "k_UNNAMED = ''?''"

definition lookup_name :: "string list \<Rightarrow> nat \<Rightarrow> string" where
  "lookup_name names index = (if index < length names then names ! index else k_UNNAMED)"

definition to_string_domain :: "domain \<Rightarrow> string" where
  "to_string_domain d = lookup_name k_DOMAIN_NAMES (unat (domain_underlying d))"

definition to_string_kind :: "kind \<Rightarrow> string" where
  "to_string_kind k = lookup_name k_KIND_NAMES (unat (kind_underlying k))"

definition to_string_reason :: "error_reason \<Rightarrow> string" where
  "to_string_reason r =
     lookup_name (ErrorReasonNames_k_NAMES (enum_of r)) (unat (reason_underlying r))"

text \<open>
  The switch over the domain. \<open>reason_as\<close> asserts that the domain is the one of its enumeration,
  which each case has just established (\<open>reason_as_in_case\<close>), so \<open>the\<close> is never applied to \<open>None\<close>.
\<close>

definition to_string_reason_of :: "error \<Rightarrow> string" where
  "to_string_reason_of e =
     (if error_domain e = Domain_e_UNKNOWN \<or> error_domain e = Domain_e_COUNT then k_UNNAMED
      else if error_domain e = Domain_e_CORE then
        to_string_reason (the (error_reason_as CoreReason_enum e))
      else if error_domain e = Domain_e_VULKAN then
        to_string_reason (the (error_reason_as VulkanReason_enum e))
      else if error_domain e = Domain_e_METAL then
        to_string_reason (the (error_reason_as MetalReason_enum e))
      else k_UNNAMED)"

record error_descriptor =
  descriptor_domain :: string
  descriptor_kind :: string
  descriptor_reason :: string

text \<open>The two \<^verbatim>\<open>make\<close>: with the reason enumeration given, whose domain the error must have, or not.\<close>

definition ErrorDescriptor_make_as :: "reason_enum \<Rightarrow> error \<Rightarrow> error_descriptor option" where
  "ErrorDescriptor_make_as enum e =
     map_option (\<lambda>reason. \<lparr>descriptor_domain = to_string_domain (error_domain e),
                           descriptor_kind = to_string_kind (error_kind e),
                           descriptor_reason = to_string_reason reason\<rparr>)
       (error_reason_as enum e)"

definition ErrorDescriptor_make :: "error \<Rightarrow> error_descriptor" where
  "ErrorDescriptor_make e =
     \<lparr>descriptor_domain = to_string_domain (error_domain e),
      descriptor_kind = to_string_kind (error_kind e),
      descriptor_reason = to_string_reason_of e\<rparr>"

section \<open>The tables\<close>

text \<open>The \<^verbatim>\<open>static_assert\<close>s: one name per enumerator.\<close>

lemma name_tables_complete:
  "length (ErrorReasonNames_k_NAMES CoreReason_enum) = unat (reason_underlying CoreReason_e_COUNT)"
  "length (ErrorReasonNames_k_NAMES VulkanReason_enum) = unat (reason_underlying VulkanReason_e_COUNT)"
  "length (ErrorReasonNames_k_NAMES MetalReason_enum) = unat (reason_underlying MetalReason_e_COUNT)"
  "length k_KIND_NAMES = unat (kind_underlying Kind_e_COUNT)"
  by (simp_all add: k_KIND_NAMES_def)



lemma reason_cast_fields [simp]:
  "enum_of (reason_cast enum w) = enum" "reason_underlying (reason_cast enum w) = w"
  by (cases enum; simp)+

text \<open>The bound the line format rests on: a name has at most 20 characters.\<close>

lemma length_lookup_name:
  "list_all (\<lambda>s. length s \<le> n) names \<Longrightarrow> 1 \<le> n \<Longrightarrow> length (lookup_name names i) \<le> n"
  by (auto simp: lookup_name_def list_all_length k_UNNAMED_def)

lemma length_to_string:
  "length (to_string_domain d) \<le> 20" "length (to_string_kind k) \<le> 20"
  "length (to_string_reason r) \<le> 20"
proof -
  show "length (to_string_domain d) \<le> 20" "length (to_string_kind k) \<le> 20"
    unfolding to_string_domain_def to_string_kind_def
    by (rule length_lookup_name; simp add: k_DOMAIN_NAMES_def k_KIND_NAMES_def)+
  show "length (to_string_reason r) \<le> 20"
    unfolding to_string_reason_def by (rule length_lookup_name) (cases r; simp)+
qed

lemma length_to_string_reason_of: "length (to_string_reason_of e) \<le> 20"
  by (simp add: to_string_reason_of_def length_to_string k_UNNAMED_def)

lemma printable_lookup_name:
  "list_all (list_all printable) names \<Longrightarrow> list_all printable (lookup_name names i)"
  by (auto simp: lookup_name_def list_all_length k_UNNAMED_def printable_def)

lemma printable_to_string:
  "list_all printable (to_string_domain d)" "list_all printable (to_string_kind k)"
  "list_all printable (to_string_reason r)"
proof -
  have "list_all (list_all printable) k_DOMAIN_NAMES" "list_all (list_all printable) k_KIND_NAMES"
    by code_simp+
  then show "list_all printable (to_string_domain d)" "list_all printable (to_string_kind k)"
    unfolding to_string_domain_def to_string_kind_def by (simp_all add: printable_lookup_name)
  have "list_all (list_all printable) (ErrorReasonNames_k_NAMES enum)" for enum
    by (cases enum) (simp_all add: printable_def)
  then show "list_all printable (to_string_reason r)"
    unfolding to_string_reason_def by (rule printable_lookup_name)
qed

lemma printable_to_string_reason_of: "list_all printable (to_string_reason_of e)"
  by (simp add: to_string_reason_of_def printable_to_string k_UNNAMED_def printable_def)

section \<open>Properties\<close>


text \<open>
  For an error built from a kind and a reason, the two ways of naming it agree, and an
  enumerator's name is the one at its position in its table.
\<close>

theorem descriptor_of_made:
  assumes "unat (kind_underlying k) < length k_KIND_NAMES"
    and "unat (reason_underlying r) < length (ErrorReasonNames_k_NAMES (enum_of r))"
  shows "ErrorDescriptor_make_as (enum_of r) (error_make k r c) =
           Some (ErrorDescriptor_make (error_make k r c)) \<and>
         ErrorDescriptor_make (error_make k r c) =
           \<lparr>descriptor_domain =
              k_DOMAIN_NAMES ! unat (domain_underlying (reason_traits_domain (enum_of r))),
            descriptor_kind = k_KIND_NAMES ! unat (kind_underlying k),
            descriptor_reason =
              ErrorReasonNames_k_NAMES (enum_of r) ! unat (reason_underlying r)\<rparr>"
  using assms
  by (cases r)
    (auto simp: ErrorDescriptor_make_as_def ErrorDescriptor_make_def codec to_string_reason_of_def
      to_string_domain_def to_string_kind_def to_string_reason_def lookup_name_def
      error_make_reason_as [of "CoreReason _", simplified]
      error_make_reason_as [of "VulkanReason _", simplified]
      error_make_reason_as [of "MetalReason _", simplified] k_DOMAIN_NAMES_def)

lemma descriptor_of_made_witness:
  "descriptor_reason (ErrorDescriptor_make
     (error_make Kind_e_EXHAUSTED CoreReason_e_LOG_TOO_MANY_THREADS 64)) = ''log_too_many_threads''"
  using descriptor_of_made [of Kind_e_EXHAUSTED CoreReason_e_LOG_TOO_MANY_THREADS 64]
  by (simp add: k_KIND_NAMES_def)

end
