(* ===== verification/Swar.thy ===== *)
theory Swar
  imports Prelude
begin

text \<open>
  The word-at-a-time scan of \<^verbatim>\<open>LineWriter::copy_plain\<close> (\<^verbatim>\<open>core_format.h\<close>): eight characters in a
  64-bit word, the comparison \<^verbatim>\<open>below\<close> of all its bytes at once, and the proof that the lowest
  flag is the first control character. The comparison borrows across bytes, so the flags above
  the lowest are not trusted, by the code or by the lemmas.
\<close>

section \<open>The scan\<close>

definition k_ONES :: u64 where "k_ONES = 0x0101010101010101"
definition k_SPACES :: u64 where "k_SPACES = k_ONES * 0x20"
definition k_DELS :: u64 where "k_DELS = k_ONES * 0x7F"
definition k_HIGHS :: u64 where "k_HIGHS = k_ONES * 0x80"

definition below :: "u64 \<Rightarrow> u64 \<Rightarrow> u64" where
  "below x limit = (x - limit) AND NOT x AND k_HIGHS"

definition flagged :: "u64 \<Rightarrow> u64" where
  "flagged word = below word k_SPACES OR below (word XOR k_DELS) k_ONES"

text \<open>\<^verbatim>\<open>std::countr_zero\<close>.\<close>

definition countr_zero :: "u64 \<Rightarrow> nat" where
  "countr_zero w = length (takeWhile (\<lambda>n. \<not> bit w n) [0..<64])"

text \<open>A little-endian word of bytes, and the bytes of a word.\<close>

fun word_of_codes :: "u8 list \<Rightarrow> u64" where
  "word_of_codes [] = 0"
| "word_of_codes (b # bs) = ucast b OR push_bit 8 (word_of_codes bs)"

fun codes_of_word :: "nat \<Rightarrow> u64 \<Rightarrow> u8 list" where
  "codes_of_word 0 w = []"
| "codes_of_word (Suc n) w = ucast w # codes_of_word n (drop_bit 8 w)"

definition is_control_code :: "u8 \<Rightarrow> bool" where
  "is_control_code b \<longleftrightarrow> b < 0x20 \<or> b = 0x7F"

section \<open>Words of bytes\<close>

lemma bit_word_of_codes_Cons:
  "n < 64 \<Longrightarrow> bit (word_of_codes (b # bs)) n =
     (if n < 8 then bit b n else bit (word_of_codes bs) (n - 8))"
  by (auto simp: field_bits dest: bit_imp_le_length)

lemma bit_word_of_codes_high: "8 * length bs \<le> n \<Longrightarrow> \<not> bit (word_of_codes bs) n"
proof (induction bs arbitrary: n)
  case Nil
  then show ?case by simp
next
  case (Cons b bs)
  then show ?case
    by (cases "n < 64") (auto simp: bit_word_of_codes_Cons simp del: word_of_codes.simps
        dest: bit_imp_le_length)
qed

lemma codes_of_word_of_codes:
  "length bs \<le> 8 \<Longrightarrow> codes_of_word (length bs) (word_of_codes bs) = bs"
proof (induction bs)
  case Nil
  then show ?case by simp
next
  case (Cons b bs)
  have "ucast (word_of_codes (b # bs)) = b"
    by (rule bit_word_eqI) (auto simp: field_bits dest: bit_imp_le_length)
  moreover have "drop_bit 8 (word_of_codes (b # bs)) = word_of_codes bs"
    using Cons.prems
    by (intro bit_word_eqI) (auto simp: field_bits bit_word_of_codes_high dest: bit_imp_le_length)
  ultimately show ?case
    using Cons by (simp del: word_of_codes.simps)
qed

section \<open>Subtraction, byte by byte\<close>

lemma unat_u8_less: "unat (b :: u8) < 256"
  using unsigned_less [of b, where 'a=nat] by simp

lemma unat_ucast_u8_u64: "unat (ucast (b :: u8) :: u64) = unat b"
  using unat_u8_less [of b] by (simp add: unsigned_ucast_eq take_bit_nat_eq_self_iff)

lemma bit7_u8: "bit (b :: u8) 7 \<longleftrightarrow> 0x80 \<le> b"
proof -
  have "unat b div 128 = (if 128 \<le> unat b then 1 else 0)"
    using unat_u8_less [of b] by auto
  moreover have "bit b 7 = bit (unat b) 7" by (simp add: bit_unsigned_iff)
  ultimately show ?thesis by (auto simp: bit_iff_odd word_le_nat_alt)
qed

lemma u8_not_below: "\<lbrakk>l \<le> b; l \<le> (0x80 :: u8)\<rbrakk> \<Longrightarrow> \<not> (bit (b - l) 7 \<and> \<not> bit b 7)"
  by (auto simp: bit7_u8 word_le_nat_alt unat_sub)

lemma u8_below: "\<lbrakk>b < l; l \<le> (0x80 :: u8)\<rbrakk> \<Longrightarrow> bit (b - l) 7 \<and> \<not> bit b 7"
  by (auto simp: bit7_u8 word_le_nat_alt word_less_nat_alt unat_sub_if')

lemma ucast_diff_u8: "(ucast (X - Y :: u64) :: u8) = ucast X - ucast Y"
proof transfer
  fix x y :: int
  have a: "take_bit 8 (take_bit 64 x - take_bit 64 y) =
    take_bit 8 (take_bit 8 (take_bit 64 x) - take_bit 8 (take_bit 64 y))"
    by (simp only: take_bit_diff)
  show "take_bit LENGTH(8) (take_bit LENGTH(64) (x - y)) =
          take_bit LENGTH(8) (take_bit LENGTH(64) x - take_bit LENGTH(64) y)"
    by (simp add: a) (simp only: take_bit_diff)
qed

lemma ucast_diff_up: "l \<le> b \<Longrightarrow> (ucast (b - l :: u8) :: u64) = ucast b - ucast l"
  by (simp add: word_unat_eq_iff unat_sub_if' word_le_nat_alt unat_ucast_u8_u64)

lemma push_8_plus: "ucast (b :: u8) OR push_bit 8 y = (ucast b + push_bit 8 y :: u64)"
  by (rule disjunctive_add [symmetric]) (auto simp: bit_simps dest: bit_imp_le_length)

lemma ucast_word_of_codes: "(ucast (word_of_codes (b # bs)) :: u8) = b"
  by (rule bit_word_eqI) (auto simp: field_bits dest: bit_imp_le_length)

lemma bit_diff_low:
  "bit (word_of_codes (b # bs) - word_of_codes (l # ls)) 7 \<longleftrightarrow> bit (b - l) 7"
proof -
  have "bit (X :: u64) 7 \<longleftrightarrow> bit (ucast X :: u8) 7" for X
    by (simp add: bit_simps)
  then show ?thesis by (simp only: ucast_diff_u8 ucast_word_of_codes)
qed

lemma bit_diff_high:
  assumes "l \<le> b" and "n < 56"
  shows "bit (word_of_codes (b # bs) - word_of_codes (l # ls)) (n + 8) \<longleftrightarrow>
         bit (word_of_codes bs - word_of_codes ls) n"
proof -
  have "word_of_codes (b # bs) - word_of_codes (l # ls) =
      ucast (b - l) OR push_bit 8 (word_of_codes bs - word_of_codes ls)"
    unfolding word_of_codes.simps push_8_plus unfolding ucast_diff_up [OF assms(1)]
    by (simp add: push_bit_eq_mult algebra_simps)
  then show ?thesis
    using assms(2) by (auto simp: bit_simps dest: bit_imp_le_length)
qed

text \<open>
  Byte \<open>i\<close> of a word is flagged by \<open>below\<close> when its top bit is; up to the first byte that is
  really below the limit there is no borrow, and no flag.
\<close>

definition byte_flag :: "u64 \<Rightarrow> nat \<Rightarrow> bool" where
  "byte_flag w i = bit w (8 * i + 7)"

lemma below_flag_lowest:
  assumes "length bs \<le> 8" and "l \<le> 0x80" and "i = length (takeWhile (\<lambda>b. l \<le> b) bs)"
  defines "d \<equiv> (word_of_codes bs - word_of_codes (replicate (length bs) l)) AND NOT (word_of_codes bs)"
  shows "(\<forall>j<i. \<not> byte_flag d j) \<and> (i < length bs \<longrightarrow> byte_flag d i)"
  using assms(1,3) unfolding d_def
proof (induction bs arbitrary: i)
  case Nil
  then show ?case by simp
next
  case (Cons b bs)
  let ?X = "word_of_codes (b # bs)" and ?P = "word_of_codes (replicate (length (b # bs)) l)"
  let ?x = "word_of_codes bs" and ?p = "word_of_codes (replicate (length bs) l)"
  have zero: "byte_flag ((?X - ?P) AND NOT ?X) 0 \<longleftrightarrow> bit (b - l) 7 \<and> \<not> bit b 7"
    unfolding byte_flag_def length_Cons replicate_Suc
    by (simp del: word_of_codes.simps add: bit_and_iff bit_not_iff bit_diff_low bit_word_of_codes_Cons)
  show ?case
  proof (cases "l \<le> b")
    case True
    define i' where "i' = length (takeWhile (\<lambda>b. l \<le> b) bs)"
    have IH: "(\<forall>j<i'. \<not> byte_flag ((?x - ?p) AND NOT ?x) j) \<and>
        (i' < length bs \<longrightarrow> byte_flag ((?x - ?p) AND NOT ?x) i')"
      using Cons.prems(1) by (intro Cons.IH) (simp_all add: i'_def)
    have shift: "byte_flag ((?X - ?P) AND NOT ?X) (Suc j) \<longleftrightarrow> byte_flag ((?x - ?p) AND NOT ?x) j"
      if "j < 7" for j
      unfolding byte_flag_def length_Cons replicate_Suc
      using that bit_diff_high [OF True, of "8 * j + 7" bs "replicate (length bs) l"]
      by (simp del: word_of_codes.simps add: bit_and_iff bit_not_iff bit_word_of_codes_Cons ac_simps)
    have bound: "i' \<le> length bs" by (simp add: i'_def length_takeWhile_le)
    have "i = Suc i'" using Cons.prems(2) True by (simp add: i'_def)
    moreover have "\<not> byte_flag ((?X - ?P) AND NOT ?X) j" if "j < Suc i'" for j
      using that zero u8_not_below [OF True assms(2)] IH shift bound Cons.prems(1)
      by (cases j) auto
    moreover have "byte_flag ((?X - ?P) AND NOT ?X) (Suc i')" if "Suc i' < length (b # bs)"
      using that IH shift bound Cons.prems(1) by auto
    ultimately show ?thesis by simp
  next
    case False
    then have "i = 0" and "byte_flag ((?X - ?P) AND NOT ?X) 0"
      using Cons.prems(2) zero u8_below [OF _ assms(2), of b] by (simp_all add: not_le)
    then show ?thesis by blast
  qed
qed

section \<open>The lowest flag is the first control character\<close>

lemma k_HIGHS_bits:
  "list_all (\<lambda>n. bit (0x8080808080808080 :: u64) n \<longleftrightarrow> n mod 8 = 7) [0..<64]"
  by code_simp

lemma bit_k_HIGHS: "bit k_HIGHS n \<longleftrightarrow> n < 64 \<and> n mod 8 = 7"
proof -
  have eq: "k_HIGHS = 0x8080808080808080"
    by (simp add: k_HIGHS_def k_ONES_def)
  show ?thesis
    using k_HIGHS_bits bit_imp_le_length [of k_HIGHS n]
    by (auto simp: eq list_all_iff)
qed

lemma replicate_8: "replicate 8 x = [x, x, x, x, x, x, x, x]"
  by (simp add: numeral_eq_Suc)

lemma k_ONES_codes: "k_ONES = word_of_codes (replicate 8 1)"
  and k_SPACES_codes: "k_SPACES = word_of_codes (replicate 8 0x20)"
  and k_DELS_codes: "k_DELS = word_of_codes (replicate 8 0x7F)"
  by (simp_all add: k_ONES_def k_SPACES_def k_DELS_def replicate_8)

lemma xor_word_of_codes:
  "length bs = length cs \<Longrightarrow>
     word_of_codes bs XOR word_of_codes cs = word_of_codes (map2 (XOR) bs cs)"
proof (induction bs cs rule: list_induct2)
  case Nil
  then show ?case by simp
next
  case (Cons b bs c cs)
  show ?case
    unfolding list.map zip_Cons_Cons word_of_codes.simps Cons.IH [symmetric] prod.case
    by (rule bit_word_eqI) (auto simp: bit_simps dest: bit_imp_le_length)
qed

lemma xor_dels:
  "length bs = 8 \<Longrightarrow> word_of_codes bs XOR k_DELS = word_of_codes (map (\<lambda>b. b XOR 0x7F) bs)"
  unfolding k_DELS_codes by (simp add: xor_word_of_codes zip_replicate2 comp_def)

lemma length_takeWhile_conj:
  "length (takeWhile (\<lambda>x. P x \<and> Q x) xs) =
     min (length (takeWhile P xs)) (length (takeWhile Q xs))"
  by (induction xs) auto

lemma countr_zero_eq:
  assumes "bit w n" and "\<And>m. m < n \<Longrightarrow> \<not> bit w m"
  shows "countr_zero w = n"
proof -
  have "n < 64" using bit_imp_le_length [OF assms(1)] by simp
  then have "[0..<64] = [0..<n] @ n # [Suc n..<64]"
    by (metis le_add1 less_imp_add_positive upt_add_eq_append upt_conv_Cons le0 add_0 less_add_same_cancel1)
  then have "takeWhile (\<lambda>n. \<not> bit w n) [0..<64] = [0..<n]"
    using assms by (simp only:) (subst takeWhile_append2, auto)
  then show ?thesis by (simp add: countr_zero_def)
qed

text \<open>
  The decision of \<open>copy_plain\<close> on one word: no flag means no control character among the eight, and
  otherwise the lowest flag is bit 7 of the first one.
\<close>

lemma bit_below: "bit (below x limit) n \<longleftrightarrow> n mod 8 = 7 \<and> n < 64 \<and> bit ((x - limit) AND NOT x) n"
  by (auto simp: below_def bit_and_iff bit_k_HIGHS)

lemma byte_flag_below: "j < 8 \<Longrightarrow> byte_flag (below x limit) j \<longleftrightarrow> byte_flag ((x - limit) AND NOT x) j"
  by (simp add: byte_flag_def bit_below)

lemma xor_eq_0_u8: "(b XOR c :: u8) = 0 \<longleftrightarrow> b = c"
  by (auto simp: bit_eq_iff bit_xor_iff)

lemma one_le_u8: "(1 :: u8) \<le> b \<longleftrightarrow> b \<noteq> 0"
  by (metis word_le_0_iff word_less_1 linorder_not_less)

lemma flagged_bytes:
  assumes "length bs = 8" and "i = length (takeWhile (\<lambda>b. \<not> is_control_code b) bs)"
  shows "j < i \<Longrightarrow> \<not> byte_flag (flagged (word_of_codes bs)) j"
    and "i < 8 \<Longrightarrow> byte_flag (flagged (word_of_codes bs)) i"
proof -
  define n1 where "n1 = length (takeWhile (\<lambda>b. 0x20 \<le> b) bs)"
  define n2 where "n2 = length (takeWhile (\<lambda>b. b \<noteq> 0x7F) bs)"
  have "takeWhile (\<lambda>b. \<not> is_control_code b) bs = takeWhile (\<lambda>b. 0x20 \<le> b \<and> b \<noteq> 0x7F) bs"
    by (rule arg_cong [where f = "\<lambda>P. takeWhile P bs"]) (auto simp: is_control_code_def not_less)
  then have i: "i = min n1 n2"
    unfolding assms(2) n1_def n2_def by (simp only: length_takeWhile_conj)
  have le: "n1 \<le> 8" "n2 \<le> 8"
    unfolding n1_def n2_def assms(1) [symmetric] by (rule length_takeWhile_le)+
  have n2': "n2 = length (takeWhile (\<lambda>b. 1 \<le> b) (map (\<lambda>b. b XOR 0x7F) bs))"
    by (simp add: n2_def takeWhile_map comp_def one_le_u8 xor_eq_0_u8)
  have flag: "byte_flag (flagged (word_of_codes bs)) j \<longleftrightarrow>
      byte_flag (below (word_of_codes bs) k_SPACES) j \<or>
      byte_flag (below (word_of_codes (map (\<lambda>b. b XOR 0x7F) bs)) k_ONES) j" for j
    by (simp add: flagged_def byte_flag_def bit_or_iff xor_dels [OF assms(1)])
  have S: "(\<forall>j < n1. \<not> byte_flag (below (word_of_codes bs) k_SPACES) j) \<and>
      (n1 < 8 \<longrightarrow> byte_flag (below (word_of_codes bs) k_SPACES) n1)"
    using below_flag_lowest [of bs "0x20" n1] assms(1) le
    by (simp add: byte_flag_below k_SPACES_codes n1_def)
  have D: "(\<forall>j < n2. \<not> byte_flag (below (word_of_codes (map (\<lambda>b. b XOR 0x7F) bs)) k_ONES) j) \<and>
      (n2 < 8 \<longrightarrow> byte_flag (below (word_of_codes (map (\<lambda>b. b XOR 0x7F) bs)) k_ONES) n2)"
    using below_flag_lowest [of "map (\<lambda>b. b XOR 0x7F) bs" 1 n2] assms(1) le
    by (simp add: byte_flag_below k_ONES_codes n2')
  show "j < i \<Longrightarrow> \<not> byte_flag (flagged (word_of_codes bs)) j"
    using S D by (simp add: i flag)
  show "i < 8 \<Longrightarrow> byte_flag (flagged (word_of_codes bs)) i"
    using S D by (auto simp: i flag min_def split: if_splits)
qed

lemma bit_flagged: "bit (flagged w) n \<Longrightarrow> \<exists>j<8. n = 8 * j + 7 \<and> byte_flag (flagged w) j"
proof -
  assume f: "bit (flagged w) n"
  then have "n mod 8 = 7" and "n < 64"
    by (auto simp: flagged_def bit_or_iff bit_below)
  then have "n = 8 * (n div 8) + 7" and "n div 8 < 8" by presburger+
  then show ?thesis using f by (auto simp: byte_flag_def)
qed

theorem flagged_first_control:
  assumes "length bs = 8" and "i = length (takeWhile (\<lambda>b. \<not> is_control_code b) bs)"
  shows "flagged (word_of_codes bs) = 0 \<longleftrightarrow> i = 8"
    and "i < 8 \<Longrightarrow> countr_zero (flagged (word_of_codes bs)) div 8 = i"
proof -
  let ?f = "flagged (word_of_codes bs)"
  have le: "i \<le> 8"
    unfolding assms(2) assms(1) [symmetric] by (rule length_takeWhile_le)
  show "?f = 0 \<longleftrightarrow> i = 8"
  proof
    assume "?f = 0"
    then have "\<not> i < 8" using flagged_bytes(2) [OF assms] by (auto simp: byte_flag_def)
    then show "i = 8" using le by simp
  next
    assume "i = 8"
    then have "\<not> bit ?f n" for n
      using bit_flagged flagged_bytes(1) [OF assms] by blast
    then show "?f = 0" by (simp add: bit_eq_iff)
  qed
  assume i: "i < 8"
  have "countr_zero ?f = 8 * i + 7"
  proof (rule countr_zero_eq)
    show "bit ?f (8 * i + 7)"
      using flagged_bytes(2) [OF assms i] by (simp add: byte_flag_def)
    fix m assume "m < 8 * i + 7"
    then show "\<not> bit ?f m"
      using bit_flagged [of "word_of_codes bs" m] flagged_bytes(1) [OF assms] by auto
  qed
  then show "countr_zero ?f div 8 = i" by simp
qed

end
