(* ===== verification/To_Chars.thy ===== *)
theory To_Chars
  imports Complex_Main Prelude "HOL-Library.Sublist"
begin

text \<open>
  The text \<^verbatim>\<open>std::to_chars\<close> gives a number, as the C++ standard fixes it, and the numbers such texts
  stand for.

  An integer is its decimal digits. A \<^verbatim>\<open>float\<close>, given by its 32 bits, is the shortest text that reads
  back as the same \<^verbatim>\<open>float\<close>: of all the decimals that round to it, one with the fewest digits, the
  closest of those, in fixed or in scientific notation, whichever takes fewer characters (fixed if
  neither does). A large integer in fixed notation has all its digits.
\<close>

section \<open>Integers\<close>

fun digits_of :: "nat \<Rightarrow> string" where
  "digits_of n = (if n < 10 then [char_of (48 + n)] else digits_of (n div 10) @ [char_of (48 + n mod 10)])"

declare digits_of.simps [simp del]

definition decimal_text :: "int \<Rightarrow> string" where
  "decimal_text v = (if v < 0 then CHR ''-'' # digits_of (nat (- v)) else digits_of (nat v))"

text \<open>The number that digits stand for, in base ten or sixteen, and that a decimal stands for.\<close>

definition digit_value :: "char \<Rightarrow> nat" where
  "digit_value c = (if (97 :: nat) \<le> of_char c then of_char c - 87 else of_char c - 48)"

definition digits_value :: "nat \<Rightarrow> string \<Rightarrow> nat" where
  "digits_value base t = foldl (\<lambda>a c. base * a + digit_value c) 0 t"

definition decimal_value :: "string \<Rightarrow> int" where
  "decimal_value t =
     (if prefix ''-'' t then - int (digits_value 10 (tl t)) else int (digits_value 10 t))"

lemma digits_value_snoc [simp]:
  "digits_value base (t @ [c]) = base * digits_value base t + digit_value c"
  by (simp add: digits_value_def)

lemma digits_value_Nil [simp]: "digits_value base [] = 0"
  by (simp add: digits_value_def)

lemma digits_value_zeros: "digits_value base (replicate n (CHR ''0'') @ t) = digits_value base t"
proof -
  have "foldl (\<lambda>a c. base * a + digit_value c) 0 (replicate n (CHR ''0'')) = 0"
    by (induction n) (simp_all add: digit_value_def)
  then show ?thesis by (simp add: digits_value_def)
qed

lemma digit_char:
  "n < 10 \<Longrightarrow> digit_value (char_of (48 + n)) = n \<and> char_of (48 + n) \<noteq> CHR ''-'' \<and>
     char_of (48 + n) \<noteq> CHR '' ''"
proof -
  assume n: "n < 10"
  then have v: "of_char (char_of (48 + n) :: char) = 48 + n" by simp
  moreover have "of_char (CHR ''-'') = (45 :: nat)" "of_char (CHR '' '') = (32 :: nat)" by simp_all
  ultimately show ?thesis
    using n by (auto simp: digit_value_def dest!: arg_cong [of _ _ "of_char :: char \<Rightarrow> nat"])
qed

lemma digits_of_value: "digits_value 10 (digits_of n) = n"
proof (induction n rule: digits_of.induct)
  case (1 n)
  then show ?case
    by (subst digits_of.simps) (simp add: digit_char digits_value_def [of 10 "[_]"])
qed

lemma digits_of_nonempty [simp]: "digits_of n \<noteq> []"
  by (subst digits_of.simps) simp

lemma digits_of_chars: "c \<in> set (digits_of n) \<Longrightarrow> c \<noteq> CHR ''-'' \<and> c \<noteq> CHR '' ''"
proof (induction n rule: digits_of.induct)
  case (1 n)
  then show ?case
    by (subst (asm) (2) digits_of.simps) (auto simp: digit_char split: if_splits)
qed

lemma length_digits_of: "n < 10 ^ Suc k \<Longrightarrow> length (digits_of n) \<le> Suc k"
proof (induction k arbitrary: n)
  case 0
  then show ?case by (subst digits_of.simps) simp
next
  case (Suc k)
  have "n div 10 < 10 ^ Suc k" using Suc.prems by (simp add: less_mult_imp_div_less)
  then show ?case using Suc.IH [of "n div 10"] by (subst digits_of.simps) simp
qed

lemma decimal_round_trip: "decimal_value (decimal_text v) = v"
proof -
  have "\<not> prefix ''-'' (digits_of n)" for n
    using digits_of_chars [of _ n] by (cases "digits_of n") auto
  then show ?thesis by (auto simp: decimal_value_def decimal_text_def digits_of_value)
qed

text \<open>The same digits of an \<open>int\<close>, which evaluate by binary arithmetic.\<close>

definition int_digits :: "int \<Rightarrow> string" where
  "int_digits n = digits_of (nat n)"

lemma int_digits_code [code]:
  "int_digits n =
     (if n < 10 then [char_of (48 + nat n)] else int_digits (n div 10) @ [char_of (48 + nat (n mod 10))])"
proof (cases "n < 10")
  case True
  then show ?thesis by (simp add: int_digits_def digits_of.simps [of "nat n"])
next
  case False
  then have "nat (n div 10) = nat n div 10" "nat (n mod 10) = nat n mod 10" "\<not> nat n < 10"
    by (simp_all add: nat_div_distrib nat_mod_distrib)
  moreover from this(3) have "digits_of (nat n) = digits_of (nat n div 10) @ [char_of (48 + nat n mod 10)]"
    by (subst digits_of.simps) (simp only: if_False)
  ultimately show ?thesis using False by (simp only: int_digits_def if_False)
qed

section \<open>The numbers a float stands for\<close>

text \<open>
  The fields of the 32 bits; a finite value is the significand times a power of two, negated if the sign
  bit is set. Next to it, the number a decimal of digits \<open>d\<close> and exponent \<open>k\<close> stands for.
\<close>

definition float_fraction :: "u32 \<Rightarrow> int" where
  "float_fraction bits = uint (bits AND 0x7FFFFF)"

definition float_biased :: "u32 \<Rightarrow> int" where
  "float_biased bits = uint (drop_bit 23 bits AND 0xFF)"

definition float_significand :: "u32 \<Rightarrow> int" where
  "float_significand bits =
     (if float_biased bits = 0 then float_fraction bits else 2 ^ 23 + float_fraction bits)"

definition float_exponent :: "u32 \<Rightarrow> int" where
  "float_exponent bits = (if float_biased bits = 0 then - 149 else float_biased bits - 150)"

definition binary_number :: "int \<Rightarrow> int \<Rightarrow> rat" where
  "binary_number m e = of_int m * 2 powi e"

definition decimal_number :: "int \<Rightarrow> int \<Rightarrow> rat" where
  "decimal_number d k = of_int d * 10 powi k"

definition is_finite :: "u32 \<Rightarrow> bool" where
  "is_finite bits \<longleftrightarrow> float_biased bits \<noteq> 255"

definition float_number :: "u32 \<Rightarrow> rat" where
  "float_number bits =
     (if bit bits 31 then - binary_number (float_significand bits) (float_exponent bits)
      else binary_number (float_significand bits) (float_exponent bits))"

section \<open>The shortest decimal that rounds to a float\<close>

text \<open>
  The numbers that round to a positive float, to nearest and to even: up to half the distance to the floats
  next to it. The one below is closer when the significand is the smallest of its power of two.
\<close>

definition gap_below :: "int \<Rightarrow> int \<Rightarrow> rat" where
  "gap_below m e = (if m = 2 ^ 23 \<and> - 149 < e then 2 powi e / 2 else 2 powi e)"

definition rounds_to :: "int \<Rightarrow> int \<Rightarrow> rat \<Rightarrow> bool" where
  "rounds_to m e x \<longleftrightarrow>
     (let lo = binary_number m e - gap_below m e / 2; hi = binary_number m e + 2 powi e / 2
      in if even m then lo \<le> x \<and> x \<le> hi else lo < x \<and> x < hi)"

text \<open>The power of ten a number starts at, searched downwards.\<close>

function exponent_from :: "rat \<Rightarrow> int \<Rightarrow> int" where
  "exponent_from v d = (if 10 powi d \<le> v \<or> d \<le> - 45 then d else exponent_from v (d - 1))"
  by pat_completeness auto
termination by (relation "measure (\<lambda>(v, d). nat (d + 45))") auto

declare exponent_from.simps [simp del]

definition decimal_exponent :: "rat \<Rightarrow> int" where
  "decimal_exponent v = exponent_from v 38"

text \<open>
  With \<open>n\<close> digits, only the two decimals around the value can be closest; the shortest decimal has the
  fewest digits for which one of them rounds to the value, and no zero at its end.
\<close>

definition closer :: "rat \<Rightarrow> int \<Rightarrow> int \<Rightarrow> int" where
  "closer v k d =
     (let a = v - decimal_number d k; b = decimal_number (d + 1) k - v
      in if a < b then d else if b < a then d + 1 else if even d then d else d + 1)"

definition candidate :: "int \<Rightarrow> int \<Rightarrow> nat \<Rightarrow> (int \<times> int) option" where
  "candidate m e n =
     (let v = binary_number m e; k = decimal_exponent v - int n + 1; d = floor (v / 10 powi k);
          below = rounds_to m e (decimal_number d k);
          above = rounds_to m e (decimal_number (d + 1) k)
      in if below \<and> above then Some (closer v k d, k)
         else if below then Some (d, k)
         else if above then Some (d + 1, k)
         else None)"

function strip_zeros :: "int \<times> int \<Rightarrow> int \<times> int" where
  "strip_zeros (d, k) = (if 0 < d \<and> d mod 10 = 0 then strip_zeros (d div 10, k + 1) else (d, k))"
  by pat_completeness auto
termination by (relation "measure (\<lambda>(d, k). nat d)") auto

declare strip_zeros.simps [simp del]

definition shortest_decimal :: "int \<Rightarrow> int \<Rightarrow> int \<times> int" where
  "shortest_decimal m e = strip_zeros (hd (List.map_filter (candidate m e) [1..<10]))"

text \<open>Evaluated, the search stops at the first length that has a candidate.\<close>

primrec first_some :: "('a \<Rightarrow> 'b option) \<Rightarrow> 'a list \<Rightarrow> 'b" where
  "first_some f [] = hd []"
| "first_some f (x # xs) = (case f x of Some y \<Rightarrow> y | None \<Rightarrow> first_some f xs)"

lemma hd_map_filter: "hd (List.map_filter f xs) = first_some f xs"
  by (induction xs) (simp_all split: option.splits)

lemma shortest_decimal_code [code]:
  "shortest_decimal m e = strip_zeros (first_some (candidate m e) [1..<10])"
  by (simp only: shortest_decimal_def hd_map_filter)

section \<open>The text of a float\<close>

definition exponent_text :: "int \<Rightarrow> string" where
  "exponent_text x =
     CHR ''e'' # (if x < 0 then CHR ''-'' else CHR ''+'') #
       (if \<bar>x\<bar> < 10 then CHR ''0'' # int_digits \<bar>x\<bar> else int_digits \<bar>x\<bar>)"

definition scientific_text :: "int \<Rightarrow> int \<Rightarrow> string" where
  "scientific_text d k =
     (let s = int_digits d
      in take 1 s @ (if tl s = [] then [] else CHR ''.'' # tl s) @ exponent_text (k + int (length s) - 1))"

definition fixed_text :: "rat \<Rightarrow> int \<Rightarrow> int \<Rightarrow> string" where
  "fixed_text v d k =
     (let s = int_digits d; places = nat (- k)
      in if 0 \<le> k then int_digits (floor v)
         else if places < length s then take (length s - places) s @ CHR ''.'' # drop (length s - places) s
         else ''0.'' @ replicate (places - length s) (CHR ''0'') @ s)"

definition magnitude_text :: "int \<Rightarrow> int \<Rightarrow> string" where
  "magnitude_text m e =
     (let (d, k) = shortest_decimal m e;
          fixed = fixed_text (binary_number m e) d k;
          scientific = scientific_text d k
      in if length fixed \<le> length scientific then fixed else scientific)"

definition float_text :: "u32 \<Rightarrow> string" where
  "float_text bits =
     (if bit bits 31 then ''-'' else []) @
     (if \<not> is_finite bits then (if float_fraction bits = 0 then ''inf'' else ''nan'')
      else if float_significand bits = 0 then ''0''
      else magnitude_text (float_significand bits) (float_exponent bits))"

section \<open>Nine digits are enough\<close>

definition float_pair :: "int \<Rightarrow> int \<Rightarrow> bool" where
  "float_pair m e \<longleftrightarrow> 0 < m \<and> m < 2 ^ 24 \<and> - 149 \<le> e \<and> e \<le> 104 \<and> (2 ^ 23 \<le> m \<or> e = - 149)"

lemma float_fields:
  "0 \<le> float_fraction bits" "float_fraction bits < 2 ^ 23" "0 \<le> float_biased bits" "float_biased bits < 2 ^ 8"
proof -
  have "bits AND 0x7FFFFF = take_bit 23 bits" "drop_bit 23 bits AND 0xFF = take_bit 8 (drop_bit 23 bits)"
    by (simp_all add: take_bit_eq_mask mask_eq_exp_minus_1)
  then show "0 \<le> float_fraction bits" "float_fraction bits < 2 ^ 23" "0 \<le> float_biased bits"
    "float_biased bits < 2 ^ 8"
    by (simp_all add: float_fraction_def float_biased_def unsigned_take_bit_eq take_bit_int_less_exp
        del: unsigned_numeral power_numeral)
qed

lemma float_pair_of_bits:
  "is_finite bits \<Longrightarrow> float_significand bits \<noteq> 0 \<Longrightarrow> float_pair (float_significand bits) (float_exponent bits)"
  using float_fields [of bits]
  by (auto simp: float_pair_def float_significand_def float_exponent_def is_finite_def)

lemma pow2 [simp]: "(0 :: rat) < 2 powi e" and pow10 [simp]: "(0 :: rat) < 10 powi k"
  by simp_all

lemma pow10_Suc: "(10 :: rat) powi (k + 1) = 10 * 10 powi k"
  by (simp add: power_int_add)

lemma pow10_split: "(10 :: rat) powi (k + int n) = 10 powi k * 10 ^ n"
  by (simp add: power_int_add)

lemma binary_number_pos: "float_pair m e \<Longrightarrow> 0 < binary_number m e"
  by (simp add: float_pair_def binary_number_def)

lemma binary_number_bounds:
  assumes "float_pair m e"
  shows "10 powi (- 45) \<le> binary_number m e" "binary_number m e < 10 powi 39"
    "binary_number m e < 2 ^ 24 * 2 powi e"
proof -
  have m: "1 \<le> (of_int m :: rat)" "(of_int m :: rat) < 2 ^ 24" and e: "- 149 \<le> e" "e \<le> 104"
    using assms by (simp_all add: float_pair_def del: power_numeral)
  have "(10 :: rat) powi (- 45) \<le> 2 powi (- 149)"
    by (simp add: power_int_minus field_simps)
  also have "\<dots> \<le> 2 powi e" using e by (intro power_int_increasing) auto
  also have "\<dots> \<le> of_int m * 2 powi e" using m(1) by simp
  finally show "10 powi (- 45) \<le> binary_number m e" by (simp add: binary_number_def)
  show lt: "binary_number m e < 2 ^ 24 * 2 powi e"
    using m(2) by (simp add: binary_number_def)
  also have "\<dots> \<le> 2 ^ 24 * 2 powi 104"
    using e by (intro mult_left_mono power_int_increasing) auto
  also have "\<dots> < 10 powi 39" by simp
  finally show "binary_number m e < 10 powi 39" .
qed

lemma exponent_from_bounds:
  assumes "10 powi (- 45) \<le> v" and "v < 10 powi (d + 1)" and "- 45 \<le> d"
  shows "10 powi (exponent_from v d) \<le> v \<and> v < 10 powi (exponent_from v d + 1) \<and>
    - 45 \<le> exponent_from v d \<and> exponent_from v d \<le> d"
  using assms
proof (induction v d rule: exponent_from.induct)
  case (1 v d)
  show ?case
  proof (cases "10 powi d \<le> v \<or> d \<le> - 45")
    case True
    then have "10 powi d \<le> v" using 1(2,4) by auto
    then show ?thesis using True 1(3,4) by (simp add: exponent_from.simps [of v d])
  next
    case False
    then show ?thesis using 1(1) 1(2) by (simp add: exponent_from.simps [of v d])
  qed
qed

lemma decimal_exponent_bounds:
  assumes "float_pair m e"
  defines "x \<equiv> decimal_exponent (binary_number m e)"
  shows "10 powi x \<le> binary_number m e" "binary_number m e < 10 powi (x + 1)" "- 45 \<le> x" "x \<le> 38"
  using exponent_from_bounds [of "binary_number m e" 38] binary_number_bounds [OF assms(1)]
  by (simp_all add: x_def decimal_exponent_def)

text \<open>The decimal of \<open>n\<close> digits below a value, in units of \<open>10 ^ k\<close>.\<close>

definition unit_of :: "int \<Rightarrow> int \<Rightarrow> nat \<Rightarrow> int" where
  "unit_of m e n = decimal_exponent (binary_number m e) - int n + 1"

definition digits_below :: "int \<Rightarrow> int \<Rightarrow> nat \<Rightarrow> int" where
  "digits_below m e n = floor (binary_number m e / 10 powi unit_of m e n)"

lemma digits_below_bounds:
  assumes "float_pair m e" and "1 \<le> n"
  defines "d \<equiv> digits_below m e n" and "k \<equiv> unit_of m e n"
  shows "decimal_number d k \<le> binary_number m e" "binary_number m e < decimal_number (d + 1) k"
    "10 ^ (n - 1) \<le> d" "d < 10 ^ n"
proof -
  let ?v = "binary_number m e" and ?t = "10 powi k :: rat"
  have d: "of_int d \<le> ?v / ?t" "?v / ?t < of_int (d + 1)"
    using floor_correct [of "?v / ?t"] by (simp_all add: d_def digits_below_def k_def)
  then show "decimal_number d k \<le> ?v" "?v < decimal_number (d + 1) k"
    by (simp_all add: decimal_number_def pos_le_divide_eq pos_divide_less_eq)
  have x: "decimal_exponent ?v = k + int (n - 1)" "decimal_exponent ?v + 1 = k + int n"
    using assms(2) by (simp_all add: k_def unit_of_def)
  have "10 powi k * 10 ^ (n - 1) \<le> ?v" "?v < 10 powi k * 10 ^ n"
    using decimal_exponent_bounds(1,2) [OF assms(1)] unfolding x(2) unfolding x(1) pow10_split .
  then have "10 ^ (n - 1) \<le> ?v / ?t" "?v / ?t < 10 ^ n"
    by (simp_all add: pos_le_divide_eq pos_divide_less_eq mult.commute)
  then have "(10 :: rat) ^ (n - 1) < of_int (d + 1)" "of_int d < (10 :: rat) ^ n"
    using d by linarith+
  then have "(of_int (10 ^ (n - 1)) :: rat) < of_int (d + 1)" "(of_int d :: rat) < of_int (10 ^ n)"
    by simp_all
  then show "10 ^ (n - 1) \<le> d" "d < 10 ^ n"
    unfolding of_int_less_iff by simp_all
qed

lemma candidate_eq:
  "candidate m e n =
     (let k = unit_of m e n; d = digits_below m e n;
          below = rounds_to m e (decimal_number d k);
          above = rounds_to m e (decimal_number (d + 1) k)
      in if below \<and> above then Some (closer (binary_number m e) k d, k)
         else if below then Some (d, k)
         else if above then Some (d + 1, k)
         else None)"
  by (simp add: candidate_def unit_of_def digits_below_def Let_def)

lemma candidate_spec:
  assumes "float_pair m e" and "1 \<le> n" and "candidate m e n = Some (d, k)"
  shows "rounds_to m e (decimal_number d k)" "10 ^ (n - 1) \<le> d" "d \<le> 10 ^ n" "k = unit_of m e n"
proof -
  have "d = digits_below m e n \<or> d = digits_below m e n + 1"
    "rounds_to m e (decimal_number d k)" "k = unit_of m e n"
    using assms(3) unfolding candidate_eq Let_def by (auto simp: closer_def Let_def split: if_splits)
  then show "rounds_to m e (decimal_number d k)" "10 ^ (n - 1) \<le> d" "d \<le> 10 ^ n" "k = unit_of m e n"
    using digits_below_bounds(3,4) [OF assms(1,2)] by auto
qed

lemma gap_below_bounds: "2 powi e / 2 \<le> gap_below m e" "gap_below m e \<le> 2 powi e"
  by (simp_all add: gap_below_def)

text \<open>Half a unit of the ninth digit is less than a quarter of the distance between floats.\<close>

lemma candidate_nine:
  assumes "float_pair m e"
  shows "candidate m e 9 \<noteq> None"
proof -
  let ?v = "binary_number m e" and ?u = "2 powi e :: rat" and ?k = "unit_of m e 9" and ?d = "digits_below m e 9"
  let ?t = "10 powi ?k :: rat"
  have "decimal_exponent ?v = ?k + int 8" by (simp add: unit_of_def)
  then have "?t * 10 ^ 8 \<le> ?v"
    using decimal_exponent_bounds(1) [OF assms] by (simp only: pow10_split)
  then have "?t * 10 ^ 8 < 2 ^ 24 * ?u" using binary_number_bounds(3) [OF assms] by linarith
  then have "?t * 390625 < 65536 * ?u" by simp
  then have t: "?t * 5 < ?u" using pow10 [of ?k] by linarith
  have up: "decimal_number (?d + 1) ?k = decimal_number ?d ?k + ?t"
    by (simp add: decimal_number_def algebra_simps)
  note b = digits_below_bounds(1,2) [OF assms, of 9, unfolded up]
  have "rounds_to m e (decimal_number ?d ?k) \<or> rounds_to m e (decimal_number (?d + 1) ?k)"
    using b t gap_below_bounds [of e m] up by (auto simp: rounds_to_def Let_def)
  then show ?thesis by (auto simp: candidate_eq Let_def)
qed

lemma strip_zeros_spec:
  assumes "0 < d" and "strip_zeros (d, k) = (d', k')"
  shows "decimal_number d' k' = decimal_number d k \<and> 0 < d' \<and> d' mod 10 \<noteq> 0 \<and> d' \<le> d \<and> k \<le> k'"
  using assms
proof (induction "(d, k)" arbitrary: d k rule: strip_zeros.induct)
  case (1 d k)
  show ?case
  proof (cases "d mod 10 = 0")
    case True
    then have pos: "0 < d div 10" "d div 10 \<le> d" using 1(2) by auto
    have eq: "strip_zeros (d div 10, k + 1) = (d', k')"
      using 1(2,3) True by (simp add: strip_zeros.simps [of d k])
    have "of_int (10 * (d div 10)) = (of_int d :: rat)" using True by auto
    then have num: "decimal_number (d div 10) (k + 1) = decimal_number d k"
      unfolding decimal_number_def pow10_Suc of_int_mult by (simp add: mult.assoc [symmetric] mult.commute)
    have "0 < d \<and> d mod 10 = 0" using 1(2) True by simp
    from 1(1) [OF this pos(1) eq] num pos(2) show ?thesis by simp
  next
    case False
    then show ?thesis using 1(2,3) by (simp add: strip_zeros.simps [of d k])
  qed
qed

lemma stripped_digits:
  assumes "1 \<le> n" and "d \<le> d0" and "d0 \<le> 10 ^ n" and "d mod 10 \<noteq> 0"
  shows "d < (10 :: int) ^ n"
proof -
  have "(10 :: int) ^ n mod 10 = 0" using assms(1) by (cases n) auto
  then have "d \<noteq> 10 ^ n" using assms(4) by auto
  then show ?thesis using assms(2,3) by linarith
qed

lemma shortest_of_candidates:
  assumes "float_pair m e"
  obtains n d k where "1 \<le> n" "n \<le> 9" "candidate m e n = Some (d, k)" "shortest_decimal m e = strip_zeros (d, k)"
    "\<And>j. 1 \<le> j \<Longrightarrow> j < n \<Longrightarrow> candidate m e j = None"
proof -
  let ?P = "\<lambda>n. candidate m e n \<noteq> None"
  obtain n where "find ?P [1..<10] = Some n"
    using candidate_nine [OF assms] by (cases "find ?P [1..<10]") (auto simp: find_None_iff)
  then obtain i where i: "i < 9" "n = [1..<10] ! i" "?P n" "\<forall>j<i. \<not> ?P ([1..<10] ! j)"
    by (auto simp: find_Some_iff)
  then have n: "n = i + 1" by (simp add: nth_upt)
  then obtain d k where c: "candidate m e n = Some (d, k)" using i(3) by auto
  have none: "candidate m e j = None" if "1 \<le> j" "j < n" for j
    using i(4) [rule_format, of "j - 1"] that n i(1) by (simp add: nth_upt del: not_None_eq)
  have "[1..<10] = [1..<n] @ [n..<10]" "[n..<10] = n # [Suc n..<10]"
    using n i(1) upt_add_eq_append [of 1 n "10 - n"] upt_conv_Cons [of n 10] by (simp_all del: upt_Suc upt_rec_numeral)
  then have "List.map_filter (candidate m e) [1..<10] =
      List.map_filter (candidate m e) [1..<n] @ (d, k) # List.map_filter (candidate m e) [Suc n..<10]"
    by (simp add: List.map_filter_def c del: upt_Suc upt_rec_numeral)
  moreover have "List.map_filter (candidate m e) [1..<n] = []"
    using none by (auto simp: List.map_filter_def filter_empty_conv)
  ultimately have "shortest_decimal m e = strip_zeros (d, k)" by (simp add: shortest_decimal_def)
  then show ?thesis using that [of n d k] n i(1) c none by simp
qed

lemma digits_of_size: "n < 10 ^ length (digits_of n)" "0 < n \<Longrightarrow> 10 ^ (length (digits_of n) - 1) \<le> n"
proof (induction n rule: digits_of.induct)
  case (1 n)
  case 1
  then show ?case using "1.IH"(1) by (subst digits_of.simps) auto
next
  case (1 n)
  case 2
  show ?case
  proof (cases "n < 10")
    case True
    then show ?thesis using 2 by (subst digits_of.simps) simp
  next
    case False
    then have "10 ^ (length (digits_of (n div 10)) - 1) * 10 \<le> n div 10 * 10"
      using "1.IH"(2) [OF False] by (intro mult_le_mono1) auto
    moreover have "length (digits_of (n div 10)) \<noteq> 0" by simp
    ultimately have "10 ^ length (digits_of (n div 10)) \<le> n"
      by (metis (no_types, lifting) div_times_less_eq_dividend mult.commute order_trans power_eq_if)
    then show ?thesis using False by (subst digits_of.simps) simp
  qed
qed

lemma int_digits_size:
  assumes "0 < d"
  shows "10 ^ (length (int_digits d) - 1) \<le> d" "d < 10 ^ length (int_digits d)" "1 \<le> length (int_digits d)"
    "d < 10 ^ n \<Longrightarrow> length (int_digits d) \<le> n"
proof -
  show low: "10 ^ (length (int_digits d) - 1) \<le> d" and "d < 10 ^ length (int_digits d)"
    using digits_of_size [of "nat d"] assms by (auto simp: int_digits_def nat_less_iff le_nat_iff)
  show pos: "1 \<le> length (int_digits d)" by (simp add: int_digits_def Suc_leI)
  assume "d < 10 ^ n"
  with low have "(10 :: int) ^ (length (int_digits d) - 1) < 10 ^ n" by linarith
  then have "length (int_digits d) - 1 < n" by (rule power_less_imp_less_exp [rotated]) simp
  with pos show "length (int_digits d) \<le> n" by linarith
qed

lemma shortest_decimal_spec:
  assumes "float_pair m e" and "shortest_decimal m e = (d, k)"
  shows "rounds_to m e (decimal_number d k)" "0 < d" "length (int_digits d) \<le> 9" "- 53 \<le> k"
    "decimal_number d k \<le> 10 powi 39"
proof -
  obtain n d0 k0 where n: "1 \<le> n" "n \<le> 9" "candidate m e n = Some (d0, k0)"
      "strip_zeros (d0, k0) = (d, k)"
    using shortest_of_candidates [OF assms(1)] assms(2) by metis
  note c = candidate_spec [OF assms(1) n(1,3)]
  note x = decimal_exponent_bounds(3,4) [OF assms(1)]
  have "0 < d0" using c(2) by (meson less_le_trans zero_less_numeral zero_less_power)
  note z = strip_zeros_spec [OF this n(4)]
  then show "rounds_to m e (decimal_number d k)" "0 < d" using c(1) by simp_all
  have "d < 10 ^ n" using stripped_digits [OF n(1)] c(3) z by auto
  then show "length (int_digits d) \<le> 9" using int_digits_size(4) [of d n] z n(2) by linarith
  show "- 53 \<le> k" using z x(1) n(2) c(4) by (simp add: unit_of_def)
  have "decimal_number d k = of_int d0 * 10 powi k0" using z by (simp add: decimal_number_def)
  also have "\<dots> \<le> of_int (10 ^ n) * 10 powi k0"
    using c(3) by (intro mult_right_mono) (simp_all only: of_int_le_iff pow10 less_imp_le)
  also have "\<dots> = 10 powi (k0 + int n)" by (simp add: pow10_split mult.commute)
  also have "\<dots> \<le> 10 powi 39" using x(2) c(4) by (intro power_int_increasing) (auto simp: unit_of_def)
  finally show "decimal_number d k \<le> 10 powi 39" .
qed

lemma exponent_size:
  assumes "float_pair m e" and "shortest_decimal m e = (d, k)"
  shows "\<bar>k + int (length (int_digits d)) - 1\<bar> < 100"
proof -
  note s = shortest_decimal_spec [OF assms]
  let ?n = "length (int_digits d) - 1"
  note l = int_digits_size(1,3) [OF s(2)]
  have "(10 :: rat) powi (k + int ?n) = of_int (10 ^ ?n) * 10 powi k" by (simp add: pow10_split mult.commute)
  also have "\<dots> \<le> decimal_number d k"
    unfolding decimal_number_def using l(1) by (intro mult_right_mono) (simp_all only: of_int_le_iff pow10 less_imp_le)
  also have "\<dots> \<le> 10 powi 39" by (rule s(5))
  finally have "k + int ?n \<le> 39" by (metis not_le one_less_numeral_iff power_int_strict_increasing semiring_norm(76))
  then show ?thesis using s(4) l(2) by (simp add: of_nat_diff)
qed

lemma length_exponent_text:
  assumes "\<bar>x\<bar> < 100"
  shows "length (exponent_text x) = 4"
proof (cases "\<bar>x\<bar> < 10")
  case True
  then show ?thesis by (simp add: exponent_text_def int_digits_code [of "\<bar>x\<bar>"])
next
  case False
  then have "0 < \<bar>x\<bar> div 10" "\<bar>x\<bar> div 10 < 10" using assms by linarith+
  then show ?thesis
    using False int_digits_code [of "\<bar>x\<bar> div 10"] by (simp add: exponent_text_def int_digits_code [of "\<bar>x\<bar>"])
qed

lemma length_scientific_text:
  assumes "float_pair m e" and "shortest_decimal m e = (d, k)"
  shows "length (scientific_text d k) \<le> 14"
proof -
  let ?s = "int_digits d"
  have "length ?s \<le> 9" "length (exponent_text (k + int (length ?s) - 1)) = 4"
    using shortest_decimal_spec(3) [OF assms] length_exponent_text exponent_size [OF assms] by simp_all
  then show ?thesis by (auto simp: scientific_text_def Let_def)
qed

lemma length_magnitude_text:
  assumes "float_pair m e"
  shows "length (magnitude_text m e) \<le> 14"
proof -
  obtain d k where eq: "shortest_decimal m e = (d, k)" by fastforce
  show ?thesis using length_scientific_text [OF assms eq] by (simp add: magnitude_text_def eq Let_def)
qed

text \<open>
  The buffer \<^verbatim>\<open>append_float\<close> hands to \<^verbatim>\<open>std::to_chars\<close> is never too small.
\<close>

lemma float_text_fits: "length (float_text bits) \<le> 15"
proof (cases "is_finite bits \<and> float_significand bits \<noteq> 0")
  case True
  then have "length (magnitude_text (float_significand bits) (float_exponent bits)) \<le> 14"
    by (intro length_magnitude_text float_pair_of_bits) simp_all
  then show ?thesis using True by (simp add: float_text_def)
next
  case False
  then show ?thesis by (auto simp: float_text_def)
qed

section \<open>Rounding is to the nearest float\<close>

lemma float_neighbours:
  assumes "float_pair m e" and "float_pair m' e'" and "binary_number m' e' \<noteq> binary_number m e"
  shows "binary_number m e + 2 powi e \<le> binary_number m' e' \<or>
    binary_number m' e' \<le> binary_number m e - gap_below m e"
proof (cases "e \<le> e'")
  case True
  define j where "j = m' * 2 ^ nat (e' - e)"
  have "(2 :: rat) powi e' = 2 powi e * 2 ^ nat (e' - e)"
    using True power_int_add [of "2 :: rat" e "e' - e"] by (simp add: power_int_def)
  then have w: "binary_number m' e' = of_int j * 2 powi e"
    by (simp add: binary_number_def j_def)
  then have "j \<noteq> m" using assms(3) by (auto simp: binary_number_def)
  then have "m + 1 \<le> j \<or> j \<le> m - 1" by linarith
  then have "(of_int (m + 1) :: rat) \<le> of_int j \<or> (of_int j :: rat) \<le> of_int (m - 1)"
    unfolding of_int_le_iff .
  then have "of_int (m + 1) * 2 powi e \<le> binary_number m' e' \<or> binary_number m' e' \<le> of_int (m - 1) * 2 powi e"
    unfolding w using mult_right_mono [OF _ less_imp_le [OF pow2 [of e]]] by blast
  then show ?thesis
    using gap_below_bounds(2) [of m e] by (auto simp: binary_number_def algebra_simps)
next
  case False
  have "- 149 < e" using False assms(2) by (simp add: float_pair_def)
  then have m: "2 ^ 23 \<le> m" using assms(1) by (simp add: float_pair_def)
  have "2 powi e' \<le> (2 :: rat) powi (e - 1)" using False by (intro power_int_increasing) auto
  then have u: "2 powi e' \<le> (2 :: rat) powi e / 2" by (simp add: power_int_diff)
  have "m' \<le> 2 ^ 24 - 1" using assms(2) by (simp add: float_pair_def)
  then have "binary_number m' e' \<le> of_int (2 ^ 24 - 1) * 2 powi e'"
    unfolding binary_number_def by (intro mult_right_mono) (simp_all only: of_int_le_iff pow2 less_imp_le)
  also have "\<dots> \<le> of_int (2 ^ 24 - 1) * (2 powi e / 2)" using u by (intro mult_left_mono) simp_all
  finally have w: "binary_number m' e' \<le> 2 ^ 23 * 2 powi e - 2 powi e / 2" by simp
  show ?thesis
  proof (cases "m = 2 ^ 23")
    case True
    then show ?thesis using w \<open>- 149 < e\<close> by (simp add: gap_below_def binary_number_def)
  next
    case False
    then have "2 ^ 23 + 1 \<le> m" using m by simp
    then have "of_int (2 ^ 23 + 1) * 2 powi e \<le> binary_number m e"
      unfolding binary_number_def by (intro mult_right_mono) (simp_all only: of_int_le_iff pow2 less_imp_le)
    then have "2 ^ 23 * 2 powi e + 2 powi e \<le> binary_number m e" by (simp add: algebra_simps)
    then show ?thesis using w gap_below_bounds(2) [of m e] pow2 [of e] by linarith
  qed
qed

text \<open>Closer to \<open>v\<close> than to \<open>w\<close>, or as close, and then \<open>v\<close> is the even one.\<close>

definition nearer :: "rat \<Rightarrow> int \<Rightarrow> rat \<Rightarrow> rat \<Rightarrow> bool" where
  "nearer x m v w \<longleftrightarrow> \<bar>x - v\<bar> < \<bar>x - w\<bar> \<or> (even m \<and> \<bar>x - v\<bar> = \<bar>x - w\<bar>)"

lemma rounds_to_nearer:
  assumes "float_pair m e" and "rounds_to m e x"
    and "binary_number m e + 2 powi e \<le> w \<or> w \<le> binary_number m e - gap_below m e"
  shows "nearer x m (binary_number m e) w"
proof -
  define v u g where "v = binary_number m e" and "u = (2 :: rat) powi e" and "g = gap_below m e"
  have g: "0 < u" "u / 2 \<le> g" "g \<le> u" using gap_below_bounds(1) [of e m] gap_below_bounds(2) [of m e]
    by (simp_all add: u_def g_def)
  have x: "v - g / 2 \<le> x" "x \<le> v + u / 2" "odd m \<longrightarrow> v - g / 2 < x \<and> x < v + u / 2"
    using assms(2) by (auto simp: rounds_to_def Let_def v_def u_def g_def split: if_splits)
  have w: "v + u \<le> w \<or> w \<le> v - g" using assms(3) by (simp add: v_def u_def g_def)
  show ?thesis
    unfolding nearer_def v_def [symmetric] using g x w by (cases "even m") (auto simp: abs_if)
qed

lemma rounds_to_positive:
  assumes "float_pair m e" and "rounds_to m e x" and "w \<le> 0"
  shows "nearer x m (binary_number m e) w"
proof (rule rounds_to_nearer [OF assms(1,2)])
  have "1 * 2 powi e \<le> binary_number m e"
    unfolding binary_number_def using assms(1) by (intro mult_right_mono) (simp_all add: float_pair_def)
  then show "binary_number m e + 2 powi e \<le> w \<or> w \<le> binary_number m e - gap_below m e"
    using assms(3) gap_below_bounds(2) [of m e] by auto
qed

section \<open>The number a text stands for\<close>

definition exponent_number :: "string \<Rightarrow> int" where
  "exponent_number t =
     (case t of [] \<Rightarrow> 0
      | sign # ds \<Rightarrow> if sign = CHR ''-'' then - int (digits_value 10 ds) else int (digits_value 10 ds))"

definition unsigned_number :: "string \<Rightarrow> rat" where
  "unsigned_number t =
     (let mantissa = takeWhile (\<lambda>c. c \<noteq> CHR ''e'') t; exponent = drop (length mantissa + 1) t;
          whole = takeWhile (\<lambda>c. c \<noteq> CHR ''.'') mantissa; fraction = drop (length whole + 1) mantissa
      in of_nat (digits_value 10 (whole @ fraction)) / 10 ^ length fraction * 10 powi exponent_number exponent)"

definition number_of_text :: "string \<Rightarrow> rat" where
  "number_of_text t = (if prefix ''-'' t then - unsigned_number (tl t) else unsigned_number t)"

definition is_digit :: "char \<Rightarrow> bool" where
  "is_digit c \<longleftrightarrow> c \<in> set ''0123456789''"

definition all_digits :: "string \<Rightarrow> bool" where
  "all_digits t \<longleftrightarrow> list_all is_digit t"

lemma is_digit_chars:
  "is_digit (CHR ''0'')" "\<not> is_digit (CHR ''e'')" "\<not> is_digit (CHR ''.'')" "\<not> is_digit (CHR ''-'')"
  by code_simp+

lemma is_digit_char_of: "i < 10 \<Longrightarrow> is_digit (char_of (48 + i :: nat))"
proof -
  have "\<forall>i \<in> set [0..<10]. is_digit (char_of (48 + i :: nat))" by code_simp
  then show "i < 10 \<Longrightarrow> is_digit (char_of (48 + i :: nat))" by simp
qed

lemma all_digits_of: "all_digits (digits_of n)"
proof (induction n rule: digits_of.induct)
  case (1 n)
  then show ?case by (subst digits_of.simps) (simp add: all_digits_def is_digit_char_of)
qed

lemma all_digits_int: "all_digits (int_digits d)"
  by (simp add: int_digits_def all_digits_of)

lemma all_digits_simps [simp]:
  "all_digits []" "all_digits (replicate n (CHR ''0''))"
  "all_digits (s @ t) \<longleftrightarrow> all_digits s \<and> all_digits t" "all_digits (c # t) \<longleftrightarrow> is_digit c \<and> all_digits t"
  "all_digits s \<Longrightarrow> all_digits (take i s)" "all_digits s \<Longrightarrow> all_digits (drop i s)"
  by (auto simp: all_digits_def list_all_iff is_digit_chars dest: in_set_takeD in_set_dropD)

lemma all_digits_avoid: "all_digits s \<Longrightarrow> \<not> is_digit c \<Longrightarrow> c \<notin> set s"
  by (auto simp: all_digits_def list_all_iff)

lemma takeWhile_until:
  "c \<notin> set s \<Longrightarrow> takeWhile (\<lambda>x. x \<noteq> c) (s @ c # t) = s" "c \<notin> set s \<Longrightarrow> takeWhile (\<lambda>x. x \<noteq> c) s = s"
  by (induction s) auto

lemma value_int_digits: "0 \<le> d \<Longrightarrow> of_nat (digits_value 10 (int_digits d)) = (of_int d :: rat)"
  by (simp add: int_digits_def digits_of_value)

text \<open>Digits with a point in them and an exponent after them.\<close>

lemma unsigned_number_parts:
  assumes "all_digits a" and "all_digits b" and "ex = [] \<or> hd ex = CHR ''e''"
    and "p = [] \<and> b = [] \<or> p = ''.''"
  shows "unsigned_number (a @ p @ b @ ex) =
    of_nat (digits_value 10 (a @ b)) / 10 ^ length b * 10 powi exponent_number (tl ex)"
proof -
  have e: "CHR ''e'' \<notin> set a" "CHR ''e'' \<notin> set b" "CHR ''e'' \<notin> set p" and dot: "CHR ''.'' \<notin> set a"
    using all_digits_avoid [OF assms(1) is_digit_chars(2)] all_digits_avoid [OF assms(2) is_digit_chars(2)]
      all_digits_avoid [OF assms(1) is_digit_chars(3)] assms(4) by auto
  then have "CHR ''e'' \<notin> set (a @ p @ b)" by simp
  moreover have "ex = [] \<or> ex = CHR ''e'' # tl ex" using assms(3) by (cases ex) auto
  ultimately have mantissa: "takeWhile (\<lambda>c. c \<noteq> CHR ''e'') (a @ p @ b @ ex) = a @ p @ b"
    using takeWhile_until [of "CHR ''e''" "a @ p @ b"] by (metis append.assoc append_Nil2)
  have whole: "takeWhile (\<lambda>c. c \<noteq> CHR ''.'') (a @ p @ b) = a"
    using assms(4) takeWhile_until(1) [OF dot, of b] takeWhile_until(2) [OF dot] by (elim disjE conjE) simp_all
  have "drop (length a + 1) (a @ p @ b) = b" "drop (length (a @ p @ b) + 1) (a @ p @ b @ ex) = tl ex"
    using assms(4) by (auto simp: drop_Suc)
  then show ?thesis unfolding unsigned_number_def Let_def mantissa whole by simp
qed

lemma exponent_number_text: "exponent_number (tl (exponent_text x)) = x"
proof -
  have z: "digits_value 10 (CHR ''0'' # t) = digits_value 10 t" for t
    using digits_value_zeros [of 10 1 t] by simp
  have "int (digits_value 10 (int_digits y)) = y" if "0 \<le> y" for y
    using that by (simp add: int_digits_def digits_of_value)
  then show ?thesis by (simp add: exponent_number_def exponent_text_def z)
qed

lemma scientific_number:
  assumes "0 < d"
  shows "unsigned_number (scientific_text d k) = decimal_number d k"
proof -
  obtain c s where s: "int_digits d = c # s"
    by (metis digits_of_nonempty int_digits_def list.exhaust)
  have digits: "all_digits [c]" "all_digits s" using all_digits_int [of d] unfolding s by simp_all
  let ?p = "if s = [] then [] else ''.''" and ?x = "k + int (length s)"
  have "unsigned_number ([c] @ ?p @ s @ exponent_text ?x) =
      of_nat (digits_value 10 ([c] @ s)) / 10 ^ length s * 10 powi exponent_number (tl (exponent_text ?x))"
    by (rule unsigned_number_parts [OF digits]) (simp_all add: exponent_text_def)
  also have "\<dots> = decimal_number d k"
    using assms value_int_digits [of d]
    by (simp add: exponent_number_text s decimal_number_def pow10_split)
  moreover have "scientific_text d k = [c] @ ?p @ s @ exponent_text ?x"
    by (simp add: scientific_text_def s)
  ultimately show ?thesis by simp
qed

text \<open>A float that a decimal without a fraction rounds to is that integer.\<close>

lemma integer_exact:
  assumes "float_pair m e" and "rounds_to m e (decimal_number d k)" and "0 \<le> k"
  shows "of_int (floor (binary_number m e)) = binary_number m e"
proof (cases "0 \<le> e")
  case True
  then have "binary_number m e = of_int (m * 2 ^ nat e)" by (simp add: binary_number_def power_int_def)
  then show ?thesis by simp
next
  case False
  let ?u = "2 powi e :: rat"
  define j where "j = d * 10 ^ nat k * 2 ^ nat (- e)"
  have "decimal_number d k = of_int (d * 10 ^ nat k)" using assms(3) by (simp add: decimal_number_def power_int_def)
  moreover have "(1 :: rat) = 2 ^ nat (- e) * ?u" using False by (simp add: power_int_def field_simps)
  ultimately have x: "decimal_number d k = of_int (d * 10 ^ nat k)" "decimal_number d k = of_int j * ?u"
    by (simp_all add: j_def algebra_simps)
  have "binary_number m e - ?u / 2 \<le> decimal_number d k" "decimal_number d k \<le> binary_number m e + ?u / 2"
    using assms(2) gap_below_bounds(2) [of m e] by (auto simp: rounds_to_def Let_def split: if_splits)
  then have "(of_int m - 1 / 2) * ?u \<le> of_int j * ?u" "of_int j * ?u \<le> (of_int m + 1 / 2) * ?u"
    unfolding x(2) binary_number_def by (simp_all add: algebra_simps)
  then have "(of_int m - 1 / 2 :: rat) \<le> of_int j" "(of_int j :: rat) \<le> of_int m + 1 / 2"
    by (simp_all only: mult_le_cancel_right_pos pow2)
  then have "m = j" by linarith
  then have "binary_number m e = decimal_number d k" using x(2) by (simp add: binary_number_def)
  then show ?thesis unfolding x(1) by simp
qed

lemma fixed_number:
  assumes "float_pair m e" and "rounds_to m e (decimal_number d k)" and "0 < d"
  shows "unsigned_number (fixed_text (binary_number m e) d k) =
    (if 0 \<le> k then binary_number m e else decimal_number d k)"
proof -
  let ?s = "int_digits d" and ?places = "nat (- k)"
  have whole: "unsigned_number s = of_nat (digits_value 10 s)" if "all_digits s" for s
    using unsigned_number_parts [OF that all_digits_simps(1), of "[]" "[]"] by (simp add: exponent_number_def)
  have places: "unsigned_number (a @ ''.'' @ b) = decimal_number d k"
    if "all_digits a" "all_digits b" "digits_value 10 (a @ b) = digits_value 10 ?s" "length b = ?places" "k < 0" for a b
    using unsigned_number_parts [OF that(1,2), of "[]" "''.''"] that(3-5) value_int_digits [of d] assms(3)
    by (simp add: exponent_number_def decimal_number_def power_int_def field_simps)
  note digits = all_digits_int [of d]
  consider "0 \<le> k" | "k < 0" "?places < length ?s" | "k < 0" "\<not> ?places < length ?s" by linarith
  then show ?thesis
  proof cases
    case 1
    have "0 \<le> floor (binary_number m e)" using binary_number_pos [OF assms(1)] by simp
    then show ?thesis
      using 1 integer_exact [OF assms(1,2)] value_int_digits [of "floor (binary_number m e)"]
      by (simp add: fixed_text_def whole all_digits_int)
  next
    case 2
    let ?n = "length ?s - ?places"
    have "unsigned_number (take ?n ?s @ ''.'' @ drop ?n ?s) = decimal_number d k"
      using 2 digits by (intro places) simp_all
    then show ?thesis using 2 by (simp add: fixed_text_def Let_def)
  next
    case 3
    let ?z = "replicate (?places - length ?s) (CHR ''0'')"
    have "unsigned_number (''0'' @ ''.'' @ (?z @ ?s)) = decimal_number d k"
      using 3 digits digits_value_zeros [of 10 "Suc (?places - length ?s)" ?s]
      by (intro places) (simp_all add: is_digit_chars)
    then show ?thesis using 3 by (simp add: fixed_text_def Let_def)
  qed
qed

section \<open>No decimal with fewer digits\<close>

lemma rounds_to_convex:
  assumes "rounds_to m e y" and "y \<le> x \<and> x \<le> binary_number m e \<or> binary_number m e \<le> x \<and> x \<le> y"
  shows "rounds_to m e x"
proof -
  define v u g where "v = binary_number m e" and "u = (2 :: rat) powi e" and "g = gap_below m e"
  have "0 < u" "u / 2 \<le> g" using gap_below_bounds(1) [of e m] by (simp_all add: u_def g_def)
  then show ?thesis
    using assms unfolding rounds_to_def Let_def v_def [symmetric] u_def [symmetric] g_def [symmetric]
    by (auto split: if_splits)
qed

lemma rounds_to_self: "rounds_to m e (binary_number m e)"
proof -
  define v u g where "v = binary_number m e" and "u = (2 :: rat) powi e" and "g = gap_below m e"
  have "0 < u" "u / 2 \<le> g" using gap_below_bounds(1) [of e m] by (simp_all add: u_def g_def)
  then show ?thesis
    unfolding rounds_to_def Let_def v_def [symmetric] u_def [symmetric] g_def [symmetric] by auto
qed

text \<open>
  A decimal of \<open>j\<close> digits that rounds to the value is on one side of it, and the one of the two
  candidates on that side lies between them.
\<close>

lemma candidate_between:
  assumes "float_pair m e" and "0 < d'" and "rounds_to m e (decimal_number d' k')"
  shows "candidate m e (length (int_digits d')) \<noteq> None"
proof -
  define n where "n = length (int_digits d')"
  define k d where "k = unit_of m e n" and "d = digits_below m e n"
  let ?v = "binary_number m e" and ?y = "decimal_number d' k'" and ?t = "10 powi k :: rat"
  note size = int_digits_size(1-3) [OF assms(2), folded n_def]
  note b = digits_below_bounds [OF assms(1) size(3), folded k_def d_def]
  note convex = rounds_to_convex [OF assms(3)]
  have "rounds_to m e (decimal_number d k) \<or> rounds_to m e (decimal_number (d + 1) k)"
  proof (cases "k \<le> k'")
    case True
    define j where "j = d' * 10 ^ nat (k' - k)"
    have "(10 :: rat) powi k' = ?t * 10 ^ nat (k' - k)" using True pow10_split [of k "nat (k' - k)"] by simp
    then have y: "?y = of_int j * ?t" by (simp add: decimal_number_def j_def)
    show ?thesis
    proof (cases "j \<le> d")
      case True
      then have "?y \<le> decimal_number d k"
        unfolding y unfolding decimal_number_def by (intro mult_right_mono) (simp_all only: of_int_le_iff pow10 less_imp_le)
      then show ?thesis using convex b(1) by blast
    next
      case False
      then have "d + 1 \<le> j" by simp
      then have "decimal_number (d + 1) k \<le> ?y"
        unfolding y unfolding decimal_number_def by (intro mult_right_mono) (simp_all only: of_int_le_iff pow10 less_imp_le)
      then show ?thesis using convex b(2) by (meson less_imp_le)
    qed
  next
    case False
    have "?y < of_int (10 ^ n) * 10 powi k'"
      unfolding decimal_number_def using size(2) by (intro mult_strict_right_mono) (simp_all only: of_int_less_iff pow10)
    also have "\<dots> = 10 powi (k' + int n)" by (simp add: pow10_split mult.commute)
    also have "\<dots> \<le> 10 powi (k + int (n - 1))" using False size(3) by (intro power_int_increasing) auto
    also have "\<dots> = of_int (10 ^ (n - 1)) * ?t" by (simp add: pow10_split mult.commute)
    also have "\<dots> \<le> decimal_number d k"
      unfolding decimal_number_def using b(3) by (intro mult_right_mono) (simp_all only: of_int_le_iff pow10 less_imp_le)
    finally show ?thesis using convex b(1) by (meson less_imp_le)
  qed
  then show ?thesis unfolding n_def [symmetric] by (auto simp: candidate_eq Let_def k_def d_def)
qed

section \<open>Properties\<close>

lemma magnitude_number:
  assumes "float_pair m e"
  shows "rounds_to m e (unsigned_number (magnitude_text m e))"
proof -
  obtain d k where eq: "shortest_decimal m e = (d, k)" by fastforce
  note s = shortest_decimal_spec [OF assms eq]
  have "unsigned_number (magnitude_text m e) \<in> {binary_number m e, decimal_number d k}"
    unfolding magnitude_text_def eq prod.case Let_def
    by (cases "length (fixed_text (binary_number m e) d k) \<le> length (scientific_text d k)")
      (simp_all only: if_True if_False fixed_number [OF assms s(1,2)] scientific_number [OF s(2)] insert_iff
        split: if_split, simp_all)
  then show ?thesis using rounds_to_self [of m e] s(1) by auto
qed

lemma magnitude_unsigned: "\<not> prefix ''-'' (magnitude_text m e)"
proof -
  have digits: "\<exists>c t. int_digits x = c # t \<and> c \<noteq> CHR ''-''" for x
    using all_digits_int [of x] is_digit_chars(4) by (cases "int_digits x") (auto simp: int_digits_def)
  obtain d k where eq: "shortest_decimal m e = (d, k)" by fastforce
  obtain c s where s: "int_digits d = c # s" "c \<noteq> CHR ''-''" using digits by blast
  have "\<not> prefix ''-'' (scientific_text d k)"
    using s(2) unfolding scientific_text_def Let_def s(1) by simp
  moreover have "\<not> prefix ''-'' (fixed_text v d k)" for v
  proof -
    obtain c' s' where s': "int_digits (floor v) = c' # s'" "c' \<noteq> CHR ''-''" using digits by blast
    show ?thesis
      using s(2) s'(2) unfolding fixed_text_def Let_def s(1) s'(1) by (cases "Suc (length s) - nat (- k)") auto
  qed
  ultimately show ?thesis by (simp add: magnitude_text_def eq Let_def)
qed

lemma nearer_uminus: "nearer (- x) m (- v) w = nearer x m v (- w)"
  by (simp add: nearer_def abs_minus_commute add.commute)

lemma nearer_float:
  assumes "float_pair m e" and "rounds_to m e x" and "is_finite other"
    and "w = float_number other \<or> w = - float_number other" and "w \<noteq> binary_number m e"
  shows "nearer x m (binary_number m e) w"
proof (cases "w \<le> 0")
  case True
  then show ?thesis using rounds_to_positive assms(1,2) by blast
next
  case False
  let ?m = "float_significand other" and ?e = "float_exponent other"
  have "0 \<le> ?m" using float_fields [of other] by (simp add: float_significand_def)
  then have "0 \<le> binary_number ?m ?e" by (simp add: binary_number_def)
  then have w: "w = binary_number ?m ?e" using False assms(4) by (auto simp: float_number_def split: if_splits)
  then have "?m \<noteq> 0" using False by (auto simp: binary_number_def)
  then have "float_pair ?m ?e" using assms(3) float_pair_of_bits by blast
  then show ?thesis using rounds_to_nearer [OF assms(1,2)] float_neighbours [OF assms(1)] w assms(5) by blast
qed

text \<open>
  The text of a finite \<^verbatim>\<open>float\<close> reads back exactly: of all the \<^verbatim>\<open>float\<close>s, the one it was made from is the
  nearest to the number the text stands for, or has an even significand and is as near as another.
\<close>

theorem float_text_reads_back:
  assumes "is_finite bits" and "is_finite other" and "float_number other \<noteq> float_number bits"
  shows "nearer (number_of_text (float_text bits)) (float_significand bits) (float_number bits) (float_number other)"
proof (cases "float_significand bits = 0")
  case True
  have "unsigned_number ''0'' = 0" by (simp add: unsigned_number_def exponent_number_def digits_value_def digit_value_def)
  then have "number_of_text (float_text bits) = 0" "float_number bits = 0"
    using True assms(1) by (auto simp: float_text_def number_of_text_def float_number_def binary_number_def)
  then show ?thesis using assms(3) by (simp add: nearer_def)
next
  case False
  let ?m = "float_significand bits" and ?e = "float_exponent bits"
  have pair: "float_pair ?m ?e" using assms(1) False by (rule float_pair_of_bits)
  define x where "x = unsigned_number (magnitude_text ?m ?e)"
  note near = nearer_float [OF pair magnitude_number [OF pair, folded x_def] assms(2)]
  show ?thesis
  proof (cases "bit bits 31")
    case True
    then have "number_of_text (float_text bits) = - x" "float_number bits = - binary_number ?m ?e"
      using assms(1) False by (simp_all add: float_text_def number_of_text_def float_number_def x_def)
    then show ?thesis using near [of "- float_number other"] assms(3) by (auto simp: nearer_uminus)
  next
    case sign: False
    then have "number_of_text (float_text bits) = x" "float_number bits = binary_number ?m ?e"
      using assms(1) False magnitude_unsigned
      by (simp_all add: float_text_def number_of_text_def float_number_def x_def)
    then show ?thesis using near [of "float_number other"] assms(3) by auto
  qed
qed

lemma float_text_reads_back_witness:
  "nearer (number_of_text (float_text 0x3DCCCCCD)) 13421773 (float_number 0x3DCCCCCD) (float_number 0xC2C80000)"
proof -
  have "is_finite 0x3DCCCCCD" "is_finite 0xC2C80000" "float_number 0xC2C80000 \<noteq> float_number 0x3DCCCCCD"
    by code_simp+
  from float_text_reads_back [OF this] show ?thesis
    by (simp add: float_significand_def float_biased_def float_fraction_def)
qed

text \<open>
  The text is the shortest one in digits: no decimal with fewer digits than \<open>shortest_decimal\<close> gives
  rounds to the \<^verbatim>\<open>float\<close>.
\<close>

theorem float_digits_minimal:
  assumes "float_pair m e" and "shortest_decimal m e = (d, k)" and "0 < d'"
    and "rounds_to m e (decimal_number d' k')"
  shows "length (int_digits d) \<le> length (int_digits d')"
proof -
  obtain n d0 k0 where n: "1 \<le> n" "candidate m e n = Some (d0, k0)" "strip_zeros (d0, k0) = (d, k)"
      "\<And>j. 1 \<le> j \<Longrightarrow> j < n \<Longrightarrow> candidate m e j = None"
    using shortest_of_candidates [OF assms(1)] assms(2) by metis
  note c = candidate_spec [OF assms(1) n(1,2)]
  have "0 < d0" using c(2) by (meson less_le_trans zero_less_numeral zero_less_power)
  note z = strip_zeros_spec [OF this n(3)]
  have "d < 10 ^ n" using stripped_digits [OF n(1)] c(3) z by auto
  then have "length (int_digits d) \<le> n" using int_digits_size(4) z by blast
  moreover have "\<not> length (int_digits d') < n"
    using n(4) [OF int_digits_size(3) [OF assms(3)]] candidate_between [OF assms(1,3,4)] by auto
  ultimately show ?thesis by linarith
qed

lemma float_digits_minimal_witness:
  "shortest_decimal 8388608 (- 24) = (5, - 1) \<and> length (int_digits 5) \<le> length (int_digits 50)"
proof -
  have "shortest_decimal 8388608 (- 24) = (5, - 1)" by code_simp
  moreover have "rounds_to 8388608 (- 24) (decimal_number 50 (- 2))" by code_simp
  moreover have "float_pair 8388608 (- 24)" by (simp add: float_pair_def)
  ultimately show ?thesis
    using float_digits_minimal [of 8388608 "- 24" 5 "- 1" 50 "- 2"] by simp
qed

end
