(* ===== verification/Core_Format.thy ===== *)
theory Core_Format
  imports Swar To_Chars
begin

text \<open>
  The bounded line writer of \<^verbatim>\<open>core_format.h\<close> and the two format-specification parsers. A writer
  owns no storage: \<open>d_buffer\<close> is the content of the caller's span, whose length never changes
  (\<open>memcpy_in\<close> outside the span would lengthen the list, so keeping the length is staying inside).
  Every append is proved against the text an unbounded writer would hold (\<open>holds\<close>), through the
  interface \<open>appends\<close>.
\<close>

section \<open>State and accessors\<close>

record line_writer =
  d_buffer :: string
  d_size :: nat
  d_truncated :: bool

definition LineWriter :: "string \<Rightarrow> line_writer" where
  "LineWriter buffer = \<lparr>d_buffer = buffer, d_size = 0, d_truncated = False\<rparr>"

definition is_truncated :: "line_writer \<Rightarrow> bool" where
  "is_truncated w = d_truncated w"

definition view :: "line_writer \<Rightarrow> string" where
  "view w = memcpy_out 0 (d_size w) (d_buffer w)"

definition room :: "line_writer \<Rightarrow> nat" where
  "room w = length (d_buffer w) - d_size w"

section \<open>Copying up to a control character\<close>

definition is_control :: "char \<Rightarrow> bool" where
  "is_control c \<longleftrightarrow> code_of c < code_of (CHR '' '') \<or> code_of c = code_of DEL"

function copy_plain_words :: "string \<Rightarrow> string \<Rightarrow> nat \<Rightarrow> (string \<times> nat) + (string \<times> nat)" where
  "copy_plain_words out text position =
     (if 8 \<le> length text - position then
        let word = word_of_codes (map code_of (memcpy_out position 8 text));
            out' = memcpy_in position (map char_of_code (codes_of_word 8 word)) out;
            flags = flagged word
        in if flags \<noteq> 0 then Inl (out', position + countr_zero flags div 8)
           else copy_plain_words out' text (position + 8)
      else Inr (out, position))"
  by pat_completeness auto
termination by (relation "measure (\<lambda>(out, text, position). length text - position)") auto

function copy_plain_bytes :: "string \<Rightarrow> string \<Rightarrow> nat \<Rightarrow> string \<times> nat" where
  "copy_plain_bytes out text position =
     (if position < length text then
        if is_control (text ! position) then (out, position)
        else copy_plain_bytes (memcpy_in position [text ! position] out) text (position + 1)
      else (out, length text))"
  by pat_completeness auto
termination by (relation "measure (\<lambda>(out, text, position). length text - position)") auto

declare copy_plain_words.simps [simp del] copy_plain_bytes.simps [simp del]

definition copy_plain :: "string \<Rightarrow> string \<Rightarrow> string \<times> nat" where
  "copy_plain out text =
     (case copy_plain_words out text 0 of
        Inl found \<Rightarrow> found
      | Inr (out', position) \<Rightarrow> copy_plain_bytes out' text position)"

section \<open>The appends\<close>

definition append_plain :: "line_writer \<Rightarrow> string \<Rightarrow> line_writer \<times> nat" where
  "append_plain w text =
     (let fitting = take (room w) text;
          (out, control) = copy_plain (drop (d_size w) (d_buffer w)) fitting;
          w' = w\<lparr>d_buffer := take (d_size w) (d_buffer w) @ out, d_size := d_size w + control\<rparr>
      in if control < length fitting then (w', control)
         else (if length fitting < length text then w'\<lparr>d_truncated := True\<rparr> else w', length text))"

definition append_repeated :: "line_writer \<Rightarrow> char \<Rightarrow> nat \<Rightarrow> line_writer" where
  "append_repeated w c copies =
     (let w' = (if room w < copies then w\<lparr>d_truncated := True\<rparr> else w);
          to_write = min copies (room w)
      in if to_write \<noteq> 0 then
           w'\<lparr>d_buffer := memcpy_in (d_size w) (replicate to_write c) (d_buffer w),
              d_size := d_size w + to_write\<rparr>
         else w')"

definition append_text :: "line_writer \<Rightarrow> string \<Rightarrow> line_writer" where
  "append_text w text =
     (let w' = (if room w < length text then w\<lparr>d_truncated := True\<rparr> else w);
          to_write = min (length text) (room w)
      in if to_write \<noteq> 0 then
           w'\<lparr>d_buffer := memcpy_in (d_size w) (take to_write text) (d_buffer w),
              d_size := d_size w + to_write\<rparr>
         else w')"

definition append_char :: "line_writer \<Rightarrow> char \<Rightarrow> line_writer" where
  "append_char w c = append_repeated w c 1"

definition k_CRLF :: string where "k_CRLF = [CR, LF]"

definition strip_trailing :: "string \<Rightarrow> string" where
  "strip_trailing text =
     (if suffix k_CRLF text then take (length text - length k_CRLF) text
      else if suffix [LF] text then take (length text - 1) text
      else text)"

function append_continued_loop :: "line_writer \<Rightarrow> string \<Rightarrow> nat \<Rightarrow> line_writer" where
  "append_continued_loop w rest column =
     (if rest = [] then w
      else let (w1, control) = append_plain w rest in
        if control = length rest then w1
        else
          let rest1 = drop control rest;
              rest2 = (if prefix k_CRLF rest1 then drop 1 rest1 else rest1);
              w2 = (if prefix [LF] rest2
                    then append_repeated (append_char w1 LF) (CHR '' '') column
                    else append_char w1 (CHR ''?''))
          in append_continued_loop w2 (drop 1 rest2) column)"
  by pat_completeness auto
termination by (relation "measure (\<lambda>(w, rest, column). length rest)") auto

declare append_continued_loop.simps [simp del]

definition append_continued :: "line_writer \<Rightarrow> string \<Rightarrow> nat \<Rightarrow> line_writer" where
  "append_continued w text column = append_continued_loop w (strip_trailing text) column"

definition append_padded :: "line_writer \<Rightarrow> string \<Rightarrow> nat \<Rightarrow> char \<Rightarrow> line_writer" where
  "append_padded w text pad_width pad_fill =
     (let w' = append_text w text in
      if length text < pad_width then append_repeated w' pad_fill (pad_width - length text) else w')"

definition append_fitted :: "line_writer \<Rightarrow> string \<Rightarrow> nat \<Rightarrow> char \<Rightarrow> line_writer" where
  "append_fitted w text width pad_fill = append_padded w (take width text) width pad_fill"

section \<open>Numbers\<close>

text \<open>
  \<^verbatim>\<open>std::to_chars\<close> into a buffer of \<open>n\<close> characters. A text that does not fit is an error the code does not look at; the
  buffer is then unspecified (here it keeps its zeros), and \<open>decimal_fits\<close> and \<open>float_text_fits\<close> show it never happens.
\<close>

definition to_chars :: "nat \<Rightarrow> string \<Rightarrow> string" where
  "to_chars n text = (if length text \<le> n then text else replicate n (CHR 0x00))"

text \<open>The integer types \<^verbatim>\<open>append_decimal\<close> is instantiated at, with their \<^verbatim>\<open>std::numeric_limits\<close>.\<close>

datatype integer_type = int8_t | int16_t | int32_t | int64_t | uint8_t | uint16_t | uint32_t | uint64_t

fun digits10 :: "integer_type \<Rightarrow> nat" where
  "digits10 int8_t = 2" | "digits10 int16_t = 4" | "digits10 int32_t = 9" | "digits10 int64_t = 18"
| "digits10 uint8_t = 2" | "digits10 uint16_t = 4" | "digits10 uint32_t = 9" | "digits10 uint64_t = 19"

fun in_range :: "integer_type \<Rightarrow> int \<Rightarrow> bool" where
  "in_range int8_t v \<longleftrightarrow> - (2 ^ 7) \<le> v \<and> v < 2 ^ 7"
| "in_range int16_t v \<longleftrightarrow> - (2 ^ 15) \<le> v \<and> v < 2 ^ 15"
| "in_range int32_t v \<longleftrightarrow> - (2 ^ 31) \<le> v \<and> v < 2 ^ 31"
| "in_range int64_t v \<longleftrightarrow> - (2 ^ 63) \<le> v \<and> v < 2 ^ 63"
| "in_range uint8_t v \<longleftrightarrow> 0 \<le> v \<and> v < 2 ^ 8"
| "in_range uint16_t v \<longleftrightarrow> 0 \<le> v \<and> v < 2 ^ 16"
| "in_range uint32_t v \<longleftrightarrow> 0 \<le> v \<and> v < 2 ^ 32"
| "in_range uint64_t v \<longleftrightarrow> 0 \<le> v \<and> v < 2 ^ 64"

definition append_decimal :: "integer_type \<Rightarrow> line_writer \<Rightarrow> int \<Rightarrow> nat \<Rightarrow> char \<Rightarrow> line_writer" where
  "append_decimal ty w v pad_width pad_fill =
     (let text = to_chars (digits10 ty + 2) (decimal_text v) in
      if length text < pad_width then
        let padding = pad_width - length text;
            minus = pad_fill = CHR ''0'' \<and> hd text = CHR ''-'';
            w1 = (if minus then append_char w (CHR ''-'') else w);
            text1 = (if minus then drop 1 text else text)
        in append_text (append_repeated w1 pad_fill padding) text1
      else append_text w text)"

definition k_DIGITS :: string where "k_DIGITS = ''0123456789abcdef''"

text \<open>The loop of \<^verbatim>\<open>append_hex\<close>, from \<open>i\<close> down to 1.\<close>

fun append_hex_loop :: "nat \<Rightarrow> u64 \<Rightarrow> string \<Rightarrow> string" where
  "append_hex_loop 0 rest text = text"
| "append_hex_loop (Suc i) rest text =
     append_hex_loop i (drop_bit 4 rest) (text[i := k_DIGITS ! unat (rest AND 0xF)])"

definition append_hex :: "nat \<Rightarrow> line_writer \<Rightarrow> u64 \<Rightarrow> line_writer" where
  "append_hex t_DIGITS w v =
     append_text w (append_hex_loop t_DIGITS v (replicate t_DIGITS (CHR 0x00)))"

text \<open>
  \<^verbatim>\<open>append_float\<close>, of a \<^verbatim>\<open>float\<close> given by its 32 bits.
\<close>

definition append_float :: "line_writer \<Rightarrow> u32 \<Rightarrow> line_writer" where
  "append_float w bits = append_text w (to_chars 15 (float_text bits))"

section \<open>Format specifications\<close>

text \<open>
  A parse context is the rest of the format string; \<open>None\<close> is \<^verbatim>\<open>reject_format_spec\<close>, which aborts.
\<close>

definition EmptySpecParser_parse :: "string \<Rightarrow> string option" where
  "EmptySpecParser_parse it = (if it \<noteq> [] \<and> hd it \<noteq> CHR ''}'' then None else Some it)"

record alternate_flag_parser =
  d_alternate :: bool

definition AlternateFlagParser :: alternate_flag_parser where
  "AlternateFlagParser = \<lparr>d_alternate = False\<rparr>"

definition AlternateFlagParser_parse ::
    "alternate_flag_parser \<Rightarrow> string \<Rightarrow> (alternate_flag_parser \<times> string) option" where
  "AlternateFlagParser_parse this it =
     (let (this', it') = (if it \<noteq> [] \<and> hd it = CHR ''#'' then (this\<lparr>d_alternate := True\<rparr>, tl it) else (this, it))
      in if it' \<noteq> [] \<and> hd it' \<noteq> CHR ''}'' then None else Some (this', it'))"

definition is_alternate :: "alternate_flag_parser \<Rightarrow> bool" where
  "is_alternate this = d_alternate this"

section \<open>The copy stops at the first control character\<close>

text \<open>What one pass of the loops has copied when it reaches \<open>position\<close>.\<close>

definition plain_run :: "string \<Rightarrow> nat" where
  "plain_run text = length (takeWhile (\<lambda>c. \<not> is_control c) text)"

definition copied :: "string \<Rightarrow> string \<Rightarrow> string \<Rightarrow> nat \<Rightarrow> bool" where
  "copied out0 text out n \<longleftrightarrow>
     length out = length out0 \<and> n \<le> length text \<and> take n out = take n text \<and>
     drop (length text) out = drop (length text) out0"

lemma is_control_code_of: "is_control_code (code_of c) = is_control c"
  by (simp add: is_control_code_def is_control_def DEL_def code_of_def)

lemma plain_run_le: "plain_run text \<le> length text"
  by (simp add: plain_run_def length_takeWhile_le)

lemma plain_run_split:
  "n \<le> plain_run s \<Longrightarrow> plain_run s = n + plain_run (drop n s)"
proof (induction n arbitrary: s)
  case 0
  then show ?case by simp
next
  case (Suc n)
  then show ?case by (cases s) (auto simp: plain_run_def split: if_splits)
qed

lemma word_round_trip:
  "length cs = 8 \<Longrightarrow> map char_of_code (codes_of_word 8 (word_of_codes (map code_of cs))) = cs"
  using codes_of_word_of_codes [of "map code_of cs"] by (simp add: comp_def)

lemma word_scan:
  assumes "length cs = 8"
  shows "flagged (word_of_codes (map code_of cs)) = 0 \<longleftrightarrow> plain_run cs = 8"
    and "plain_run cs < 8 \<Longrightarrow> countr_zero (flagged (word_of_codes (map code_of cs))) div 8 = plain_run cs"
proof -
  have "plain_run cs = length (takeWhile (\<lambda>b. \<not> is_control_code b) (map code_of cs))"
    by (simp add: plain_run_def takeWhile_map comp_def is_control_code_of)
  then show "flagged (word_of_codes (map code_of cs)) = 0 \<longleftrightarrow> plain_run cs = 8"
    and "plain_run cs < 8 \<Longrightarrow> countr_zero (flagged (word_of_codes (map code_of cs))) div 8 = plain_run cs"
    using flagged_first_control [of "map code_of cs"] assms by simp_all
qed

lemma copied_step:
  assumes "copied out0 text out n" and "n + k \<le> length text" and "length text \<le> length out0"
    and "v = take k (drop n text)" and "m \<le> n + k"
  shows "copied out0 text (memcpy_in n v out) m"
proof -
  have len: "length v = k" using assms(2,4) by simp
  have c: "length out = length out0" "take n out = take n text"
      "drop (length text) out = drop (length text) out0"
    using assms(1) by (simp_all add: copied_def)
  have "take (n + k) (memcpy_in n v out) = take (n + k) text"
    using assms(2,3) c len by (simp add: memcpy_in_def take_add assms(4))
  then have "take m (memcpy_in n v out) = take m text"
    using assms(5) by (metis min.absorb1 take_take)
  moreover have "drop (length text) (memcpy_in n v out) = drop (length text) out0"
    using assms(2,3) c len by (simp add: memcpy_in_def)
  ultimately show ?thesis
    using assms(2,3,5) c len by (simp add: copied_def)
qed

lemma plain_run_take: "plain_run (take k u) = min k (plain_run u)"
  by (induction u arbitrary: k) (auto simp: plain_run_def take_Cons split: nat.split)

lemma plain_run_chunk:
  "n \<le> plain_run t \<Longrightarrow> plain_run (take k (drop n t)) = min k (plain_run t - n)"
  using plain_run_split [of n t] by (simp add: plain_run_take)

lemma copy_plain_words_spec:
  assumes "copied out0 t out n" and "length t \<le> length out0" and "n \<le> plain_run t"
  shows "case copy_plain_words out t n of
           Inl (out', k) \<Rightarrow> copied out0 t out' k \<and> k = plain_run t
         | Inr (out', k) \<Rightarrow> copied out0 t out' k \<and> k \<le> plain_run t"
  using assms
proof (induction out t n rule: copy_plain_words.induct)
  case (1 out t n)
  show ?case
  proof (cases "8 \<le> length t - n")
    case False
    then show ?thesis using 1(2,4) by (simp add: copy_plain_words.simps [of out t n])
  next
    case True
    define chunk where "chunk = take 8 (drop n t)"
    have len: "length chunk = 8" "n + 8 \<le> length t" using True by (simp_all add: chunk_def)
    have run: "plain_run chunk = min 8 (plain_run t - n)"
      unfolding chunk_def using plain_run_chunk [OF 1(4)] .
    have step: "copied out0 t (memcpy_in n chunk out) m" if "m \<le> n + 8" for m
      using copied_step [OF 1(2) len(2) 1(3) chunk_def that] .
    note eq = copy_plain_words.simps [of out t n] memcpy_out_def chunk_def [symmetric]
      word_round_trip [OF len(1)]
    show ?thesis
    proof (cases "flagged (word_of_codes (map code_of chunk)) = 0")
      case True
      then have "n + 8 \<le> plain_run t" using word_scan(1) [OF len(1)] run 1(4) by simp
      then have "case copy_plain_words (memcpy_in n chunk out) t (n + 8) of
           Inl (out', k) \<Rightarrow> copied out0 t out' k \<and> k = plain_run t
         | Inr (out', k) \<Rightarrow> copied out0 t out' k \<and> k \<le> plain_run t"
        using 1(1) [OF \<open>8 \<le> length t - n\<close> refl refl refl] True step 1(3)
        by (simp add: eq)
      then show ?thesis using True \<open>8 \<le> length t - n\<close> by (simp add: eq Let_def)
    next
      case False
      have "plain_run chunk < 8"
        using False word_scan(1) [OF len(1)] run by simp
      then have "countr_zero (flagged (word_of_codes (map code_of chunk))) div 8 = plain_run t - n"
        using word_scan(2) [OF len(1)] run by simp
      moreover have "copied out0 t (memcpy_in n chunk out) (plain_run t)"
        using step \<open>plain_run chunk < 8\<close> run 1(4) by simp
      ultimately show ?thesis
        using False \<open>8 \<le> length t - n\<close> 1(4) by (simp add: eq Let_def)
    qed
  qed
qed

lemma plain_run_here:
  "n \<le> plain_run t \<Longrightarrow> n < length t \<Longrightarrow> is_control (t ! n) \<longleftrightarrow> plain_run t = n"
proof -
  assume n: "n \<le> plain_run t" "n < length t"
  have "plain_run (drop n t) = (if is_control (t ! n) then 0 else Suc (plain_run (drop (Suc n) t)))"
    using n(2) by (simp add: plain_run_def Cons_nth_drop_Suc [symmetric])
  then show ?thesis using plain_run_split [OF n(1)] by simp
qed

lemma copy_plain_bytes_spec:
  assumes "copied out0 t out n" and "length t \<le> length out0" and "n \<le> plain_run t"
  shows "case copy_plain_bytes out t n of (out', k) \<Rightarrow> copied out0 t out' k \<and> k = plain_run t"
  using assms
proof (induction out t n rule: copy_plain_bytes.induct)
  case (1 out t n)
  show ?case
  proof (cases "n < length t")
    case False
    then have "n = length t" "plain_run t = length t"
      using 1(4) plain_run_le [of t] by simp_all
    then show ?thesis using 1(2) by (subst copy_plain_bytes.simps) simp
  next
    case True
    have "copied out0 t (memcpy_in n [t ! n] out) (n + 1)"
      by (rule copied_step [OF 1(2) _ 1(3), where k = 1])
        (use True in \<open>simp_all add: take_Suc_conv_app_nth flip: hd_drop_conv_nth take_hd_drop\<close>)
    then show ?thesis
      using True 1(1) [OF True] 1(2-4) plain_run_here [OF 1(4) True]
      by (cases "plain_run t = n") (simp_all add: copy_plain_bytes.simps [of out t n])
  qed
qed

lemma copy_plain_spec:
  assumes "length t \<le> length out"
  shows "snd (copy_plain out t) = plain_run t" and "copied out t (fst (copy_plain out t)) (plain_run t)"
proof -
  have "copied out t out 0" by (simp add: copied_def)
  then have words: "case copy_plain_words out t 0 of
           Inl (out', k) \<Rightarrow> copied out t out' k \<and> k = plain_run t
         | Inr (out', k) \<Rightarrow> copied out t out' k \<and> k \<le> plain_run t"
    by (rule copy_plain_words_spec [OF _ assms]) simp
  have "case copy_plain out t of (out', k) \<Rightarrow> copied out t out' k \<and> k = plain_run t"
  proof (cases "copy_plain_words out t 0")
    case (Inl found)
    then show ?thesis using words by (simp add: copy_plain_def)
  next
    case (Inr state)
    obtain out' k where st: "state = (out', k)" by (cases state)
    then have "copied out t out' k" "k \<le> plain_run t" using words Inr by simp_all
    then have "case copy_plain_bytes out' t k of (out'', k') \<Rightarrow> copied out t out'' k' \<and> k' = plain_run t"
      by (rule copy_plain_bytes_spec [OF _ assms])
    then show ?thesis using Inr st by (simp add: copy_plain_def)
  qed
  then show "snd (copy_plain out t) = plain_run t" and "copied out t (fst (copy_plain out t)) (plain_run t)"
    by (simp_all split: prod.splits)
qed

section \<open>The ideal text\<close>

text \<open>
  \<open>holds cap w s\<close>: in a buffer of \<open>cap\<close> characters the writer shows the first \<open>cap\<close> characters of
  \<open>s\<close>, and is truncated exactly if \<open>s\<close> is longer.
\<close>

definition holds :: "nat \<Rightarrow> line_writer \<Rightarrow> string \<Rightarrow> bool" where
  "holds cap w s \<longleftrightarrow>
     length (d_buffer w) = cap \<and> d_size w \<le> cap \<and> view w = take cap s \<and>
     (is_truncated w \<longleftrightarrow> cap < length s)"

lemma holds_LineWriter: "holds (length buffer) (LineWriter buffer) []"
  by (simp add: holds_def LineWriter_def view_def memcpy_out_def is_truncated_def)

lemma view_fresh_writer [simp]: "view (LineWriter buffer) = []"
  by (simp add: LineWriter_def view_def memcpy_out_def)

lemma is_truncated_fresh_writer [simp]: "is_truncated (LineWriter buffer) = False"
  by (simp add: LineWriter_def is_truncated_def)

lemma holds_size: "holds cap w s \<Longrightarrow> d_size w = min cap (length s)"
  unfolding holds_def view_def memcpy_out_def
  by (metis drop0 length_take min.absorb2 min.commute)

lemma holds_room: "holds cap w s \<Longrightarrow> room w = cap - length s"
  using holds_size [of cap w s] by (simp add: room_def holds_def min_def)

locale appends =
  fixes op :: "line_writer \<Rightarrow> line_writer" and added :: string
  assumes holds_op: "holds cap w s \<Longrightarrow> holds cap (op w) (s @ added)"
begin

lemma view_fresh: "view (op (LineWriter buffer)) = take (length buffer) added"
  using holds_op [OF holds_LineWriter] by (simp add: holds_def)

lemma fits:
  assumes "holds cap w s" and "length s + length added \<le> cap"
  shows "view (op w) = view w @ added" and "is_truncated (op w) = is_truncated w"
  using holds_op [OF assms(1)] assms by (auto simp: holds_def)

lemma keeps_prefix:
  assumes "holds cap w s"
  shows "prefix (view w) (view (op w))"
  using holds_op [OF assms] assms by (simp add: holds_def)

end

lemma appends_seq: "appends f s \<Longrightarrow> appends g t \<Longrightarrow> appends (\<lambda>w. g (f w)) (s @ t)"
  by (simp add: appends_def flip: append_assoc)

lemma appends_id: "appends (\<lambda>w. w) []"
  by (simp add: appends_def)

lemma appends_if:
  "(b \<Longrightarrow> appends f s) \<Longrightarrow> (\<not> b \<Longrightarrow> appends g t) \<Longrightarrow>
     appends (\<lambda>w. if b then f w else g w) (if b then s else t)"
  by simp

text \<open>The common case: the buffer gets what fits of the text, written at the cursor.\<close>

lemma holds_memcpy:
  assumes h: "holds cap w s" and n: "n = min (length t) (room w)"
    and b: "d_buffer w' = memcpy_in (d_size w) (take n t) (d_buffer w)"
    and sz: "d_size w' = d_size w + n"
    and tr: "is_truncated w' \<longleftrightarrow> is_truncated w \<or> room w < length t"
  shows "holds cap w' (s @ t)"
proof -
  have size: "d_size w = min cap (length s)" and room: "room w = cap - length s"
    using h by (rule holds_size, rule holds_room)
  have le: "d_size w + n \<le> cap"
    using n room size by (auto simp: min_def)
  have v: "take (d_size w) (d_buffer w) = take cap s" "length (d_buffer w) = cap"
    using h by (simp_all add: holds_def view_def memcpy_out_def)
  have "length (d_buffer w') = cap"
    using le v n by (simp add: b)
  moreover have "view w' = take cap s @ take n t"
  proof -
    have "length (take (d_size w) (d_buffer w)) = d_size w" "length (take n t) = n"
      using le v(2) n by simp_all
    then have "view w' = take (d_size w) (d_buffer w) @ take n t"
      unfolding view_def memcpy_out_def b sz memcpy_in_def drop0
      by (metis append_assoc append_eq_conv_conj length_append)
    then show ?thesis by (simp only: v(1))
  qed
  moreover have "take n t = take (cap - length s) t"
    using n room by (auto simp: min_def)
  moreover have "is_truncated w' \<longleftrightarrow> cap < length (s @ t)"
    using h tr room by (auto simp: holds_def)
  ultimately show ?thesis
    using le sz by (simp add: holds_def)
qed

interpretation append_text: appends "\<lambda>w. append_text w t" t for t
proof unfold_locales
  fix cap w s assume h: "holds cap w s"
  show "holds cap (append_text w t) (s @ t)"
    by (rule holds_memcpy [OF h refl, where t = t])
      (use h in \<open>auto simp: append_text_def Let_def is_truncated_def memcpy_in_def\<close>)
qed

interpretation append_repeated: appends "\<lambda>w. append_repeated w c n" "replicate n c" for c n
proof unfold_locales
  fix cap w s assume h: "holds cap w s"
  show "holds cap (append_repeated w c n) (s @ replicate n c)"
    by (rule holds_memcpy [OF h refl])
      (use h in \<open>auto simp: append_repeated_def Let_def is_truncated_def memcpy_in_def\<close>)
qed

interpretation append_char: appends "\<lambda>w. append_char w c" "[c]" for c
  using append_repeated.holds_op [of _ _ _ c 1] by unfold_locales (simp add: append_char_def)

definition padded :: "string \<Rightarrow> nat \<Rightarrow> char \<Rightarrow> string" where
  "padded t width fill = t @ replicate (width - length t) fill"

interpretation append_padded: appends "\<lambda>w. append_padded w t width fill" "padded t width fill"
    for t width fill
proof unfold_locales
  fix cap w s assume "holds cap w s"
  then have h: "holds cap (append_text w t) (s @ t)" by (rule append_text.holds_op)
  then show "holds cap (append_padded w t width fill) (s @ padded t width fill)"
    using append_repeated.holds_op [OF h] by (simp add: append_padded_def padded_def Let_def)
qed

interpretation append_fitted: appends "\<lambda>w. append_fitted w t width fill"
    "padded (take width t) width fill" for t width fill
  using append_padded.holds_op by unfold_locales (simp add: append_fitted_def)

lemma length_fitted: "length (padded (take width t) width fill) = width"
  by (simp add: padded_def)

interpretation append_hex: appends "\<lambda>w. append_hex n w v"
    "append_hex_loop n v (replicate n (CHR 0x00))" for n v
  using append_text.holds_op by unfold_locales (simp add: append_hex_def)

lemma float_chars: "to_chars 15 (float_text bits) = float_text bits"
  using float_text_fits by (simp add: to_chars_def)

interpretation append_float: appends "\<lambda>w. append_float w bits"
    "to_chars 15 (float_text bits)" for bits
  using append_text.holds_op by unfold_locales (simp add: append_float_def)

text \<open>The text of a right-aligned decimal: a minus sign stays in front of a fill of zeros.\<close>

definition right_aligned :: "string \<Rightarrow> nat \<Rightarrow> char \<Rightarrow> string" where
  "right_aligned t width fill =
     (let padding = replicate (width - length t) fill in
      if fill = CHR ''0'' \<and> length t < width \<and> hd t = CHR ''-'' then hd t # padding @ tl t
      else padding @ t)"

lemma set_right_aligned: "t \<noteq> [] \<Longrightarrow> set (right_aligned t width fill) \<subseteq> insert fill (set t)"
  by (cases t) (auto simp: right_aligned_def Let_def)

interpretation append_decimal: appends "\<lambda>w. append_decimal ty w v width fill"
    "right_aligned (to_chars (digits10 ty + 2) (decimal_text v)) width fill" for ty v width fill
proof unfold_locales
  fix cap w s assume h: "holds cap w s"
  note hs = append_text.holds_op append_repeated.holds_op append_char.holds_op
  show "holds cap (append_decimal ty w v width fill)
      (s @ right_aligned (to_chars (digits10 ty + 2) (decimal_text v)) width fill)"
    using hs(1) [OF h] hs(1) [OF hs(2) [OF h]] hs(1) [OF hs(2) [OF hs(3) [OF h]]]
    by (simp add: append_decimal_def right_aligned_def Let_def drop_Suc)
qed

section \<open>Continued text\<close>

text \<open>One plain run: either it stops at a control character, or the text or the buffer ended.\<close>

definition plain_copied :: "line_writer \<Rightarrow> string \<Rightarrow> nat \<Rightarrow> line_writer" where
  "plain_copied w out' r =
     w\<lparr>d_buffer := take (d_size w) (d_buffer w) @ out', d_size := d_size w + r\<rparr>"

lemma append_plain_cases:
  assumes "holds cap w s" and "m = cap - length s" and "r = min m (plain_run t)"
  shows "\<exists>out'. length out' = m \<and> take r out' = take r t \<and>
    append_plain w t =
      (if r < min m (length t) then (plain_copied w out' r, r)
       else (if m < length t then plain_copied w out' r\<lparr>d_truncated := True\<rparr> else plain_copied w out' r,
             length t))"
proof -
  define out fit where "out = drop (d_size w) (d_buffer w)" and "fit = take m t"
  have "length (d_buffer w) = cap" "d_size w = min cap (length s)" "room w = m"
    using assms(1,2) holds_size holds_room by (auto simp: holds_def)
  then have lout: "length out = m" and room: "room w = m" by (auto simp: out_def assms(2))
  have run: "plain_run fit = r" "r \<le> length fit"
    using plain_run_le [of fit] by (simp_all add: fit_def plain_run_take assms(3))
  obtain out' where cp: "copy_plain out fit = (out', r)" and co: "copied out fit out' r"
    using copy_plain_spec [of fit out] lout run(1) by (metis fit_def length_take min.cobounded2 prod.collapse)
  have "length out' = m" "take r out' = take r t"
    using co lout run(2) by (simp_all add: copied_def fit_def min_absorb2)
  moreover have "append_plain w t =
      (if r < length fit then (plain_copied w out' r, r)
       else (if length fit < length t then plain_copied w out' r\<lparr>d_truncated := True\<rparr> else plain_copied w out' r,
             length t))"
    using cp by (simp add: append_plain_def room plain_copied_def Let_def flip: out_def fit_def)
  ultimately show ?thesis by (intro exI [of _ out']) (auto simp: fit_def)
qed

lemma plain_copied_holds:
  assumes "holds cap w s" and "m = cap - length s" and "length out' = m" and "r \<le> m"
    and "take r out' = take m u"
    and "d_buffer x = d_buffer (plain_copied w out' r)" "d_size x = d_size (plain_copied w out' r)"
    and "is_truncated x \<longleftrightarrow> cap < length s + length u"
  shows "holds cap x (s @ u)"
proof -
  have w: "length (d_buffer w) = cap" "view w = take cap s" "d_size w = min cap (length s)"
    using assms(1) holds_size by (auto simp: holds_def)
  then have "length (take (d_size w) (d_buffer w)) = d_size w" by simp
  then have "view x = view w @ take r out'"
    using assms(6,7) by (simp add: view_def memcpy_out_def plain_copied_def)
  then have "view x = take cap (s @ u)" using w(2) assms(5) by (simp add: assms(2))
  then show ?thesis
    using assms(2-4,6-8) w(1,3) by (auto simp: holds_def plain_copied_def)
qed

lemma append_plain_spec:
  assumes h: "holds cap w s" and ap: "append_plain w t = (w', k)"
  defines "m \<equiv> cap - length s"
  shows "k \<noteq> length t \<Longrightarrow> k = plain_run t \<and> k < length t \<and> holds cap w' (s @ take k t)"
    and "k = length t \<Longrightarrow> m \<le> plain_run t \<or> plain_run t = length t"
    and "k = length t \<Longrightarrow> take m u = take m t \<Longrightarrow> m < length u \<longleftrightarrow> m < length t \<Longrightarrow> holds cap w' (s @ u)"
proof -
  define r where "r = min m (plain_run t)"
  obtain out' where out': "length out' = m" "take r out' = take r t"
    and eq: "(w', k) = (if r < min m (length t) then (plain_copied w out' r, r)
       else (if m < length t then plain_copied w out' r\<lparr>d_truncated := True\<rparr> else plain_copied w out' r,
             length t))"
    using append_plain_cases [OF h, of m r t] ap by (auto simp: m_def r_def)
  have tr: "is_truncated w \<longleftrightarrow> cap < length s" using h by (simp add: holds_def)
  have r: "r \<le> m" "r \<le> length t" using plain_run_le [of t] by (simp_all add: r_def)
  note H = plain_copied_holds [OF h m_def [THEN meta_eq_to_obj_eq] out'(1) r(1)]
  show "k \<noteq> length t \<Longrightarrow> k = plain_run t \<and> k < length t \<and> holds cap w' (s @ take k t)"
  proof -
    assume "k \<noteq> length t"
    then have lt: "r < m" "r < length t" and w': "w' = plain_copied w out' r" "k = r"
      using eq by (auto split: if_splits)
    moreover have "is_truncated w' \<longleftrightarrow> cap < length s + length (take r t)"
      using tr lt w' by (auto simp: plain_copied_def is_truncated_def m_def)
    ultimately show ?thesis
      using H [of "take r t" w'] out'(2) by (simp add: r_def min_def split: if_splits)
  qed
  show "k = length t \<Longrightarrow> m \<le> plain_run t \<or> plain_run t = length t"
    using eq plain_run_le [of t] by (auto simp: r_def min_def split: if_splits)
  assume k: "k = length t" and u: "take m u = take m t" "m < length u \<longleftrightarrow> m < length t"
  have r_eq: "r = min m (length t)" using eq k r by (auto simp: min_def split: if_splits)
  then have w': "w' = (if m < length t then plain_copied w out' r\<lparr>d_truncated := True\<rparr> else plain_copied w out' r)"
    using eq by simp
  have "cap < length s + length u \<longleftrightarrow> cap < length s \<or> m < length t"
    using u(2) by (cases "length s \<le> cap") (auto simp: m_def)
  then show "holds cap w' (s @ u)"
    using u(1) tr out'(2) r_eq
    by (intro H) (auto simp: w' plain_copied_def is_truncated_def min_def)
qed

text \<open>
  The text \<open>append_continued\<close> writes: every line break followed by \<open>column\<close> spaces, a CR in front of
  an LF dropped, any other control character as a question mark.
\<close>

fun continued_body :: "nat \<Rightarrow> string \<Rightarrow> string" where
  "continued_body column [] = []"
| "continued_body column (c # cs) =
     (if c = CR \<and> prefix [LF] cs then continued_body column cs
      else if c = LF then LF # replicate column (CHR '' '') @ continued_body column cs
      else if is_control c then CHR ''?'' # continued_body column cs
      else c # continued_body column cs)"

definition continued_text :: "nat \<Rightarrow> string \<Rightarrow> string" where
  "continued_text column t = continued_body column (strip_trailing t)"

lemma is_control_CR_LF [simp]: "is_control LF" "is_control CR"
  by (simp_all add: is_control_def LF_def CR_def code_of_def word_less_nat_alt)

lemma continued_body_plain:
  "k \<le> plain_run t \<Longrightarrow> continued_body column t = take k t @ continued_body column (drop k t)"
proof (induction k arbitrary: t)
  case 0
  then show ?case by simp
next
  case (Suc k)
  then show ?case
    by (cases t) (auto simp: plain_run_def split: if_splits)
qed

lemma length_continued_body: "t \<noteq> [] \<Longrightarrow> continued_body column t \<noteq> []"
proof (induction t)
  case Nil
  then show ?case by simp
next
  case (Cons c cs)
  then show ?case by (auto simp: prefix_def)
qed

text \<open>A plain run that fills the room leaves nothing of the continued text to tell apart.\<close>

lemma continued_body_room:
  assumes "m \<le> plain_run t \<or> plain_run t = length t"
  shows "take m (continued_body column t) = take m t"
    and "m < length (continued_body column t) \<longleftrightarrow> m < length t"
proof -
  define n where "n = min m (length t)"
  have n: "n \<le> plain_run t" using assms by (auto simp: n_def)
  then have eq: "continued_body column t = take n t @ continued_body column (drop n t)"
    by (rule continued_body_plain)
  show "take m (continued_body column t) = take m t"
    by (subst eq) (auto simp: n_def min_def)
  have "continued_body column (drop n t) = [] \<longleftrightarrow> drop n t = []"
    using length_continued_body [of "drop n t" column] by auto
  then show "m < length (continued_body column t) \<longleftrightarrow> m < length t"
    by (subst eq) (auto simp: n_def min_def)
qed

definition at_break :: "string \<Rightarrow> string" where
  "at_break cs = (if prefix k_CRLF cs then drop 1 cs else cs)"

definition broken :: "nat \<Rightarrow> string \<Rightarrow> string" where
  "broken column cs = (if prefix [LF] cs then LF # replicate column (CHR '' '') else ''?'')"

lemma continued_body_control:
  "is_control c \<Longrightarrow> continued_body column (c # cs) =
     broken column (at_break (c # cs)) @ continued_body column (drop 1 (at_break (c # cs)))"
  by (cases cs) (auto simp: at_break_def broken_def k_CRLF_def CR_def LF_def)

lemma broken_holds:
  assumes "holds cap w s"
  shows "holds cap (if prefix [LF] cs then append_repeated (append_char w LF) (CHR '' '') column
      else append_char w (CHR ''?'')) (s @ broken column cs)"
  using append_repeated.holds_op [OF append_char.holds_op [OF assms]]
    append_char.holds_op [OF assms, of "CHR ''?''"]
  by (simp add: broken_def)

lemma append_continued_loop_holds:
  "holds cap w s \<Longrightarrow> holds cap (append_continued_loop w t column) (s @ continued_body column t)"
proof (induction w t column arbitrary: s rule: append_continued_loop.induct)
  case (1 w t column)
  obtain w1 k where ap: "append_plain w t = (w1, k)" by fastforce
  note spec = append_plain_spec [OF 1(2) ap]
  consider "t = []" | "t \<noteq> []" "k = length t" | "t \<noteq> []" "k \<noteq> length t" by blast
  then show ?case
  proof cases
    case 1
    then show ?thesis using \<open>holds cap w s\<close> by (simp add: append_continued_loop.simps)
  next
    case 2
    have "holds cap w1 (s @ continued_body column t)"
      using spec(2,3) [OF 2(2)] continued_body_room by blast
    then show ?thesis using ap 2 by (simp add: append_continued_loop.simps [of w])
  next
    case 3
    then have k: "k = plain_run t" "k < length t" and h1: "holds cap w1 (s @ take k t)"
      using spec(1) by (blast, blast, blast)
    obtain c cs where dt: "drop k t = c # cs"
      using k(2) by (metis Cons_nth_drop_Suc)
    have ctl: "is_control c"
      using plain_run_here [of k t] k dt by (simp add: nth_via_drop)
    define rest2 where "rest2 = at_break (c # cs)"
    define w2 where "w2 = (if prefix [LF] rest2
        then append_repeated (append_char w1 LF) (CHR '' '') column
        else append_char w1 (CHR ''?''))"
    have step: "append_continued_loop w t column = append_continued_loop w2 (drop 1 rest2) column"
      by (subst append_continued_loop.simps)
        (simp only: 3 ap if_False prod.case Let_def dt rest2_def w2_def at_break_def
          One_nat_def drop_Suc_Cons drop_0)
    have "holds cap (append_continued_loop w2 (drop 1 rest2) column)
        (((s @ take k t) @ broken column rest2) @ continued_body column (drop 1 rest2))"
      by (rule "1.IH" [OF 3(1) ap [symmetric] refl 3(2) _ _ w2_def])
        (simp_all add: dt rest2_def at_break_def w2_def broken_holds [OF h1] del: append_assoc)
    moreover have "continued_body column t =
        take k t @ broken column rest2 @ continued_body column (drop 1 rest2)"
      using continued_body_plain [of k t column] continued_body_control [OF ctl] k(1)
      by (metis dt rest2_def order.refl)
    ultimately show ?thesis by (simp add: step)
  qed
qed

interpretation append_continued: appends "\<lambda>w. append_continued w t column" "continued_text column t"
    for t column
  using append_continued_loop_holds
  by unfold_locales (simp add: append_continued_def continued_text_def)

section \<open>Reading numbers back\<close>

lemma decimal_fits: "in_range ty v \<Longrightarrow> length (decimal_text v) \<le> digits10 ty + 2"
proof -
  assume r: "in_range ty v"
  have "nat \<bar>v\<bar> < 10 ^ Suc (digits10 ty)" and "v < 0 \<longrightarrow> Suc (digits10 ty) \<le> digits10 ty + 1"
    using r by (cases ty; auto simp: nat_less_iff)+
  then have "length (digits_of (nat \<bar>v\<bar>)) \<le> Suc (digits10 ty)" by (intro length_digits_of)
  then show ?thesis by (auto simp: decimal_text_def)
qed

lemma decimal_chars:
  "in_range ty v \<Longrightarrow> to_chars (digits10 ty + 2) (decimal_text v) = decimal_text v"
  using decimal_fits by (simp add: to_chars_def)

lemma digits_of_zeros_no_minus:
  "\<not> prefix ''-'' (replicate n (CHR ''0'') @ digits_of k)"
  using digits_of_chars [of _ k] by (cases n; cases "digits_of k") auto

lemma right_aligned_value:
  assumes "fill = CHR '' '' \<or> fill = CHR ''0''"
  shows "decimal_value (dropWhile (\<lambda>c. c = CHR '' '') (right_aligned (decimal_text v) width fill)) = v"
proof -
  let ?t = "decimal_text v"
  have nsp: "c \<in> set ?t \<Longrightarrow> c \<noteq> CHR '' ''" for c
    using digits_of_chars by (auto simp: decimal_text_def split: if_splits)
  then have keep: "dropWhile (\<lambda>c. c = CHR '' '') ?t = ?t"
    by (cases ?t) auto
  from assms show ?thesis
  proof
    assume "fill = CHR '' ''"
    then show ?thesis
      using keep by (simp add: right_aligned_def dropWhile_append decimal_round_trip)
  next
    assume f: "fill = CHR ''0''"
    show ?thesis
    proof (cases "v < 0")
      case True
      then show ?thesis
        by (auto simp: right_aligned_def Let_def f decimal_text_def decimal_value_def digits_value_zeros
            digits_of_value)
    next
      case False
      let ?n = "width - length ?t"
      have "hd ?t \<noteq> CHR ''-''"
        using False digits_of_chars [of "hd ?t" "nat v"] by (simp add: decimal_text_def)
      then have "right_aligned ?t width fill = replicate ?n (CHR ''0'') @ ?t"
        by (simp add: right_aligned_def f)
      moreover have "dropWhile (\<lambda>c. c = CHR '' '') (replicate ?n (CHR ''0'') @ ?t) =
          replicate ?n (CHR ''0'') @ ?t"
        using keep by (cases ?n) simp_all
      ultimately show ?thesis
        using False digits_of_zeros_no_minus [of ?n "nat v"]
        by (simp add: decimal_value_def decimal_text_def digits_value_zeros digits_of_value)
    qed
  qed
qed

lemma zero_filled_decimal: "decimal_value (right_aligned (decimal_text v) width (CHR ''0'')) = v"
proof -
  let ?t = "right_aligned (decimal_text v) width (CHR ''0'')"
  have "CHR '' '' \<notin> set (decimal_text v)"
    using digits_of_chars [of "CHR '' ''"] by (auto simp: decimal_text_def split: if_splits)
  moreover have "set ?t \<subseteq> insert (CHR ''0'') (set (decimal_text v))"
    by (rule set_right_aligned) (simp add: decimal_text_def)
  ultimately have "CHR '' '' \<notin> set ?t" by auto
  then have "dropWhile (\<lambda>c. c = CHR '' '') ?t = ?t" by (cases ?t) auto
  then show ?thesis using right_aligned_value [of "CHR ''0''" v width] by simp
qed

text \<open>Hex digits, most significant first.\<close>

fun hex_text :: "nat \<Rightarrow> u64 \<Rightarrow> string" where
  "hex_text 0 v = []"
| "hex_text (Suc n) v = hex_text n (drop_bit 4 v) @ [k_DIGITS ! unat (v AND 0xF)]"

lemma length_hex_text [simp]: "length (hex_text n v) = n"
  by (induction n v rule: hex_text.induct) simp_all

lemma append_hex_loop_text: "i \<le> length t \<Longrightarrow> append_hex_loop i v t = hex_text i v @ drop i t"
proof (induction i v t rule: append_hex_loop.induct)
  case (1 rest t)
  then show ?case by simp
next
  case (2 i rest t)
  then have "drop i (t[i := x]) = x # drop (Suc i) t" for x
    by (metis Cons_nth_drop_Suc Suc_le_lessD drop_update_cancel length_list_update lessI
        nth_list_update_eq)
  then show ?case using 2 by simp
qed

lemma append_hex_text: "append_hex_loop n v (replicate n c) = hex_text n v"
  by (simp add: append_hex_loop_text)

lemma k_DIGITS_value: "n < 16 \<Longrightarrow> digit_value (k_DIGITS ! n) = n"
proof -
  have "\<forall>n \<in> set [0..<16]. digit_value (k_DIGITS ! n) = n" by code_simp
  then show "n < 16 \<Longrightarrow> ?thesis" by simp
qed

lemma nibble: "unat (v AND 0xF :: u64) = unat v mod 16"
proof -
  have "v AND 0xF = take_bit 4 v" by (simp add: take_bit_eq_mask mask_eq_exp_minus_1)
  then show ?thesis by (simp add: take_bit_eq_mod unat_mod)
qed

lemma hex_text_value: "digits_value 16 (hex_text n v) = unat v mod 16 ^ n"
proof (induction n v rule: hex_text.induct)
  case (1 v)
  then show ?case by simp
next
  case (2 n v)
  have "unat (drop_bit 4 v) = unat v div 16" by (simp add: drop_bit_eq_div unat_div)
  then show ?case
    using 2 by (simp add: nibble k_DIGITS_value mod_mult2_eq)
qed

lemma hex_text_printable: "list_all printable (hex_text n v)"
proof (induction n v rule: hex_text.induct)
  case (1 v)
  then show ?case by simp
next
  case (2 n v)
  have "unat (v AND 0xF) < 16" by (simp add: nibble)
  moreover have "list_all printable k_DIGITS" "length k_DIGITS = 16" by code_simp+
  ultimately have "printable (k_DIGITS ! unat (v AND 0xF))" by (simp only: list_all_length)
  then show ?case using 2 by simp
qed

section \<open>Lines of a continued text\<close>

text \<open>
  The reference reading of \<open>append_continued\<close>: split at the newlines, drop the CR in front of each of
  them, mask the control characters, and join the lines with a newline and the column of spaces.
\<close>

fun text_lines :: "string \<Rightarrow> string list" where
  "text_lines [] = [[]]"
| "text_lines (c # cs) =
     (if c = LF then [] # text_lines cs
      else (c # hd (text_lines cs)) # tl (text_lines cs))"

definition mask_controls :: "string \<Rightarrow> string" where
  "mask_controls l = map (\<lambda>c. if is_control c then CHR ''?'' else c) l"

definition drop_final_CR :: "string \<Rightarrow> string" where
  "drop_final_CR l = (if suffix [CR] l then butlast l else l)"

fun join_lines :: "nat \<Rightarrow> string list \<Rightarrow> string" where
  "join_lines column [] = []"
| "join_lines column [l] = mask_controls l"
| "join_lines column (l # m # ls) =
     mask_controls (drop_final_CR l) @ LF # replicate column (CHR '' '') @ join_lines column (m # ls)"

lemma text_lines_nonempty [simp]: "text_lines t \<noteq> []"
  by (cases t) auto

lemma CR_neq_LF [simp]: "CR \<noteq> LF" "LF \<noteq> CR"
  by (simp_all add: CR_def LF_def)

lemma drop_final_CR_Nil [simp]: "drop_final_CR [] = []"
  by (simp add: drop_final_CR_def)

lemma drop_final_CR_Cons:
  "drop_final_CR (c # l) = (if c = CR \<and> l = [] then [] else c # drop_final_CR l)"
  by (cases l rule: rev_cases) (auto simp: drop_final_CR_def suffix_def Cons_eq_append_conv)

lemma join_lines_Cons:
  "join_lines column ((c # l) # ls) =
     (if c = CR \<and> l = [] \<and> ls \<noteq> [] then join_lines column ([] # ls)
      else (if is_control c then CHR ''?'' else c) # join_lines column (l # ls))"
  by (cases ls) (auto simp: drop_final_CR_Cons mask_controls_def)

lemma hd_text_lines_Nil:
  "hd (text_lines cs) = [] \<and> tl (text_lines cs) \<noteq> [] \<longleftrightarrow> prefix [LF] cs"
  by (cases cs) auto

lemma continued_body_lines: "continued_body column t = join_lines column (text_lines t)"
proof (induction t)
  case Nil
  then show ?case by (simp add: mask_controls_def)
next
  case (Cons c cs)
  obtain l ls where L: "text_lines cs = l # ls" by (cases "text_lines cs") auto
  show ?case
  proof (cases "c = LF")
    case True
    then show ?thesis
      using Cons L by (simp add: drop_final_CR_def mask_controls_def)
  next
    case False
    then show ?thesis
      using Cons L hd_text_lines_Nil [of cs] by (auto simp: join_lines_Cons)
  qed
qed

lemma continued_text_controls:
  "c \<in> set (continued_text column t) \<Longrightarrow> c = LF \<or> \<not> is_control c"
proof -
  have sp: "\<not> is_control (CHR '' '')" "\<not> is_control (CHR ''?'')"
    by (simp_all add: is_control_def DEL_def code_of_def word_less_nat_alt)
  have "c \<in> set (continued_body column u) \<Longrightarrow> c = LF \<or> \<not> is_control c" for u
    by (induction u) (auto simp: sp split: if_splits)
  then show "c \<in> set (continued_text column t) \<Longrightarrow> ?thesis"
    by (simp add: continued_text_def)
qed

section \<open>Sequences of appends\<close>

text \<open>A line is written by a sequence of public appends; \<open>line_op_text\<close> is what each one means.\<close>

datatype line_op =
    Append string
  | AppendContinued string nat
  | AppendChar char
  | AppendPadded string nat char
  | AppendFitted string nat char
  | AppendDecimal integer_type int nat char
  | AppendHex nat u64
  | AppendFloat u32

fun run_line_op :: "line_op \<Rightarrow> line_writer \<Rightarrow> line_writer" where
  "run_line_op (Append t) w = append_text w t"
| "run_line_op (AppendContinued t column) w = append_continued w t column"
| "run_line_op (AppendChar c) w = append_char w c"
| "run_line_op (AppendPadded t n fill) w = append_padded w t n fill"
| "run_line_op (AppendFitted t n fill) w = append_fitted w t n fill"
| "run_line_op (AppendDecimal ty v n fill) w = append_decimal ty w v n fill"
| "run_line_op (AppendHex n v) w = append_hex n w v"
| "run_line_op (AppendFloat bits) w = append_float w bits"

fun line_op_text :: "line_op \<Rightarrow> string" where
  "line_op_text (Append t) = t"
| "line_op_text (AppendContinued t column) = join_lines column (text_lines (strip_trailing t))"
| "line_op_text (AppendChar c) = [c]"
| "line_op_text (AppendPadded t n fill) = padded t n fill"
| "line_op_text (AppendFitted t n fill) = padded (take n t) n fill"
| "line_op_text (AppendDecimal ty v n fill) = right_aligned (decimal_text v) n fill"
| "line_op_text (AppendHex n v) = hex_text n v"
| "line_op_text (AppendFloat bits) = float_text bits"

fun line_op_ok :: "line_op \<Rightarrow> bool" where
  "line_op_ok (AppendDecimal ty v n fill) = in_range ty v"
| "line_op_ok _ = True"

lemma run_line_op_appends: "line_op_ok p \<Longrightarrow> appends (run_line_op p) (line_op_text p)"
proof (cases p)
  case (AppendContinued t column)
  then show ?thesis
    using append_continued.appends_axioms [of t column]
    by (simp add: continued_text_def continued_body_lines appends_def)
next
  case (AppendDecimal ty v n fill)
  assume "line_op_ok p"
  then show ?thesis
    using append_decimal.appends_axioms [of ty v n fill] AppendDecimal
    by (simp add: decimal_chars [simplified] appends_def)
next
  case (AppendHex n v)
  then show ?thesis
    using append_hex.appends_axioms [of n v] by (simp add: append_hex_text appends_def)
next
  case (AppendFloat bits)
  then show ?thesis
    using append_float.appends_axioms [of bits] by (simp add: float_chars appends_def)
qed (simp_all add: appends_def append_text.holds_op append_char.holds_op append_padded.holds_op
    append_fitted.holds_op)

lemma fold_line_ops_appends:
  "\<forall>p \<in> set ps. line_op_ok p \<Longrightarrow> appends (fold run_line_op ps) (concat (map line_op_text ps))"
proof (induction ps)
  case Nil
  then show ?case using appends_id by (simp add: appends_def)
next
  case (Cons p ps)
  then show ?case
    using appends_seq [of "run_line_op p" "line_op_text p"] run_line_op_appends
    by (simp add: comp_def)
qed

section \<open>Properties\<close>

text \<open>
  C13. \<open>copy_plain\<close> scans eight characters at a time and finds exactly the first control character a
  scan of single characters finds; it has then copied the characters in front of it, and has not
  touched the output past the length of the text.
\<close>

theorem copy_plain_bytewise:
  assumes "length t \<le> length out" and "copy_plain out t = (out', n)"
  shows "n = length (takeWhile (\<lambda>c. \<not> is_control c) t) \<and> take n out' = take n t \<and>
         length out' = length out \<and> drop (length t) out' = drop (length t) out"
  using copy_plain_spec [OF assms(1)] assms(2) by (simp add: copied_def plain_run_def)

lemma copy_plain_bytewise_witness:
  "length (takeWhile (\<lambda>c. \<not> is_control c) ''word, DEL'') = 9 \<and>
   copy_plain (replicate 12 (CHR ''.'')) (''word, DEL'' @ [DEL, CHR ''x'']) =
     (''word, DEL'' @ ''...'', 9)"
proof -
  have eq: "copy_plain (replicate 12 (CHR ''.'')) (''word, DEL'' @ [DEL, CHR ''x'']) =
      (''word, DEL'' @ ''...'', 9)" by code_simp
  have "9 = length (takeWhile (\<lambda>c. \<not> is_control c) (''word, DEL'' @ [DEL, CHR ''x'']))"
    using copy_plain_bytewise [OF _ eq] by simp
  moreover have "takeWhile (\<lambda>c. \<not> is_control c) (''word, DEL'' @ [DEL, CHR ''x'']) =
      takeWhile (\<lambda>c. \<not> is_control c) ''word, DEL''" by code_simp
  ultimately show ?thesis using eq by simp
qed

text \<open>
  C12. Whatever sequence of appends writes a line, the writer shows the first characters of the text
  an unbounded writer would hold, as many as the buffer has, reports truncation exactly when that
  text is longer, and never writes outside the buffer.
\<close>

theorem line_writer_refines:
  assumes "\<forall>p \<in> set ps. line_op_ok p" and "w = fold run_line_op ps (LineWriter buffer)"
  shows "view w = take (length buffer) (concat (map line_op_text ps)) \<and>
         (is_truncated w \<longleftrightarrow> length buffer < length (concat (map line_op_text ps))) \<and>
         length (d_buffer w) = length buffer"
  using appends.holds_op [OF fold_line_ops_appends [OF assms(1)] holds_LineWriter, of buffer]
  by (simp add: holds_def assms(2))

lemma line_writer_refines_witness:
  "view (fold run_line_op [AppendPadded ''WARN'' 5 (CHR '' ''), AppendDecimal int32_t 42 0 (CHR '' ''),
      AppendChar LF, AppendFloat 0x3F000000, AppendHex 4 0xBEEF] (LineWriter (replicate 12 (CHR 0x00)))) =
   ''WARN 42'' @ [LF] @ ''0.5b''"
  using line_writer_refines [of "[AppendPadded ''WARN'' 5 (CHR '' ''), AppendDecimal int32_t 42 0 (CHR '' ''),
      AppendChar LF, AppendFloat 0x3F000000, AppendHex 4 0xBEEF]", OF _ refl, of "replicate 12 (CHR 0x00)"]
  by code_simp

text \<open>
  C28. \<open>append_continued\<close> writes the lines of the text, one trailing newline and the CR of each CRLF
  dropped and every other control character masked, joined by a newline and \<open>column\<close> spaces; so no
  control character but the newline gets into the output.
\<close>

theorem append_continued_lines:
  "view (append_continued (LineWriter buffer) t column) =
     take (length buffer) (join_lines column (text_lines (strip_trailing t))) \<and>
   set (filter is_control (view (append_continued (LineWriter buffer) t column))) \<subseteq> {LF}"
proof -
  have v: "view (append_continued (LineWriter buffer) t column) =
      take (length buffer) (continued_text column t)"
    by (rule append_continued.view_fresh)
  have "set (filter is_control (take (length buffer) (continued_text column t))) \<subseteq> {LF}"
    using continued_text_controls [of _ column t] by (auto dest: in_set_takeD)
  then show ?thesis
    by (simp only: v) (simp add: continued_text_def continued_body_lines)
qed

text \<open>
  C29. A decimal, if the buffer has room for it, is written in exactly the padding width, or in as
  many characters as it needs if that is more, and reads back as the value: with zeros in front the
  whole text is the value's decimal; after any other fill, a digit or not, its last characters are.
\<close>

theorem append_decimal_reads_back:
  assumes "in_range ty v" and "holds cap w s" and "length s + max width (digits10 ty + 2) \<le> cap"
  shows "\<exists>t. view (append_decimal ty w v width fill) = view w @ t \<and>
           length t = max width (length (decimal_text v)) \<and>
           (if fill = CHR ''0'' then decimal_value t = v
            else take (width - length (decimal_text v)) t = replicate (width - length (decimal_text v)) fill \<and>
                 decimal_value (drop (width - length (decimal_text v)) t) = v)"
proof -
  let ?t = "right_aligned (decimal_text v) width fill"
  have ne: "decimal_text v \<noteq> []" by (simp add: decimal_text_def)
  then have len: "length ?t = max width (length (decimal_text v))"
    by (cases "decimal_text v") (auto simp: right_aligned_def Let_def)
  then have "length s + length ?t \<le> cap"
    using assms(3) decimal_fits [OF assms(1)] by simp
  then have "view (append_decimal ty w v width fill) = view w @ ?t"
    using append_decimal.fits(1) [OF assms(2), of ty v width fill] decimal_chars [OF assms(1)]
    by simp
  moreover have "decimal_value ?t = v" if "fill = CHR ''0''"
    using zero_filled_decimal that by simp
  moreover have "?t = replicate (width - length (decimal_text v)) fill @ decimal_text v" if "fill \<noteq> CHR ''0''"
    using that by (simp add: right_aligned_def Let_def)
  ultimately show ?thesis using len by (intro exI [of _ ?t]) (auto simp: decimal_round_trip)
qed

lemma append_decimal_reads_back_witness:
  "\<exists>t. view (append_decimal int32_t (LineWriter (replicate 16 (CHR 0x00))) (- 42) 5 (CHR ''0'')) = t \<and>
     length t = 5 \<and> decimal_value t = - 42"
proof -
  have "length (decimal_text (- 42)) = 3" by code_simp
  moreover have "view (LineWriter (replicate 16 (CHR 0x00))) = []"
    by (simp add: view_def LineWriter_def memcpy_out_def)
  ultimately show ?thesis
    using append_decimal_reads_back [of int32_t "- 42" 16
        "LineWriter (replicate 16 (CHR 0x00))" "[]" 5 "CHR ''0''"]
      holds_LineWriter [of "replicate 16 (CHR 0x00)"]
    by simp
qed

text \<open>
  C31. A finite \<^verbatim>\<open>float\<close> is appended in at most 15 characters, which is what the code reserves, and reads back
  exactly: of all the \<^verbatim>\<open>float\<close>s, the one appended is the nearest to the number its text stands for, or has
  an even significand and is as near as another.
\<close>

theorem append_float_reads_back:
  assumes "is_finite bits" and "is_finite other" and "float_number other \<noteq> float_number bits"
    and "holds cap w s" and "length s + 15 \<le> cap"
  shows "\<exists>t. view (append_float w bits) = view w @ t \<and> is_truncated (append_float w bits) = is_truncated w \<and>
    length t \<le> 15 \<and>
    nearer (number_of_text t) (float_significand bits) (float_number bits) (float_number other)"
proof -
  have "length s + length (to_chars 15 (float_text bits)) \<le> cap"
    using float_text_fits [of bits] assms(5) by (simp add: float_chars)
  then show ?thesis
    using append_float.fits [OF assms(4), of bits] float_text_fits [of bits]
      float_text_reads_back [OF assms(1-3)] by (auto simp: float_chars)
qed

lemma append_float_reads_back_witness:
  "\<exists>t. view (append_float (LineWriter (replicate 16 (CHR 0x00))) 0x3DCCCCCD) = t \<and> length t \<le> 15 \<and>
     nearer (number_of_text t) 13421773 (float_number 0x3DCCCCCD) (float_number 0xC2C80000)"
proof -
  have "is_finite 0x3DCCCCCD" "is_finite 0xC2C80000" "float_number 0xC2C80000 \<noteq> float_number 0x3DCCCCCD"
    by code_simp+
  moreover have "view (LineWriter (replicate 16 (CHR 0x00))) = []"
    by (simp add: view_def LineWriter_def memcpy_out_def)
  ultimately show ?thesis
    using append_float_reads_back [of "0x3DCCCCCD" "0xC2C80000" 16 "LineWriter (replicate 16 (CHR 0x00))" "[]"]
      holds_LineWriter [of "replicate 16 (CHR 0x00)"]
    by (auto simp: float_significand_def float_biased_def float_fraction_def)
qed

text \<open>
  C30. \<open>append_hex\<close> writes exactly \<open>n\<close> digits, and they read back as the low \<open>4 n\<close> bits of the value.
\<close>

theorem append_hex_reads_back:
  assumes "n \<le> length buffer"
  shows "length (view (append_hex n (LineWriter buffer) v)) = n \<and>
         digits_value 16 (view (append_hex n (LineWriter buffer) v)) = unat v mod 16 ^ n"
proof -
  have "view (append_hex n (LineWriter buffer) v) = take (length buffer) (hex_text n v)"
    using append_hex.view_fresh by (simp add: append_hex_text)
  then show ?thesis using assms by (simp add: hex_text_value)
qed

lemma append_hex_reads_back_witness:
  "digits_value 16 (view (append_hex 4 (LineWriter (replicate 6 (CHR 0x00))) 0x1BEEF)) = 0xBEEF"
  using append_hex_reads_back [of 4 "replicate 6 (CHR 0x00)" "0x1BEEF"] by simp

text \<open>
  A formatter with an alternate form accepts exactly \<^verbatim>\<open>{}\<close> and \<^verbatim>\<open>{:#}\<close>, and knows which it
  parsed; one without accepts exactly \<^verbatim>\<open>{}\<close>. Any other specification is rejected.
\<close>

definition at_close :: "string \<Rightarrow> bool" where
  "at_close it = (it = [] \<or> hd it = CHR ''}'')"

theorem format_specs_accepted:
  "(AlternateFlagParser_parse AlternateFlagParser it = Some (p, rest) \<longleftrightarrow>
      p = \<lparr>d_alternate = is_alternate p\<rparr> \<and> at_close rest \<and>
      it = (if is_alternate p then ''#'' else []) @ rest) \<and>
   (EmptySpecParser_parse it = Some rest \<longleftrightarrow> at_close it \<and> rest = it)"
  by (cases it; cases p)
    (auto simp: AlternateFlagParser_parse_def EmptySpecParser_parse_def AlternateFlagParser_def
      is_alternate_def at_close_def)

end
