(* ===== verification/Core_Error_Format.thy ===== *)
theory Core_Error_Format
  imports Core_Error_Catalog Core_Format
begin

text \<open>
  \<^verbatim>\<open>core_error_format.h\<close>: an error as one line of text, written through a line writer, and the two
  \<^verbatim>\<open>std::formatter\<close> specializations. \<open>error_line\<close> is the text of the line on its own; the appends are
  proved to write it, and the formatters to output it whole.
\<close>

section \<open>Writing the line\<close>

datatype raw_value = RawValue_e_OMIT | RawValue_e_APPEND

definition k_SEPARATOR :: string where "k_SEPARATOR = '' | ''"
definition k_MAX_ERROR_LINE_SIZE :: nat where "k_MAX_ERROR_LINE_SIZE = 256"

definition append_descriptor :: "line_writer \<Rightarrow> error_descriptor \<Rightarrow> line_writer" where
  "append_descriptor writer descriptor =
     (let w1 = append_text writer (descriptor_domain descriptor);
          w2 = append_text w1 k_SEPARATOR;
          w3 = append_text w2 (descriptor_kind descriptor);
          w4 = append_text w3 k_SEPARATOR
      in append_text w4 (descriptor_reason descriptor))"

definition append_error :: "line_writer \<Rightarrow> error \<Rightarrow> raw_value \<Rightarrow> line_writer" where
  "append_error writer e raw =
     (let w1 = append_descriptor writer (ErrorDescriptor_make e);
          w2 = append_text w1 k_SEPARATOR;
          w3 = append_text w2 ''ctx=0x'';
          w4 = append_hex 8 w3 (ucast (error_context e))
      in if raw = RawValue_e_APPEND
         then append_hex 16 (append_text w4 '' <=> raw=0x'') (error_raw e)
         else w4)"

text \<open>The buffer afterwards, and the number of characters written.\<close>

definition format_line :: "string \<Rightarrow> error \<Rightarrow> raw_value \<Rightarrow> string \<times> nat" where
  "format_line buffer e raw =
     (let writer = append_error (LineWriter buffer) e raw in (d_buffer writer, d_size writer))"

text \<open>
  The formatters: the format specification is parsed, and the view of a local writer is copied to the
  output (\<open>None\<close>: the specification is rejected).
\<close>

definition format_descriptor :: "string \<Rightarrow> error_descriptor \<Rightarrow> string \<Rightarrow> (string \<times> string) option" where
  "format_descriptor out descriptor spec =
     (case EmptySpecParser_parse spec of
        None \<Rightarrow> None
      | Some rest \<Rightarrow>
          let buffer = replicate k_MAX_ERROR_LINE_SIZE (CHR 0x00);
              writer = append_descriptor (LineWriter buffer) descriptor
          in Some (out @ view writer, rest))"

definition format_error :: "string \<Rightarrow> error \<Rightarrow> string \<Rightarrow> (string \<times> string) option" where
  "format_error out e spec =
     (case AlternateFlagParser_parse AlternateFlagParser spec of
        None \<Rightarrow> None
      | Some (parser, rest) \<Rightarrow>
          let buffer = replicate k_MAX_ERROR_LINE_SIZE (CHR 0x00);
              writer = append_error (LineWriter buffer) e
                (if is_alternate parser then RawValue_e_APPEND else RawValue_e_OMIT)
          in Some (out @ view writer, rest))"

section \<open>The text of the line\<close>

definition descriptor_text :: "error_descriptor \<Rightarrow> string" where
  "descriptor_text d =
     descriptor_domain d @ k_SEPARATOR @ descriptor_kind d @ k_SEPARATOR @ descriptor_reason d"

definition error_line :: "error \<Rightarrow> raw_value \<Rightarrow> string" where
  "error_line e raw =
     descriptor_text (ErrorDescriptor_make e) @ '' | ctx=0x'' @ hex_text 8 (ucast (error_context e)) @
     (if raw = RawValue_e_APPEND then '' <=> raw=0x'' @ hex_text 16 (error_raw e) else [])"

interpretation append_descriptor: appends "\<lambda>w. append_descriptor w d" "descriptor_text d" for d
proof unfold_locales
  fix cap w s assume h: "holds cap w s"
  note a = append_text.holds_op
  show "holds cap (append_descriptor w d) (s @ descriptor_text d)"
    using a [OF a [OF a [OF a [OF a [OF h]]]]]
    by (simp add: append_descriptor_def descriptor_text_def Let_def)
qed

interpretation append_error: appends "\<lambda>w. append_error w e raw" "error_line e raw" for e raw
proof unfold_locales
  fix cap w s assume h: "holds cap w s"
  note a = append_text.holds_op and x = append_hex.holds_op
  have "holds cap (append_hex 8 (append_text (append_text (append_descriptor w (ErrorDescriptor_make e))
      k_SEPARATOR) ''ctx=0x'') (ucast (error_context e))) (s @ error_line e RawValue_e_OMIT)"
    using x [OF a [OF a [OF append_descriptor.holds_op [OF h, of "ErrorDescriptor_make e"],
            of k_SEPARATOR], of "''ctx=0x''"], of 8 "ucast (error_context e)"]
    by (simp add: error_line_def k_SEPARATOR_def append_hex_text)
  then show "holds cap (append_error w e raw) (s @ error_line e raw)"
    using x [OF a [of cap _ "s @ error_line e RawValue_e_OMIT" "'' <=> raw=0x''"], of _ 16 "error_raw e"]
    by (simp add: append_error_def Let_def error_line_def append_hex_text)
qed

lemma length_descriptor_text_make: "length (descriptor_text (ErrorDescriptor_make e)) \<le> 66"
  using length_to_string(1) [of "error_domain e"] length_to_string(2) [of "error_kind e"]
    length_to_string_reason_of [of e]
  by (simp add: descriptor_text_def ErrorDescriptor_make_def k_SEPARATOR_def)

lemma length_error_line: "length (error_line e raw) \<le> k_MAX_ERROR_LINE_SIZE"
  using length_descriptor_text_make [of e]
  by (simp add: error_line_def k_MAX_ERROR_LINE_SIZE_def)

lemma error_line_printable: "list_all printable (error_line e raw)"
proof -
  have "list_all printable (descriptor_text (ErrorDescriptor_make e))"
    by (simp add: descriptor_text_def ErrorDescriptor_make_def k_SEPARATOR_def printable_to_string
        printable_to_string_reason_of) (simp add: printable_def)
  then show ?thesis
    by (simp add: error_line_def hex_text_printable) (simp add: printable_def)
qed

section \<open>Properties\<close>

text \<open>
  C34. The line of an error, whatever its 64 bits, fits in a buffer of \<^verbatim>\<open>k_MAX_LINE_SIZE\<close> characters:
  \<open>format_line\<close> writes all of it, reports its length, and leaves the buffer's length alone.
\<close>

theorem error_line_fits:
  assumes "k_MAX_ERROR_LINE_SIZE \<le> length buffer" and "format_line buffer e raw = (buffer', n)"
  shows "take n buffer' = error_line e raw \<and> n = length (error_line e raw) \<and>
         n \<le> k_MAX_ERROR_LINE_SIZE \<and> length buffer' = length buffer"
proof -
  let ?w = "append_error (LineWriter buffer) e raw"
  have h: "holds (length buffer) ?w (error_line e raw)"
    using append_error.holds_op [OF holds_LineWriter, of buffer e raw] by simp
  have le: "length (error_line e raw) \<le> length buffer"
    using length_error_line [of e raw] assms(1) by simp
  then have "d_size ?w = length (error_line e raw)"
    using holds_size [OF h] by simp
  then show ?thesis
    using assms(2) h le length_error_line [of e raw]
    by (auto simp: format_line_def holds_def view_def memcpy_out_def Let_def)
qed

lemma error_line_fits_witness:
  "snd (format_line (replicate 256 (CHR 0x00))
     (error_make Kind_e_UNKNOWN VulkanReason_e_UNKNOWN 0xCD) RawValue_e_OMIT) = 43 \<and>
   error_line (error_make Kind_e_UNKNOWN VulkanReason_e_UNKNOWN 0xCD) RawValue_e_OMIT =
     ''vulkan | unknown | unknown | ctx=0x000000cd''"
proof -
  have "error_line (error_make Kind_e_UNKNOWN VulkanReason_e_UNKNOWN 0xCD) RawValue_e_OMIT =
      ''vulkan | unknown | unknown | ctx=0x000000cd''"
    by code_simp
  then show ?thesis
    using error_line_fits [of "replicate 256 (CHR 0x00)"
        "error_make Kind_e_UNKNOWN VulkanReason_e_UNKNOWN 0xCD" RawValue_e_OMIT, OF _ prod.collapse [symmetric]]
    by (simp add: k_MAX_ERROR_LINE_SIZE_def)
qed

text \<open>
  C40. \<^verbatim>\<open>{:#}\<close> makes a corrupt error decodable by hand: the last 16 characters formatted are the hex
  digits of its 64 bits. \<^verbatim>\<open>{}\<close> ends with the 8 digits of the context.
\<close>

theorem formatted_error_decodes:
  "\<exists>s t. format_error out e ''#}'' = Some (out @ s, ''}'') \<and>
     error_from_raw (of_nat (digits_value 16 (drop (length s - 16) s))) = e \<and>
     format_error out e ''}'' = Some (out @ t, ''}'') \<and>
     digits_value 16 (drop (length t - 8) t) = unat (error_context e) \<and>
     s = t @ '' <=> raw=0x'' @ drop (length s - 16) s"
proof -
  have v: "view (append_error (LineWriter (replicate k_MAX_ERROR_LINE_SIZE c)) e raw) = error_line e raw"
    for c raw
    using append_error.view_fresh [of "replicate k_MAX_ERROR_LINE_SIZE c" e raw]
      length_error_line [of e raw] by simp
  let ?s = "error_line e RawValue_e_APPEND" and ?t = "error_line e RawValue_e_OMIT"
  have s: "?s = ?t @ '' <=> raw=0x'' @ hex_text 16 (error_raw e)"
    by (simp add: error_line_def)
  then have last: "drop (length ?s - 16) ?s = hex_text 16 (error_raw e)"
    by simp
  have t: "drop (length ?t - 8) ?t = hex_text 8 (ucast (error_context e))"
    by (simp add: error_line_def)
  have "unat (error_raw e) mod 16 ^ 16 = unat (error_raw e)"
    using unat_less_2p64 [of "error_raw e"] by simp
  then have "error_from_raw (of_nat (digits_value 16 (drop (length ?s - 16) ?s))) = e"
    unfolding last hex_text_value by (simp add: error_from_raw_def)
  moreover have "digits_value 16 (drop (length ?t - 8) ?t) = unat (error_context e)"
    unfolding t hex_text_value using unat_less_2p32 [of "error_context e"] by simp
  moreover have "format_error out e ''#}'' = Some (out @ ?s, ''}'')"
    and "format_error out e ''}'' = Some (out @ ?t, ''}'')"
    by (simp_all add: format_error_def AlternateFlagParser_parse_def AlternateFlagParser_def
        is_alternate_def v Let_def)
  ultimately show ?thesis using s last by metis
qed

end
