(* ===== verification/Core_Log_Message.thy ===== *)
theory Core_Log_Message
  imports Core_Domain
begin

text \<open>
  \<^verbatim>\<open>core_log_message.h\<close>: the 64-bit log message, and the compile-time check that a message is made
  with the argument it declares.

  A message enumeration is a type parameter in the code; what the code uses of it is its
  \<^verbatim>\<open>LogMessageIdTraits\<close>, so the definitions take the traits. The \<^verbatim>\<open>consteval\<close> constructor of
  \<^verbatim>\<open>LogMessageId\<close> returns \<open>None\<close> where the program does not compile. A \<^verbatim>\<open>float\<close> is its 32 bits, which
  is all the code does with it; a \<^verbatim>\<open>std::int32_t\<close> is an \<open>int\<close> in its range.
\<close>

section \<open>Arguments\<close>

datatype argument = Argument (argument_underlying: u8)

abbreviation e_NONE :: argument where "e_NONE \<equiv> Argument 0"
abbreviation e_UNSIGNED :: argument where "e_UNSIGNED \<equiv> Argument 1"
abbreviation e_SIGNED :: argument where "e_SIGNED \<equiv> Argument 2"
abbreviation e_HEX :: argument where "e_HEX \<equiv> Argument 3"
abbreviation e_FLOAT :: argument where "e_FLOAT \<equiv> Argument 4"
abbreviation Argument_e_COUNT :: argument where "Argument_e_COUNT \<equiv> Argument 5"

text \<open>Enumerators compare as their underlying values.\<close>

instantiation argument :: linorder
begin

definition less_eq_argument :: "argument \<Rightarrow> argument \<Rightarrow> bool" where
  "less_eq_argument a b \<longleftrightarrow> argument_underlying a \<le> argument_underlying b"

definition less_argument :: "argument \<Rightarrow> argument \<Rightarrow> bool" where
  "less_argument a b \<longleftrightarrow> argument_underlying a < argument_underlying b"

instance
  by standard (auto simp: less_eq_argument_def less_argument_def intro: argument.expand)

end

text \<open>The type a message's argument is passed as: \<^verbatim>\<open>t_ARGUMENT\<close>.\<close>

datatype argument_type = Void | Uint32 | Int32 | Float

text \<open>An enumeration's traits, and the three specializations.\<close>

record message_traits =
  traits_domain :: domain
  k_ARGUMENTS :: "argument list"

definition CoreMessage_traits :: message_traits where
  "CoreMessage_traits = \<lparr>traits_domain = Domain_e_CORE, k_ARGUMENTS = [e_NONE]\<rparr>"
definition VulkanMessage_traits :: message_traits where
  "VulkanMessage_traits = \<lparr>traits_domain = Domain_e_VULKAN, k_ARGUMENTS = [e_NONE]\<rparr>"
definition MetalMessage_traits :: message_traits where
  "MetalMessage_traits = \<lparr>traits_domain = Domain_e_METAL, k_ARGUMENTS = [e_NONE]\<rparr>"

section \<open>Message ids\<close>

record log_message_id =
  id_type :: argument_type
  id_domain :: domain
  id_value :: u16

fun accepts :: "argument_type \<Rightarrow> argument \<Rightarrow> bool" where
  "accepts Void a \<longleftrightarrow> a = e_NONE"
| "accepts Uint32 a \<longleftrightarrow> a = e_UNSIGNED \<or> a = e_HEX"
| "accepts Int32 a \<longleftrightarrow> a = e_SIGNED"
| "accepts Float a \<longleftrightarrow> a = e_FLOAT"

definition LogMessageId :: "argument_type \<Rightarrow> message_traits \<Rightarrow> u16 \<Rightarrow> log_message_id option" where
  "LogMessageId ty traits i =
     (if length (k_ARGUMENTS traits) \<le> unat i \<or> \<not> accepts ty (k_ARGUMENTS traits ! unat i)
      then None
      else Some \<lparr>id_type = ty, id_domain = traits_domain traits, id_value = i\<rparr>)"

section \<open>Messages\<close>

datatype log_message = LogMessage (message_raw: u64)

definition message_pack :: "domain \<Rightarrow> u16 \<Rightarrow> u32 \<Rightarrow> log_message" where
  "message_pack d i arg =
     LogMessage (ucast (domain_underlying d) OR push_bit 16 (ucast i) OR push_bit 32 (ucast arg))"

text \<open>The value a message is made with: one overload of \<^verbatim>\<open>make\<close> each.\<close>

datatype made_with = NoArgument | UnsignedArgument u32 | SignedArgument int | FloatArgument u32

fun type_of :: "made_with \<Rightarrow> argument_type" where
  "type_of NoArgument = Void"
| "type_of (UnsignedArgument v) = Uint32"
| "type_of (SignedArgument v) = Int32"
| "type_of (FloatArgument bits) = Float"

fun argument_bits :: "made_with \<Rightarrow> u32" where
  "argument_bits NoArgument = 0"
| "argument_bits (UnsignedArgument v) = v"
| "argument_bits (SignedArgument v) = word_of_int v"
| "argument_bits (FloatArgument bits) = bits"

definition message_make :: "log_message_id \<Rightarrow> made_with \<Rightarrow> log_message" where
  "message_make i v = message_pack (id_domain i) (id_value i) (argument_bits v)"

text \<open>A call of \<^verbatim>\<open>make\<close> with an enumerator: the id converts to the id of the argument's type.\<close>

definition make_call :: "message_traits \<Rightarrow> u16 \<Rightarrow> made_with \<Rightarrow> log_message option" where
  "make_call traits i v = map_option (\<lambda>i. message_make i v) (LogMessageId (type_of v) traits i)"

definition message_from_raw :: "u64 \<Rightarrow> log_message" where
  "message_from_raw raw = LogMessage raw"

definition message_domain :: "log_message \<Rightarrow> domain" where
  "message_domain m = Domain (ucast (message_raw m AND 0xFF))"

definition message_id :: "log_message \<Rightarrow> u16" where
  "message_id m = ucast (drop_bit 16 (message_raw m) AND 0xFFFF)"

text \<open>\<^verbatim>\<open>id_as\<close>: the id, if the assertion on the domain holds.\<close>

definition message_id_as :: "message_traits \<Rightarrow> log_message \<Rightarrow> u16 option" where
  "message_id_as traits m =
     (if message_domain m = traits_domain traits then Some (message_id m) else None)"

definition message_argument :: "log_message \<Rightarrow> u32" where
  "message_argument m = ucast (drop_bit 32 (message_raw m))"

definition message_signed_argument :: "log_message \<Rightarrow> int" where
  "message_signed_argument m = sint (message_argument m)"

definition message_float_argument :: "log_message \<Rightarrow> u32" where
  "message_float_argument m = message_argument m"

section \<open>Reading back the fields\<close>

lemma message_pack_domain [codec]: "message_domain (message_pack d i a) = d"
proof -
  have "ucast (message_raw (message_pack d i a) AND 0xFF) = domain_underlying d"
    unfolding message_pack_def by (rule bit_word_eqI) (auto simp: field_bits dest: bit_imp_le_length)
  then show ?thesis by (simp add: message_domain_def)
qed

lemma message_pack_id [codec]: "message_id (message_pack d i a) = i"
  unfolding message_pack_def message_id_def
  by (rule bit_word_eqI) (auto simp: field_bits dest: bit_imp_le_length)

lemma message_pack_argument [codec]: "message_argument (message_pack d i a) = a"
  unfolding message_pack_def message_argument_def
  by (rule bit_word_eqI) (auto simp: field_bits dest: bit_imp_le_length)

lemma make_call_SomeD:
  assumes "make_call traits i v = Some m"
  shows "unat i < length (k_ARGUMENTS traits)"
    and "accepts (type_of v) (k_ARGUMENTS traits ! unat i)"
    and "m = message_pack (traits_domain traits) i (argument_bits v)"
  using assms by (auto simp: make_call_def LogMessageId_def message_make_def split: if_splits)

text \<open>What an argument reads as, through the accessor for its type.\<close>

fun read_argument :: "argument_type \<Rightarrow> log_message \<Rightarrow> made_with" where
  "read_argument Void m = NoArgument"
| "read_argument Uint32 m = UnsignedArgument (message_argument m)"
| "read_argument Int32 m = SignedArgument (message_signed_argument m)"
| "read_argument Float m = FloatArgument (message_float_argument m)"

definition argument_in_range :: "made_with \<Rightarrow> bool" where
  "argument_in_range v =
     (case v of SignedArgument i \<Rightarrow> - (2 ^ 31) \<le> i \<and> i < 2 ^ 31 | _ \<Rightarrow> True)"

lemma read_argument_pack:
  "argument_in_range v \<Longrightarrow> read_argument (type_of v) (message_pack d i (argument_bits v)) = v"
  by (cases v)
    (auto simp: codec argument_in_range_def message_signed_argument_def message_float_argument_def
      sint_sbintrunc' signed_take_bit_int_eq_self)

section \<open>Properties\<close>

text \<open>
  C39. A message that compiles is one of its enumeration, made with the argument it declares, and
  gives back its domain, its id and that argument: unsigned, signed or a float bit for bit.
\<close>

theorem message_made_reads_back:
  assumes "make_call traits i v = Some m" and "argument_in_range v"
  shows "message_domain m = traits_domain traits \<and> message_id_as traits m = Some i \<and>
         read_argument (type_of v) m = v \<and>
         unat i < length (k_ARGUMENTS traits) \<and>
         accepts (type_of v) (k_ARGUMENTS traits ! unat i)"
  using make_call_SomeD [OF assms(1)] read_argument_pack [OF assms(2)]
  by (simp add: codec message_id_as_def)

lemma message_made_reads_back_witness:
  "\<exists>m. make_call \<lparr>traits_domain = Domain_e_CORE, k_ARGUMENTS = [e_NONE, e_SIGNED]\<rparr> 1
         (SignedArgument (- 7)) = Some m \<and> message_signed_argument m = - 7"
proof -
  let ?traits = "\<lparr>traits_domain = Domain_e_CORE, k_ARGUMENTS = [e_NONE, e_SIGNED]\<rparr>"
  have made: "make_call ?traits 1 (SignedArgument (- 7)) =
      Some (message_pack Domain_e_CORE 1 (word_of_int (- 7)))"
    by (simp add: make_call_def LogMessageId_def message_make_def)
  show ?thesis
    using message_made_reads_back [OF made] made by (simp add: argument_in_range_def)
qed

lemma accepts_iff: "accepts ty a \<Longrightarrow> accepts ty' a \<Longrightarrow> ty = ty'"
  by (cases ty; cases ty') auto

lemma argument_enumerators:
  "a < Argument_e_COUNT \<longleftrightarrow> a \<in> {e_NONE, e_UNSIGNED, e_SIGNED, e_HEX, e_FLOAT}"
proof -
  obtain w where a: "a = Argument w" by (cases a)
  have "unat w < 5 \<longleftrightarrow> unat w \<in> {0, 1, 2, 3, 4}" by auto
  then show ?thesis
    by (auto simp: a less_argument_def word_less_nat_alt word_unat_eq_iff)
qed

text \<open>
  The check is complete: an enumerator can be made with some type of argument, and with only
  one, exactly when it is a message (\<^verbatim>\<open>e_COUNT\<close> is not) whose declared argument is an enumerator.
\<close>

theorem message_id_check:
  "(\<exists>!ty. LogMessageId ty traits i \<noteq> None) \<longleftrightarrow>
   unat i < length (k_ARGUMENTS traits) \<and> k_ARGUMENTS traits ! unat i < Argument_e_COUNT"
proof -
  have "LogMessageId ty traits i \<noteq> None \<longleftrightarrow>
      unat i < length (k_ARGUMENTS traits) \<and> accepts ty (k_ARGUMENTS traits ! unat i)" for ty
    by (auto simp: LogMessageId_def)
  moreover have "(\<exists>ty. accepts ty a) \<longleftrightarrow> a < Argument_e_COUNT" for a
    unfolding argument_enumerators
    by (auto intro: accepts.simps(1) [THEN iffD2] accepts.simps(2) [THEN iffD2]
        accepts.simps(3) [THEN iffD2] accepts.simps(4) [THEN iffD2] elim: accepts.elims)
  ultimately show ?thesis using accepts_iff by metis
qed

text \<open>
  Reading a message from any 64 bits and packing what it reads as gives the same bits, the
  unused byte between domain and id cleared: the three accessors see everything that was pushed.
\<close>

theorem message_repacked:
  "message_pack (message_domain m) (message_id m) (message_argument m) =
     message_from_raw (message_raw m AND NOT (push_bit 8 0xFF))"
proof -
  have "message_raw (message_pack (message_domain m) (message_id m) (message_argument m)) =
      message_raw m AND NOT (push_bit 8 0xFF)"
    unfolding message_pack_def message_domain_def message_id_def message_argument_def
    apply (rule bit_word_eqI)
    subgoal for n by (cases "n < 32") (auto simp: field_bits dest: bit_imp_le_length)
    done
  then show ?thesis by (auto simp: message_from_raw_def intro: log_message.expand)
qed

end
