(* ===== verification/Core_Log_Message_Catalog.thy ===== *)
theory Core_Log_Message_Catalog
  imports Core_Log_Message "HOL-Library.Sublist"
begin

text \<open>
  \<^verbatim>\<open>core_log_message_catalog.h\<close>: the texts of the messages. A text is checked in one pass and split at
  its placeholder when the program is compiled; a text that does not compile is \<open>None\<close>. The checks
  are proved against a reading of the documented rule (\<open>valid_text\<close>), and the split to lose nothing.
\<close>

section \<open>Texts\<close>

definition k_PLACEHOLDER :: string where "k_PLACEHOLDER = ''{}''"

record log_message_text =
  d_prefix :: string
  d_suffix :: string
  d_argument :: argument

text \<open>
  The value of a \<^verbatim>\<open>char\<close>, which is signed or not with the platform; the comparisons of \<open>is_valid\<close> come
  out the same (\<open>printable_char\<close>).
\<close>

definition char_value :: "bool \<Rightarrow> char \<Rightarrow> int" where
  "char_value char_signed c = (if char_signed \<and> 128 \<le> (of_char c :: int) then of_char c - 256 else of_char c)"

definition not_printable :: "bool \<Rightarrow> char \<Rightarrow> bool" where
  "not_printable char_signed c \<longleftrightarrow>
     char_value char_signed c < char_value char_signed (CHR '' '') \<or>
     char_value char_signed (CHR ''~'') < char_value char_signed c"

definition is_brace :: "char \<Rightarrow> bool" where
  "is_brace c \<longleftrightarrow> c = CHR ''{'' \<or> c = CHR ''}''"

text \<open>The pass over the text: \<open>c # cs\<close> is \<^verbatim>\<open>text.substr(i)\<close>.\<close>

fun is_valid_loop :: "bool \<Rightarrow> string \<Rightarrow> nat \<Rightarrow> bool \<Rightarrow> argument \<Rightarrow> bool" where
  "is_valid_loop char_signed [] braces has_placeholder arg \<longleftrightarrow>
     has_placeholder = (arg \<noteq> e_NONE) \<and> braces = (if has_placeholder then 2 else 0)"
| "is_valid_loop char_signed (c # cs) braces has_placeholder arg \<longleftrightarrow>
     (if not_printable char_signed c then False
      else if is_brace c then
        is_valid_loop char_signed cs (braces + 1) (has_placeholder \<or> prefix k_PLACEHOLDER (c # cs)) arg
      else is_valid_loop char_signed cs braces has_placeholder arg)"

definition is_valid :: "bool \<Rightarrow> string \<Rightarrow> argument \<Rightarrow> bool" where
  "is_valid char_signed t arg =
     (if t = [] \<or> hd t = CHR '' '' \<or> last t = CHR '' '' \<or> Argument_e_COUNT \<le> arg then False
      else is_valid_loop char_signed t 0 False arg)"

text \<open>\<^verbatim>\<open>text.find(k_PLACEHOLDER)\<close>, \<open>None\<close> for \<^verbatim>\<open>npos\<close>.\<close>

fun find_placeholder :: "string \<Rightarrow> nat option" where
  "find_placeholder [] = None"
| "find_placeholder (c # cs) =
     (if prefix k_PLACEHOLDER (c # cs) then Some 0 else map_option Suc (find_placeholder cs))"

definition LogMessageText_default :: log_message_text where
  "LogMessageText_default = \<lparr>d_prefix = ''?'', d_suffix = [], d_argument = e_NONE\<rparr>"

definition LogMessageText :: "bool \<Rightarrow> string \<Rightarrow> argument \<Rightarrow> log_message_text option" where
  "LogMessageText char_signed t arg =
     (if \<not> is_valid char_signed t arg then None
      else case find_placeholder t of
        None \<Rightarrow> Some \<lparr>d_prefix = t, d_suffix = [], d_argument = arg\<rparr>
      | Some i \<Rightarrow> Some \<lparr>d_prefix = take i t, d_suffix = drop (i + length k_PLACEHOLDER) t,
                        d_argument = arg\<rparr>)"

definition message_table :: "bool \<Rightarrow> message_traits \<Rightarrow> string list \<Rightarrow> log_message_text list option" where
  "message_table char_signed traits ts =
     (if length (k_ARGUMENTS traits) < length ts then None
      else those (map2 (LogMessageText char_signed) ts (k_ARGUMENTS traits)))"

section \<open>The catalog\<close>

text \<open>The tables compile (\<open>tables_compile\<close>), so \<open>the\<close> is never applied to \<open>None\<close>.\<close>

definition CoreMessage_k_TEXTS :: "log_message_text list" where
  "CoreMessage_k_TEXTS = the (message_table True CoreMessage_traits [''unknown''])"
definition VulkanMessage_k_TEXTS :: "log_message_text list" where
  "VulkanMessage_k_TEXTS = the (message_table True VulkanMessage_traits [''unknown''])"
definition MetalMessage_k_TEXTS :: "log_message_text list" where
  "MetalMessage_k_TEXTS = the (message_table True MetalMessage_traits [''unknown''])"

definition k_UNNAMED_TEXT :: log_message_text where
  "k_UNNAMED_TEXT = LogMessageText_default"

definition lookup_text :: "log_message_text list \<Rightarrow> nat \<Rightarrow> log_message_text" where
  "lookup_text texts index = (if index < length texts then texts ! index else k_UNNAMED_TEXT)"

definition message_to_string_domain :: "domain \<Rightarrow> string" where
  "message_to_string_domain d =
     (let index = unat (domain_underlying d) in
      if index < length k_DOMAIN_NAMES then k_DOMAIN_NAMES ! index else ''?'')"

definition catalog_text :: "log_message_text list \<Rightarrow> u16 \<Rightarrow> log_message_text" where
  "catalog_text texts i = lookup_text texts (unat i)"

definition text_of :: "log_message \<Rightarrow> log_message_text" where
  "text_of m =
     (if message_domain m = Domain_e_UNKNOWN \<or> message_domain m = Domain_e_COUNT then k_UNNAMED_TEXT
      else if message_domain m = Domain_e_CORE then
        catalog_text CoreMessage_k_TEXTS (the (message_id_as CoreMessage_traits m))
      else if message_domain m = Domain_e_VULKAN then
        catalog_text VulkanMessage_k_TEXTS (the (message_id_as VulkanMessage_traits m))
      else if message_domain m = Domain_e_METAL then
        catalog_text MetalMessage_k_TEXTS (the (message_id_as MetalMessage_traits m))
      else k_UNNAMED_TEXT)"

lemma id_as_in_case:
  "message_domain m = traits_domain traits \<Longrightarrow> message_id_as traits m = Some (message_id m)"
  by (simp add: message_id_as_def)

lemma tables_compile:
  "CoreMessage_k_TEXTS = [\<lparr>d_prefix = ''unknown'', d_suffix = [], d_argument = e_NONE\<rparr>]"
  "VulkanMessage_k_TEXTS = [\<lparr>d_prefix = ''unknown'', d_suffix = [], d_argument = e_NONE\<rparr>]"
  "MetalMessage_k_TEXTS = [\<lparr>d_prefix = ''unknown'', d_suffix = [], d_argument = e_NONE\<rparr>]"
  by code_simp+

section \<open>The documented rule\<close>

definition no_brace :: "string \<Rightarrow> bool" where
  "no_brace t = list_all (\<lambda>c. \<not> is_brace c) t"

definition valid_text :: "string \<Rightarrow> argument \<Rightarrow> bool" where
  "valid_text t arg \<longleftrightarrow>
     t \<noteq> [] \<and> hd t \<noteq> CHR '' '' \<and> last t \<noteq> CHR '' '' \<and> list_all printable t \<and> arg < Argument_e_COUNT \<and>
     (if arg = e_NONE then no_brace t
      else \<exists>p q. t = p @ k_PLACEHOLDER @ q \<and> no_brace p \<and> no_brace q)"

lemma printable_char: "not_printable char_signed c \<longleftrightarrow> \<not> printable c"
proof -
  define n :: nat where "n = of_char c"
  have "n < 256" "(of_char c :: int) = int n"
    unfolding n_def by (rule of_char_less_256) (rule of_nat_of_char [symmetric])
  then show ?thesis
    by (auto simp: not_printable_def printable_def char_value_def simp flip: n_def)
qed

definition has_place :: "string \<Rightarrow> bool" where
  "has_place t \<longleftrightarrow> find_placeholder t \<noteq> None"

definition brace_count :: "string \<Rightarrow> nat" where
  "brace_count t = length (filter is_brace t)"

lemma has_place_Cons: "has_place (c # cs) \<longleftrightarrow> prefix k_PLACEHOLDER (c # cs) \<or> has_place cs"
  by (auto simp: has_place_def)

lemma prefix_placeholder_brace: "prefix k_PLACEHOLDER (c # cs) \<Longrightarrow> is_brace c"
  by (simp add: k_PLACEHOLDER_def is_brace_def)

lemma is_valid_loop_spec:
  "is_valid_loop char_signed t n h arg \<longleftrightarrow>
     list_all printable t \<and> (h \<or> has_place t) = (arg \<noteq> e_NONE) \<and>
     n + brace_count t = (if h \<or> has_place t then 2 else 0)"
proof (induction t arbitrary: n h)
  case Nil
  then show ?case by (simp add: has_place_def brace_count_def)
next
  case (Cons c cs)
  then show ?case
    using prefix_placeholder_brace [of c cs]
    by (auto simp: printable_char has_place_Cons brace_count_def simp del: find_placeholder.simps)
qed

lemma find_placeholder_split:
  "find_placeholder t = Some i \<Longrightarrow> t = take i t @ k_PLACEHOLDER @ drop (i + length k_PLACEHOLDER) t"
proof (induction t arbitrary: i)
  case Nil
  then show ?case by simp
next
  case (Cons c cs)
  show ?case
  proof (cases "prefix k_PLACEHOLDER (c # cs)")
    case True
    then show ?thesis using Cons.prems by (auto simp: prefix_def)
  next
    case False
    then obtain j where "find_placeholder cs = Some j" "i = Suc j"
      using Cons.prems by auto
    then show ?thesis using Cons.IH [of j] by simp
  qed
qed

lemma find_placeholder_first:
  "no_brace p \<Longrightarrow> find_placeholder (p @ k_PLACEHOLDER @ q) = Some (length p)"
  by (induction p) (auto simp: no_brace_def k_PLACEHOLDER_def is_brace_def)

lemma no_brace_count: "no_brace t \<longleftrightarrow> brace_count t = 0"
  by (auto simp: no_brace_def brace_count_def list_all_iff filter_empty_conv)

lemma no_brace_no_place: "no_brace t \<Longrightarrow> find_placeholder t = None"
  by (induction t) (auto simp: no_brace_def k_PLACEHOLDER_def is_brace_def)

lemma one_placeholder:
  "has_place t \<and> brace_count t = 2 \<longleftrightarrow> (\<exists>p q. t = p @ k_PLACEHOLDER @ q \<and> no_brace p \<and> no_brace q)"
proof
  have two: "brace_count (p @ k_PLACEHOLDER @ q) = brace_count p + 2 + brace_count q" for p q
    by (simp add: brace_count_def k_PLACEHOLDER_def is_brace_def)
  {
    assume a: "has_place t \<and> brace_count t = 2"
    then obtain i where "find_placeholder t = Some i" by (auto simp: has_place_def)
    then obtain p q where t: "t = p @ k_PLACEHOLDER @ q"
      using find_placeholder_split by blast
    then have "brace_count p + 2 + brace_count q = 2" using a two [of p q] by simp
    then show "\<exists>p q. t = p @ k_PLACEHOLDER @ q \<and> no_brace p \<and> no_brace q"
      using t by (auto simp: no_brace_count)
  next
    assume "\<exists>p q. t = p @ k_PLACEHOLDER @ q \<and> no_brace p \<and> no_brace q"
    then obtain p q where "t = p @ k_PLACEHOLDER @ q" "no_brace p" "no_brace q" by blast
    then show "has_place t \<and> brace_count t = 2"
      using two [of p q] find_placeholder_first [of p q] by (simp add: has_place_def no_brace_count)
  }
qed

lemma is_valid_iff: "is_valid char_signed t arg \<longleftrightarrow> valid_text t arg"
proof -
  have "is_valid_loop char_signed t 0 False arg \<longleftrightarrow>
      list_all printable t \<and> (if arg = e_NONE then no_brace t
        else \<exists>p q. t = p @ k_PLACEHOLDER @ q \<and> no_brace p \<and> no_brace q)"
  proof -
    have "brace_count t = 0 \<Longrightarrow> \<not> has_place t"
      using no_brace_no_place [of t] by (simp add: no_brace_count has_place_def)
    then show ?thesis
      unfolding is_valid_loop_spec one_placeholder [symmetric] no_brace_count [of t] by auto
  qed
  then show ?thesis
    by (auto simp: is_valid_def valid_text_def not_le)
qed

section \<open>Properties\<close>

text \<open>
  C36. The one-pass check of a text accepts exactly the documented rule: a non-empty line of
  printable ASCII with no space at either end, whose only braces are one \<^verbatim>\<open>{}\<close>, there if and only if
  the message declares an argument; whether \<^verbatim>\<open>char\<close> is signed or not.
\<close>

theorem text_check_exact:
  "is_valid char_signed t arg \<longleftrightarrow>
     t \<noteq> [] \<and> hd t \<noteq> CHR '' '' \<and> last t \<noteq> CHR '' '' \<and> list_all printable t \<and> arg < Argument_e_COUNT \<and>
     (if arg = e_NONE then no_brace t
      else \<exists>p q. t = p @ k_PLACEHOLDER @ q \<and> no_brace p \<and> no_brace q)"
  unfolding is_valid_iff valid_text_def ..

text \<open>
  The split of a text that compiles loses nothing: putting the placeholder back between the two
  halves gives the text, neither half holds a brace, and a text with no argument is all prefix.
\<close>

theorem text_split_round_trip:
  assumes "LogMessageText char_signed t arg = Some m"
  shows "t = (if arg = e_NONE then d_prefix m else d_prefix m @ k_PLACEHOLDER @ d_suffix m) \<and>
         (if arg = e_NONE then d_suffix m = [] else True) \<and>
         no_brace (d_prefix m) \<and> no_brace (d_suffix m) \<and> d_argument m = arg"
proof -
  have v: "valid_text t arg"
    using assms is_valid_iff [of char_signed t arg] by (auto simp: LogMessageText_def split: if_splits)
  show ?thesis
  proof (cases "arg = e_NONE")
    case True
    then have "no_brace t" using v by (simp add: valid_text_def)
    then show ?thesis
      using assms True no_brace_no_place [of t]
      by (auto simp: LogMessageText_def no_brace_def split: if_splits)
  next
    case False
    then obtain p q where t: "t = p @ k_PLACEHOLDER @ q" and nb: "no_brace p" "no_brace q"
      using v by (auto simp: valid_text_def)
    have "find_placeholder t = Some (length p)"
      unfolding t by (rule find_placeholder_first [OF nb(1)])
    then show ?thesis
      using assms False nb by (auto simp: LogMessageText_def t split: if_splits)
  qed
qed

lemma text_split_round_trip_witness:
  "\<exists>m. LogMessageText True ''streamed {} pages'' e_UNSIGNED = Some m \<and>
     ''streamed {} pages'' = d_prefix m @ ''{}'' @ d_suffix m \<and> no_brace (d_suffix m)"
proof -
  have made: "LogMessageText True ''streamed {} pages'' e_UNSIGNED =
      Some \<lparr>d_prefix = ''streamed '', d_suffix = '' pages'', d_argument = e_UNSIGNED\<rparr>"
    by code_simp
  show ?thesis
    using text_split_round_trip [OF made] made by (simp add: k_PLACEHOLDER_def)
qed

text \<open>
  Every message has a text, whatever its 64 bits: the one in the table of its domain, at its id,
  or \<^verbatim>\<open>"?"\<close> if there is none; and no text shows a brace or a control character.
\<close>

theorem every_message_reads:
  "text_of m =
     (case find (\<lambda>(traits, texts). traits_domain traits = message_domain m)
             [(CoreMessage_traits, CoreMessage_k_TEXTS), (VulkanMessage_traits, VulkanMessage_k_TEXTS),
              (MetalMessage_traits, MetalMessage_k_TEXTS)] of
        None \<Rightarrow> LogMessageText_default
      | Some (traits, texts) \<Rightarrow>
          if unat (message_id m) < length texts then texts ! unat (message_id m)
          else LogMessageText_default) \<and>
   list_all printable (d_prefix (text_of m) @ d_suffix (text_of m)) \<and>
   no_brace (d_prefix (text_of m) @ d_suffix (text_of m))"
proof -
  have r: "text_of m =
     (case find (\<lambda>(traits, texts). traits_domain traits = message_domain m)
             [(CoreMessage_traits, CoreMessage_k_TEXTS), (VulkanMessage_traits, VulkanMessage_k_TEXTS),
              (MetalMessage_traits, MetalMessage_k_TEXTS)] of
        None \<Rightarrow> LogMessageText_default
      | Some (traits, texts) \<Rightarrow>
          if unat (message_id m) < length texts then texts ! unat (message_id m)
          else LogMessageText_default)"
    by (auto simp: text_of_def catalog_text_def lookup_text_def k_UNNAMED_TEXT_def id_as_in_case
        CoreMessage_traits_def VulkanMessage_traits_def MetalMessage_traits_def)
  have "text_of m \<in> {LogMessageText_default, \<lparr>d_prefix = ''unknown'', d_suffix = [], d_argument = e_NONE\<rparr>}"
    by (auto simp: text_of_def catalog_text_def lookup_text_def k_UNNAMED_TEXT_def tables_compile)
  moreover have "list_all printable ''?unknown'' \<and> no_brace ''?unknown''"
    by code_simp
  ultimately show ?thesis
    using r by (auto simp: LogMessageText_default_def no_brace_def)
qed

end
