(* ===== verification/Core_Log_Message_Format.thy ===== *)
theory Core_Log_Message_Format
  imports Core_Log_Message_Catalog Core_Format
begin

text \<open>
  \<^verbatim>\<open>core_log_message_format.h\<close>: a message as one line of text, with its argument shown as its message
  declares, and the \<^verbatim>\<open>std::formatter\<close> specialization. The default pad width is 0 and the default fill a space.
\<close>

section \<open>Writing the line\<close>

datatype message_raw_value = MessageRaw_e_OMIT | MessageRaw_e_APPEND

definition k_MESSAGE_SEPARATOR :: string where "k_MESSAGE_SEPARATOR = '' | ''"
definition k_MAX_MESSAGE_LINE_SIZE :: nat where "k_MAX_MESSAGE_LINE_SIZE = 256"

text \<open>The switch over the declared argument; a value no enumerator has falls through.\<close>

definition append_argument ::
    "argument \<Rightarrow> u32 \<Rightarrow> line_writer \<Rightarrow> line_writer" where
  "append_argument a bits w =
     (if a = e_NONE then w
      else if a = e_UNSIGNED then append_decimal uint32_t w (uint bits) 0 (CHR '' '')
      else if a = e_SIGNED then append_decimal int32_t w (sint bits) 0 (CHR '' '')
      else if a = e_HEX then append_hex 8 (append_text w ''0x'') (ucast bits)
      else if a = e_FLOAT then append_float w bits
      else if a = Argument_e_COUNT then append_char w (CHR ''?'')
      else w)"

definition message_append_text ::
    "line_writer \<Rightarrow> log_message_text \<Rightarrow> u32 \<Rightarrow> line_writer" where
  "message_append_text writer t bits =
     (let w1 = append_text writer (d_prefix t);
          w2 = append_argument (d_argument t) bits w1
      in append_text w2 (d_suffix t))"

definition append_message ::
    "line_writer \<Rightarrow> log_message \<Rightarrow> message_raw_value \<Rightarrow> line_writer" where
  "append_message writer m raw =
     (let w1 = append_text writer (message_to_string_domain (message_domain m));
          w2 = append_text w1 k_MESSAGE_SEPARATOR;
          w3 = message_append_text w2 (text_of m) (message_argument m)
      in if raw = MessageRaw_e_APPEND
         then append_hex 16 (append_text w3 '' <=> raw=0x'') (message_raw m)
         else w3)"

definition message_format_line ::
    "string \<Rightarrow> log_message \<Rightarrow> message_raw_value \<Rightarrow> string \<times> nat" where
  "message_format_line buffer m raw =
     (let writer = append_message (LineWriter buffer) m raw
      in (d_buffer writer, d_size writer))"

definition format_message ::
    "string \<Rightarrow> log_message \<Rightarrow> string \<Rightarrow> (string \<times> string) option" where
  "format_message out m spec =
     (case AlternateFlagParser_parse AlternateFlagParser spec of
        None \<Rightarrow> None
      | Some (parser, rest) \<Rightarrow>
          let buffer = replicate k_MAX_MESSAGE_LINE_SIZE (CHR 0x00);
              writer = append_message (LineWriter buffer) m
                (if is_alternate parser then MessageRaw_e_APPEND else MessageRaw_e_OMIT)
          in Some (out @ view writer, rest))"

section \<open>The text of the line\<close>

definition argument_text :: "argument \<Rightarrow> u32 \<Rightarrow> string" where
  "argument_text a bits =
     (if a = e_UNSIGNED then decimal_text (uint bits)
      else if a = e_SIGNED then decimal_text (sint bits)
      else if a = e_HEX then ''0x'' @ hex_text 8 (ucast bits)
      else if a = e_FLOAT then to_chars 15 (float_text bits)
      else if a = Argument_e_COUNT then ''?''
      else [])"

definition message_text :: "log_message_text \<Rightarrow> u32 \<Rightarrow> string" where
  "message_text t bits =
     d_prefix t @ argument_text (d_argument t) bits @ d_suffix t"

definition message_line :: "log_message \<Rightarrow> message_raw_value \<Rightarrow> string" where
  "message_line m raw =
     message_to_string_domain (message_domain m) @ '' | '' @
     message_text (text_of m) (message_argument m) @
     (if raw = MessageRaw_e_APPEND then '' <=> raw=0x'' @ hex_text 16 (message_raw m) else [])"

lemma unpadded: "right_aligned t 0 c = t"
  by (simp add: right_aligned_def)

lemma u32_in_range: "in_range uint32_t (uint (w :: u32))" "in_range int32_t (sint (w :: u32))"
  using uint_lt2p [of w] sint_range_size [of w] by (simp_all add: word_size)

interpretation append_argument: appends "append_argument a bits" "argument_text a bits"
    for a bits
proof unfold_locales
  fix cap w s assume h: "holds cap w s"
  note fields = append_decimal.holds_op [OF h, of uint32_t "uint bits" 0 "CHR '' ''"]
    append_decimal.holds_op [OF h, of int32_t "sint bits" 0 "CHR '' ''"]
    append_hex.holds_op [OF append_text.holds_op [OF h, of "''0x''"], of 8 "ucast bits"]
    append_float.holds_op [OF h, of bits] append_char.holds_op [OF h, of "CHR ''?''"]
  show "holds cap (append_argument a bits w) (s @ argument_text a bits)"
    using h fields decimal_chars [OF u32_in_range(1) [of bits]] decimal_chars [OF u32_in_range(2) [of bits]]
    by (simp add: append_argument_def argument_text_def unpadded append_hex_text)
qed

interpretation message_append_text: appends "\<lambda>w. message_append_text w t bits"
    "message_text t bits" for t bits
proof unfold_locales
  fix cap w s assume h: "holds cap w s"
  show "holds cap (message_append_text w t bits) (s @ message_text t bits)"
    using append_text.holds_op [OF append_argument.holds_op [OF append_text.holds_op [OF h]],
        of "d_argument t" bits "d_prefix t" "d_suffix t"]
    by (simp add: message_append_text_def message_text_def Let_def)
qed

interpretation append_message: appends "\<lambda>w. append_message w m raw"
    "message_line m raw" for m raw
proof unfold_locales
  fix cap w s assume h: "holds cap w s"
  have omit: "holds cap (append_message w m MessageRaw_e_OMIT)
      (s @ message_line m MessageRaw_e_OMIT)"
    using message_append_text.holds_op [OF append_text.holds_op [OF append_text.holds_op [OF h]],
        of "message_to_string_domain (message_domain m)" k_MESSAGE_SEPARATOR "text_of m"
           "message_argument m"]
    by (simp add: append_message_def message_line_def Let_def k_MESSAGE_SEPARATOR_def)
  then show "holds cap (append_message w m raw) (s @ message_line m raw)"
    using append_hex.holds_op [OF append_text.holds_op [OF omit], of 16 "'' <=> raw=0x''" "message_raw m"]
    by (cases raw) (simp_all add: append_message_def Let_def message_line_def append_hex_text)
qed

text \<open>With the texts of the catalog, a line has at most 45 characters, all printable.\<close>

lemma text_of_cases:
  "text_of m \<in> {LogMessageText_default, \<lparr>d_prefix = ''unknown'', d_suffix = [], d_argument = e_NONE\<rparr>}"
  by (auto simp: text_of_def catalog_text_def lookup_text_def k_UNNAMED_TEXT_def tables_compile)

lemma message_text_of: "message_text (text_of m) bits \<in> {''?'', ''unknown''}"
  using text_of_cases [of m]
  by (auto simp: message_text_def LogMessageText_default_def argument_text_def)

lemma domain_name_cases:
  "message_to_string_domain d \<in> {''?'', ''unknown'', ''core'', ''vulkan'', ''metal''}"
proof -
  have "i < length names \<Longrightarrow> names ! i \<in> insert x (set names)" for i names and x :: string
    by simp
  from this [of "unat (domain_underlying d)" k_DOMAIN_NAMES "''?''"] show ?thesis
    by (auto simp: message_to_string_domain_def Let_def k_DOMAIN_NAMES_def)
qed

lemma message_line_printable: "list_all printable (message_line m raw)"
proof -
  have "list_all printable (message_to_string_domain (message_domain m))"
    using domain_name_cases [of "message_domain m"]
    by (elim insertE emptyE; simp add: printable_def)
  moreover have "list_all printable (message_text (text_of m) (message_argument m))"
    using message_text_of [of m "message_argument m"]
    by (elim insertE emptyE; simp add: printable_def)
  ultimately show ?thesis
    by (simp add: message_line_def hex_text_printable printable_def)
qed

lemma length_message_line: "length (message_line m raw) \<le> 45"
  using message_text_of [of m "message_argument m"] domain_name_cases [of "message_domain m"]
  by (auto simp: message_line_def)

section \<open>Properties\<close>

text \<open>
  C37. The line of any message, corrupt or not, fits in a buffer of \<^verbatim>\<open>k_MAX_LINE_SIZE\<close> characters and
  is one line of printable ASCII; \<open>format_line\<close> writes all of it and reports its length.
\<close>

theorem message_line_fits:
  assumes "k_MAX_MESSAGE_LINE_SIZE \<le> length buffer"
    and "message_format_line buffer m raw = (buffer', n)"
  shows "take n buffer' = message_line m raw \<and> n = length (message_line m raw) \<and>
         n \<le> k_MAX_MESSAGE_LINE_SIZE \<and> length buffer' = length buffer \<and>
         list_all printable (take n buffer')"
proof -
  let ?w = "append_message (LineWriter buffer) m raw"
  have h: "holds (length buffer) ?w (message_line m raw)"
    using append_message.holds_op [OF holds_LineWriter, of buffer m raw] by simp
  have "length (message_line m raw) \<le> length buffer"
    using length_message_line [of m raw] assms(1) by (simp add: k_MAX_MESSAGE_LINE_SIZE_def)
  then show ?thesis
    using assms(2) h holds_size [OF h] length_message_line [of m raw]
      message_line_printable [of m raw]
    by (auto simp: message_format_line_def holds_def view_def memcpy_out_def Let_def
        k_MAX_MESSAGE_LINE_SIZE_def)
qed

lemma message_line_fits_witness:
  "(case message_format_line (replicate 256 (CHR 0x00)) (message_from_raw 1) MessageRaw_e_OMIT of
      (buffer', n) \<Rightarrow> take n buffer' = ''core | unknown'')"
proof -
  have line: "message_line (message_from_raw 1) MessageRaw_e_OMIT = ''core | unknown''"
    by code_simp
  obtain buffer' n where eq: "message_format_line (replicate 256 (CHR 0x00))
      (message_from_raw 1) MessageRaw_e_OMIT = (buffer', n)" by fastforce
  have "k_MAX_MESSAGE_LINE_SIZE \<le> length (replicate 256 (CHR 0x00))"
    by (simp add: k_MAX_MESSAGE_LINE_SIZE_def)
  from message_line_fits [OF this eq] have "take n buffer' = ''core | unknown''"
    unfolding line by (rule conjunct1)
  then show ?thesis by (simp add: eq)
qed

text \<open>
  C38. The argument is written where the text has its placeholder and reads back: a decimal as the
  unsigned or signed number the bits stand for, eight hex digits as the bits, and a float as the
  shortest text that reads back as it, never cut.
\<close>

theorem argument_shown:
  assumes "holds cap w s"
    and "length s + length (d_prefix t) + length (d_suffix t) + 15 \<le> cap"
  shows "\<exists>u. view (message_append_text w t bits) = view w @ d_prefix t @ u @ d_suffix t \<and>
           (if d_argument t = e_UNSIGNED then decimal_value u = uint bits
            else if d_argument t = e_SIGNED then decimal_value u = sint bits
            else if d_argument t = e_HEX then
              take 2 u = ''0x'' \<and> length u = 10 \<and> digits_value 16 (drop 2 u) = unat bits
            else if d_argument t = e_FLOAT then u = float_text bits
            else if d_argument t = e_NONE then u = [] else True)"
proof -
  let ?u = "argument_text (d_argument t) bits"
  have "length (decimal_text (uint bits)) \<le> 11" "length (decimal_text (sint bits)) \<le> 11"
    using decimal_fits [OF u32_in_range(1) [of bits]] decimal_fits [OF u32_in_range(2) [of bits]]
    by simp_all
  then have "length ?u \<le> 15"
    using float_text_fits [of bits] by (simp add: argument_text_def to_chars_def)
  then have "view (message_append_text w t bits) = view w @ message_text t bits"
    using assms(2) by (intro message_append_text.fits(1) [OF assms(1)]) (simp add: message_text_def)
  moreover have "unat bits mod 16 ^ 8 = unat bits"
    using unat_less_2p32 [of bits] by simp
  ultimately show ?thesis
    using float_text_fits [of bits]
    by (intro exI [of _ ?u])
      (simp add: message_text_def argument_text_def decimal_round_trip hex_text_value to_chars_def)
qed

lemma argument_shown_witness:
  "view (message_append_text (LineWriter (replicate 64 (CHR 0x00)))
     \<lparr>d_prefix = ''streamed '', d_suffix = '' pages'', d_argument = e_FLOAT\<rparr> 0x3FC00000) =
     ''streamed 1.5 pages''"
proof -
  have "float_text 0x3FC00000 = ''1.5''" by code_simp
  then show ?thesis
    using argument_shown [of 64 "LineWriter (replicate 64 (CHR 0x00))" "[]"
        "\<lparr>d_prefix = ''streamed '', d_suffix = '' pages'', d_argument = e_FLOAT\<rparr>" "0x3FC00000"]
      holds_LineWriter [of "replicate 64 (CHR 0x00)"]
    by (simp add: view_fresh_writer)
qed

text \<open>
  \<^verbatim>\<open>{:#}\<close> lets a corrupt message be decoded by hand: what it formats is the line of \<^verbatim>\<open>{}\<close> followed by
  the 16 hex digits of the message.
\<close>

theorem formatted_message_decodes:
  "\<exists>t u. format_message out m ''}'' = Some (out @ t, ''}'') \<and>
     format_message out m ''#}'' = Some (out @ t @ '' <=> raw=0x'' @ u, ''}'') \<and>
     length u = 16 \<and> message_from_raw (of_nat (digits_value 16 u)) = m"
proof -
  have v: "view (append_message (LineWriter (replicate k_MAX_MESSAGE_LINE_SIZE c)) m raw) =
      message_line m raw" for c raw
    using append_message.view_fresh [of "replicate k_MAX_MESSAGE_LINE_SIZE c" m raw]
      length_message_line [of m raw] by (simp add: k_MAX_MESSAGE_LINE_SIZE_def)
  have "unat (message_raw m) mod 16 ^ 16 = unat (message_raw m)"
    using unat_less_2p64 [of "message_raw m"] by simp
  then have "message_from_raw (of_nat (digits_value 16 (hex_text 16 (message_raw m)))) = m"
    by (simp only: hex_text_value) (simp add: message_from_raw_def)
  then show ?thesis
    by (intro exI [of _ "message_line m MessageRaw_e_OMIT"] exI [of _ "hex_text 16 (message_raw m)"])
      (simp add: format_message_def AlternateFlagParser_parse_def AlternateFlagParser_def
        is_alternate_def v Let_def message_line_def)
qed

end
