(* ===== verification/Core_Log_Record.thy ===== *)
theory Core_Log_Record
  imports Core_Error Core_Log_Message Swar
begin

text \<open>
  \<^verbatim>\<open>core_log_record.h\<close>: one slot of a producer's ring, a packed header and a 64-bit payload. The two
  factories are the only ways to make a record; an accessor returns \<open>None\<close> where its assertion on the
  type fails. The ring stores a record as its 16 bytes (\<open>record_bytes\<close>, little-endian as the writer
  of \<open>Core_Format\<close> requires of the platform).
\<close>

section \<open>Enumerations\<close>

datatype severity = Severity (severity_underlying: u8)

abbreviation Severity_e_TRACE :: severity where "Severity_e_TRACE \<equiv> Severity 0"
abbreviation Severity_e_DEBUG :: severity where "Severity_e_DEBUG \<equiv> Severity 1"
abbreviation Severity_e_INFO :: severity where "Severity_e_INFO \<equiv> Severity 2"
abbreviation Severity_e_WARN :: severity where "Severity_e_WARN \<equiv> Severity 3"
abbreviation Severity_e_ERROR :: severity where "Severity_e_ERROR \<equiv> Severity 4"
abbreviation Severity_e_FATAL :: severity where "Severity_e_FATAL \<equiv> Severity 5"
abbreviation Severity_e_COUNT :: severity where "Severity_e_COUNT \<equiv> Severity 6"

instantiation severity :: linorder
begin

definition less_eq_severity :: "severity \<Rightarrow> severity \<Rightarrow> bool" where
  "less_eq_severity a b \<longleftrightarrow> severity_underlying a \<le> severity_underlying b"

definition less_severity :: "severity \<Rightarrow> severity \<Rightarrow> bool" where
  "less_severity a b \<longleftrightarrow> severity_underlying a < severity_underlying b"

instance
  by standard (auto simp: less_eq_severity_def less_severity_def intro: severity.expand)

end

datatype log_record_type = LogRecordType (record_type_underlying: u8)

abbreviation Type_e_ERROR :: log_record_type where "Type_e_ERROR \<equiv> LogRecordType 0"
abbreviation Type_e_MESSAGE :: log_record_type where "Type_e_MESSAGE \<equiv> LogRecordType 1"
abbreviation Type_e_COUNT :: log_record_type where "Type_e_COUNT \<equiv> LogRecordType 2"

section \<open>Records\<close>

record log_record =
  d_header :: u64
  d_payload :: u64

definition k_TICK_BITS :: nat where "k_TICK_BITS = 59"
definition k_SEVERITY_SHIFT :: nat where "k_SEVERITY_SHIFT = k_TICK_BITS"
definition k_TYPE_SHIFT :: nat where "k_TYPE_SHIFT = k_TICK_BITS + 3"
definition k_TICK_MASK :: u64 where "k_TICK_MASK = push_bit k_TICK_BITS 1 - 1"

definition record_make_raw :: "log_record_type \<Rightarrow> severity \<Rightarrow> u64 \<Rightarrow> u64 \<Rightarrow> log_record" where
  "record_make_raw ty severity ticks payload =
     \<lparr>d_header = push_bit k_TYPE_SHIFT (ucast (record_type_underlying ty)) OR
                 push_bit k_SEVERITY_SHIFT (ucast (severity_underlying severity)) OR
                 (ticks AND k_TICK_MASK),
      d_payload = payload\<rparr>"

definition record_make_error :: "severity \<Rightarrow> u64 \<Rightarrow> error \<Rightarrow> log_record" where
  "record_make_error severity ticks e = record_make_raw Type_e_ERROR severity ticks (error_raw e)"

definition record_make_message :: "severity \<Rightarrow> u64 \<Rightarrow> log_message \<Rightarrow> log_record" where
  "record_make_message severity ticks m =
     record_make_raw Type_e_MESSAGE severity ticks (message_raw m)"

definition record_type :: "log_record \<Rightarrow> log_record_type" where
  "record_type r = LogRecordType (ucast (drop_bit k_TYPE_SHIFT (d_header r)))"

definition record_severity :: "log_record \<Rightarrow> severity" where
  "record_severity r = Severity (ucast (drop_bit k_SEVERITY_SHIFT (d_header r) AND 0x7))"

definition record_ticks :: "log_record \<Rightarrow> u64" where
  "record_ticks r = d_header r AND k_TICK_MASK"

definition record_error :: "log_record \<Rightarrow> error option" where
  "record_error r =
     (if record_type r = Type_e_ERROR then Some (error_from_raw (d_payload r)) else None)"

definition record_message :: "log_record \<Rightarrow> log_message option" where
  "record_message r =
     (if record_type r = Type_e_MESSAGE then Some (message_from_raw (d_payload r)) else None)"

text \<open>The two words in the bytes of a ring slot, and back.\<close>

definition record_bytes :: "log_record \<Rightarrow> u8 list" where
  "record_bytes r = codes_of_word 8 (d_header r) @ codes_of_word 8 (d_payload r)"

definition record_of_bytes :: "u8 list \<Rightarrow> log_record" where
  "record_of_bytes bs = \<lparr>d_header = word_of_codes (take 8 bs), d_payload = word_of_codes (drop 8 bs)\<rparr>"

section \<open>Reading back the fields\<close>

lemma mask_7: "(0x7 :: u64) = mask 3"
  by (simp add: mask_eq_exp_minus_1)

lemma k_TICK_MASK_mask: "k_TICK_MASK = mask 59"
  by (simp add: k_TICK_MASK_def k_TICK_BITS_def mask_eq_exp_minus_1)

lemmas header_bits = k_TICK_MASK_mask k_TICK_BITS_def k_SEVERITY_SHIFT_def k_TYPE_SHIFT_def
  mask_7 field_bits

text \<open>The \<^verbatim>\<open>static_assert\<close>s leave the type 2 bits and the severity 3.\<close>

definition header_fits :: "log_record_type \<Rightarrow> severity \<Rightarrow> bool" where
  "header_fits ty severity \<longleftrightarrow> record_type_underlying ty < 4 \<and> severity_underlying severity < 8"

lemma small_u8_bits:
  "k \<le> 8 \<Longrightarrow> (b :: u8) < 2 ^ k \<Longrightarrow> k \<le> n \<Longrightarrow> \<not> bit b n"
proof -
  assume k: "k \<le> 8" "b < 2 ^ k" "k \<le> n"
  then have "unat b < 2 ^ k"
  proof -
    have "unat (of_nat (2 ^ k) :: u8) \<le> 2 ^ k"
      by (simp only: unat_of_nat mod_less_eq_dividend)
    then have "unat (2 ^ k :: u8) \<le> 2 ^ k" by simp
    then show ?thesis using k(2) by (simp add: word_less_nat_alt)
  qed
  then have "take_bit k (unat b) = unat b" by (simp add: take_bit_nat_eq_self_iff)
  then have "\<not> bit (unat b) n" using k(3) by (metis bit_take_bit_iff not_le)
  then show ?thesis by (simp add: bit_unsigned_iff)
qed

lemma bit_record_header:
  assumes "header_fits ty sev" and "n < 64"
  shows "bit (d_header (record_make_raw ty sev t p)) n \<longleftrightarrow>
     (if n < 59 then bit t n
      else if n < 62 then bit (severity_underlying sev) (n - 59)
      else bit (record_type_underlying ty) (n - 62))"
proof -
  have "3 \<le> n - 59 \<Longrightarrow> \<not> bit (severity_underlying sev) (n - 59)"
    using assms(1) small_u8_bits [of 3 "severity_underlying sev" "n - 59"] by (simp add: header_fits_def)
  then show ?thesis
    using assms(2) by (auto simp: record_make_raw_def header_bits)
qed

lemma record_make_raw_type:
  assumes "header_fits ty sev"
  shows "record_type (record_make_raw ty sev t p) = ty"
proof -
  have high: "2 \<le> n \<Longrightarrow> \<not> bit (record_type_underlying ty) n" for n
    using assms small_u8_bits [of 2 "record_type_underlying ty" n] by (simp add: header_fits_def)
  have "ucast (drop_bit 62 (d_header (record_make_raw ty sev t p))) = record_type_underlying ty"
  proof (rule bit_word_eqI)
    fix n assume "n < LENGTH(8)"
    then show "bit (ucast (drop_bit 62 (d_header (record_make_raw ty sev t p))) :: u8) n =
        bit (record_type_underlying ty) n"
      using bit_record_header [OF assms, of "62 + n" t p] high [of n]
        bit_imp_le_length [of "d_header (record_make_raw ty sev t p)" "62 + n"]
      by (cases "n < 2") (auto simp: bit_simps)
  qed
  then show ?thesis by (simp add: record_type_def k_TYPE_SHIFT_def k_TICK_BITS_def)
qed

lemma record_make_raw_severity:
  assumes "header_fits ty sev"
  shows "record_severity (record_make_raw ty sev t p) = sev"
proof -
  have high: "3 \<le> n \<Longrightarrow> \<not> bit (severity_underlying sev) n" for n
    using assms small_u8_bits [of 3 "severity_underlying sev" n] by (simp add: header_fits_def)
  have "ucast (drop_bit 59 (d_header (record_make_raw ty sev t p)) AND mask 3) = severity_underlying sev"
  proof (rule bit_word_eqI)
    fix n assume "n < LENGTH(8)"
    then show "bit (ucast (drop_bit 59 (d_header (record_make_raw ty sev t p)) AND mask 3) :: u8) n =
        bit (severity_underlying sev) n"
      using bit_record_header [OF assms, of "59 + n" t p] high [of n]
      by (cases "n < 3") (auto simp: bit_simps bit_mask_u64)
  qed
  then show ?thesis
    by (simp only: record_severity_def k_SEVERITY_SHIFT_def k_TICK_BITS_def mask_7 severity.collapse)
qed

lemma record_make_raw_ticks [codec]: "record_ticks (record_make_raw ty sev t p) = t AND k_TICK_MASK"
  unfolding record_make_raw_def record_ticks_def
  by (rule bit_word_eqI) (auto simp: header_bits dest: bit_imp_le_length)

lemma record_make_raw_payload [codec]: "d_payload (record_make_raw ty sev t p) = p"
  by (simp add: record_make_raw_def)

lemma ticks_mod: "unat (t AND k_TICK_MASK) = unat t mod 2 ^ 59"
proof -
  have "t AND k_TICK_MASK = take_bit 59 t" by (simp only: k_TICK_MASK_mask take_bit_eq_mask)
  then show ?thesis by (simp only: unsigned_take_bit_eq) (simp only: take_bit_eq_mod)
qed

lemma word_of_codes_of_word: "n \<le> 8 \<Longrightarrow> word_of_codes (codes_of_word n w) = take_bit (8 * n) w"
proof (induction n arbitrary: w)
  case 0
  then show ?case by simp
next
  case (Suc n)
  then have "word_of_codes (codes_of_word (Suc n) w) = ucast (ucast w :: u8) OR push_bit 8 (take_bit (8 * n) (drop_bit 8 w))"
    by simp
  also have "\<dots> = take_bit (8 * Suc n) w"
    by (rule bit_word_eqI) (use Suc.prems in \<open>auto simp: bit_simps\<close>)
  finally show ?case .
qed

lemma length_codes_of_word [simp]: "length (codes_of_word n w) = n"
  by (induction n arbitrary: w) simp_all

lemma length_record_bytes [simp]: "length (record_bytes r) = 16"
  by (simp add: record_bytes_def)

lemma record_of_record_bytes [simp]: "record_of_bytes (record_bytes r) = r"
  by (simp add: record_of_bytes_def record_bytes_def word_of_codes_of_word take_bit_word_eq_self)

section \<open>Properties\<close>

text \<open>
  C14. A record reads back as what it was made from: its type, its severity, its tick modulo
  \<open>2 ^ 59\<close>, and the error or the message it carries; it is never read as the other of the two. The
  16 bytes of a ring slot hold any record whole, whatever its two words are.
\<close>

theorem record_round_trip:
  assumes "severity_underlying sev < 8"
  shows "record_type (record_make_error sev t e) = Type_e_ERROR \<and>
         record_type (record_make_message sev t m) = Type_e_MESSAGE \<and>
         record_severity (record_make_error sev t e) = sev \<and>
         record_severity (record_make_message sev t m) = sev \<and>
         record_error (record_make_error sev t e) = Some e \<and>
         record_message (record_make_error sev t e) = None \<and>
         record_message (record_make_message sev t m) = Some m \<and>
         record_error (record_make_message sev t m) = None \<and>
         unat (record_ticks (record_make_error sev t e)) = unat t mod 2 ^ 59 \<and>
         unat (record_ticks (record_make_message sev t m)) = unat t mod 2 ^ 59 \<and>
         length (record_bytes r) = 16 \<and> record_of_bytes (record_bytes r) = r"
proof -
  have fit: "header_fits Type_e_ERROR sev" "header_fits Type_e_MESSAGE sev"
    using assms by (simp_all add: header_fits_def)
  show ?thesis
    using record_make_raw_type [OF fit(1)] record_make_raw_type [OF fit(2)]
    by (simp add: record_make_error_def record_make_message_def record_error_def record_message_def
        record_make_raw_severity fit codec ticks_mod error_from_raw_def message_from_raw_def)
qed

lemma record_round_trip_witness:
  "record_error (record_make_error Severity_e_WARN 12345678 (error_from_raw 0x2000010101)) =
     Some (error_from_raw 0x2000010101)"
  using record_round_trip [of Severity_e_WARN 12345678 "error_from_raw 0x2000010101"] by simp

end
