(* ===== verification/Core_Log_Format.thy ===== *)
theory Core_Log_Format
  imports Core_Clock Core_Log_Record Core_Error_Format Core_Log_Message_Format
begin

text \<open>
  \<^verbatim>\<open>core_log_format.h\<close>: a record as one complete line. \<open>record_line\<close> is the text of the line on its
  own, built from the texts of its fields; the lemmas are about its columns, its length and its
  newlines.
\<close>

section \<open>Writing the line\<close>

definition k_SEVERITY_WIDTH :: nat where "k_SEVERITY_WIDTH = 5"
definition k_THREAD_WIDTH :: nat where "k_THREAD_WIDTH = 8"
definition k_MAX_LINE_SIZE :: nat where "k_MAX_LINE_SIZE = 512"

definition k_SEVERITY_NAMES :: "string list" where
  "k_SEVERITY_NAMES = [''TRACE'', ''DEBUG'', ''INFO'', ''WARN'', ''ERROR'', ''FATAL'']"

definition severity_name :: "severity \<Rightarrow> string" where
  "severity_name sev =
     (let index = unat (severity_underlying sev) in
      if index < length k_SEVERITY_NAMES then k_SEVERITY_NAMES ! index else ''?'')"

definition append_timestamp :: "line_writer \<Rightarrow> u64 \<Rightarrow> tick_conversion \<Rightarrow> line_writer" where
  "append_timestamp writer ticks clock =
     (let timestamp = ns_elapsed_since_start clock ticks;
          w1 = append_char writer (CHR ''['');
          w2 = append_decimal uint64_t w1 (uint (timestamp div 1000000000)) 4 (CHR '' '');
          w3 = append_char w2 (CHR ''.'');
          w4 = append_decimal uint64_t w3 (uint (timestamp mod 1000000000 div 1000)) 6 (CHR ''0'')
      in append_char w4 (CHR '']''))"

definition append_prefix ::
    "line_writer \<Rightarrow> u64 \<Rightarrow> severity \<Rightarrow> string \<Rightarrow> tick_conversion \<Rightarrow> line_writer" where
  "append_prefix writer ticks sev thread clock =
     (let w1 = append_timestamp writer ticks clock;
          w2 = append_char w1 (CHR '' '');
          w3 = append_padded w2 (severity_name sev) k_SEVERITY_WIDTH (CHR '' '');
          w4 = append_char w3 (CHR '' '')
      in append_fitted w4 thread k_THREAD_WIDTH (CHR '' ''))"

text \<open>
  The switch of \<^verbatim>\<open>append_record\<close>. The accessors assert the type the case has just established
  (\<open>payload_accessors\<close>), so \<open>the\<close> is never applied to \<open>None\<close>.
\<close>

definition append_payload :: "log_record \<Rightarrow> line_writer \<Rightarrow> line_writer" where
  "append_payload r w =
     (if record_type r = Type_e_ERROR then append_error w (the (record_error r)) RawValue_e_OMIT
      else if record_type r = Type_e_MESSAGE then
        append_message w (the (record_message r)) MessageRaw_e_OMIT
      else append_char w (CHR ''?''))"

definition append_record ::
    "line_writer \<Rightarrow> log_record \<Rightarrow> string \<Rightarrow> tick_conversion \<Rightarrow> line_writer" where
  "append_record writer r thread clock =
     (let w1 = append_prefix writer (record_ticks r) (record_severity r) thread clock;
          w2 = append_char w1 (CHR '' '');
          w3 = append_payload r w2
      in append_char w3 LF)"

lemma payload_accessors:
  "record_type r = Type_e_ERROR \<Longrightarrow> record_error r = Some (error_from_raw (d_payload r))"
  "record_type r = Type_e_MESSAGE \<Longrightarrow> record_message r = Some (message_from_raw (d_payload r))"
  by (simp_all add: record_error_def record_message_def)

section \<open>The text of the line\<close>

definition u64_text :: "u64 \<Rightarrow> string" where
  "u64_text w = decimal_text (uint w)"

definition timestamp_text :: "tick_conversion \<Rightarrow> u64 \<Rightarrow> string" where
  "timestamp_text clock ticks =
     (let ns = ns_elapsed_since_start clock ticks in
      ''['' @ right_aligned (u64_text (ns div 1000000000)) 4 (CHR '' '') @ ''.'' @
      right_aligned (u64_text (ns mod 1000000000 div 1000)) 6 (CHR ''0'') @ '']'')"

definition prefix_text :: "tick_conversion \<Rightarrow> u64 \<Rightarrow> severity \<Rightarrow> string \<Rightarrow> string" where
  "prefix_text clock ticks sev thread =
     timestamp_text clock ticks @ '' '' @ padded (severity_name sev) 5 (CHR '' '') @ '' '' @
     padded (take 8 thread) 8 (CHR '' '')"

definition payload_text :: "log_record \<Rightarrow> string" where
  "payload_text r =
     (if record_type r = Type_e_ERROR then error_line (error_from_raw (d_payload r)) RawValue_e_OMIT
      else if record_type r = Type_e_MESSAGE then
        message_line (message_from_raw (d_payload r)) MessageRaw_e_OMIT
      else ''?'')"

definition record_line :: "tick_conversion \<Rightarrow> string \<Rightarrow> log_record \<Rightarrow> string" where
  "record_line clock thread r =
     prefix_text clock (record_ticks r) (record_severity r) thread @ '' '' @
     payload_text r @ [LF]"

lemma u64_chars: "to_chars (digits10 uint64_t + 2) (decimal_text (uint (w :: u64))) = u64_text w"
  using uint_lt2p [of w] by (subst decimal_chars) (simp_all add: u64_text_def)

lemmas append_laws = append_text.holds_op append_char.holds_op append_padded.holds_op
  append_fitted.holds_op append_decimal.holds_op

interpretation append_timestamp: appends "\<lambda>w. append_timestamp w ticks clock" "timestamp_text clock ticks"
    for ticks clock
proof unfold_locales
  fix cap w s assume h: "holds cap w s"
  let ?ns = "ns_elapsed_since_start clock ticks"
  have "holds cap (append_decimal uint64_t (append_char w (CHR ''['')) (uint (?ns div 1000000000)) 4 (CHR '' ''))
      (s @ ''['' @ right_aligned (u64_text (?ns div 1000000000)) 4 (CHR '' ''))"
    using append_laws(5) [OF append_laws(2) [OF h], of uint64_t "CHR ''[''" "uint (?ns div 1000000000)"]
    unfolding u64_chars by simp
  from append_laws(2) [OF append_laws(5) [OF append_laws(2) [OF this, of "CHR ''.''"],
        of uint64_t "uint (?ns mod 1000000000 div 1000)" 6 "CHR ''0''"], of "CHR '']''"]
  show "holds cap (append_timestamp w ticks clock) (s @ timestamp_text clock ticks)"
    unfolding u64_chars by (simp add: append_timestamp_def timestamp_text_def Let_def)
qed

interpretation append_prefix: appends "\<lambda>w. append_prefix w ticks sev thread clock"
    "prefix_text clock ticks sev thread" for ticks sev thread clock
proof unfold_locales
  fix cap w s assume h: "holds cap w s"
  from append_laws(4) [OF append_laws(2) [OF append_laws(3) [OF append_laws(2) [OF
          append_timestamp.holds_op [OF h, of ticks clock], of "CHR '' ''"],
        of "severity_name sev" 5 "CHR '' ''"], of "CHR '' ''"], of thread 8 "CHR '' ''"]
  show "holds cap (append_prefix w ticks sev thread clock) (s @ prefix_text clock ticks sev thread)"
    by (simp add: append_prefix_def prefix_text_def Let_def k_SEVERITY_WIDTH_def k_THREAD_WIDTH_def)
qed

interpretation append_payload: appends "append_payload r" "payload_text r"
    for r
proof unfold_locales
  fix cap w s assume h: "holds cap w s"
  then show "holds cap (append_payload r w) (s @ payload_text r)"
    using append_error.holds_op [OF h] append_message.holds_op [OF h] append_char.holds_op [OF h]
    by (simp add: append_payload_def payload_text_def payload_accessors)
qed

interpretation append_record: appends "\<lambda>w. append_record w r thread clock"
    "record_line clock thread r" for r thread clock
proof unfold_locales
  fix cap w s assume h: "holds cap w s"
  from append_laws(2) [OF append_payload.holds_op [OF append_laws(2) [OF append_prefix.holds_op [OF h,
          of "record_ticks r" "record_severity r" thread clock], of "CHR '' ''"], of r], of LF]
  show "holds cap (append_record w r thread clock) (s @ record_line clock thread r)"
    by (simp add: append_record_def record_line_def Let_def)
qed

section \<open>Columns and lengths\<close>

lemma length_right_aligned: "t \<noteq> [] \<Longrightarrow> length (right_aligned t width fill) = max width (length t)"
  by (cases t) (auto simp: right_aligned_def Let_def)

lemma length_severity_name: "length (severity_name sev) \<le> 5"
proof -
  have "list_all (\<lambda>s. length s \<le> 5) k_SEVERITY_NAMES" by code_simp
  then show ?thesis by (simp add: severity_name_def Let_def list_all_length)
qed

lemma u64_text_nonempty: "u64_text w \<noteq> []"
  by (simp add: u64_text_def decimal_text_def)

lemma length_u64_text: "unat w < 10 ^ Suc k \<Longrightarrow> length (u64_text w) \<le> Suc k"
  using length_digits_of [of "unat w" k] by (simp add: u64_text_def decimal_text_def)

lemma length_u64_text_max: "length (u64_text w) \<le> 20"
  using unat_less_2p64 [of w] length_u64_text [of w 19] by simp

lemma length_timestamp_text:
  "length (timestamp_text clock ticks) =
     9 + max 4 (length (u64_text (ns_elapsed_since_start clock ticks div 1000000000)))"
proof -
  let ?us = "ns_elapsed_since_start clock ticks mod 1000000000 div 1000"
  have "unat ?us < 10 ^ 6"
    by (simp add: unat_div unat_mod less_mult_imp_div_less)
  then have "length (u64_text ?us) \<le> 6" using length_u64_text [of ?us 5] by simp
  then show ?thesis
    by (simp add: timestamp_text_def Let_def length_right_aligned u64_text_nonempty)
qed

lemma length_prefix_text:
  "length (prefix_text clock ticks sev thread) = 15 + length (timestamp_text clock ticks)"
  using length_severity_name [of sev] length_fitted [of 8 thread "CHR '' ''"]
  by (simp add: prefix_text_def padded_def)

lemma length_payload_text: "length (payload_text r) \<le> 256"
  using length_error_line [of "error_from_raw (d_payload r)" RawValue_e_OMIT]
    length_message_line [of "message_from_raw (d_payload r)" MessageRaw_e_OMIT]
  by (simp add: payload_text_def k_MAX_ERROR_LINE_SIZE_def)

lemma length_record_line: "length (record_line clock thread r) \<le> 302"
  using length_payload_text [of r]
    length_u64_text_max [of "ns_elapsed_since_start clock (record_ticks r) div 1000000000"]
  by (simp add: record_line_def length_prefix_text length_timestamp_text)

text \<open>Everything in a line but the thread name is printable by construction.\<close>

lemma printable_digits: "list_all printable (digits_of n)"
proof (induction n rule: digits_of.induct)
  case (1 n)
  have "k < 10 \<Longrightarrow> printable (char_of (48 + k))" for k :: nat
    by (simp add: printable_def)
  then show ?case
    using 1 by (subst digits_of.simps) simp
qed

lemma printable_right_aligned:
  assumes "list_all printable t" and "printable fill"
  shows "list_all printable (right_aligned t width fill)"
proof -
  have "list_all printable (replicate n fill)" for n
    using assms(2) by (simp add: list_all_length)
  then show ?thesis
    using assms(1) by (cases t) (auto simp: right_aligned_def Let_def printable_def)
qed

lemma printable_u64_text: "list_all printable (u64_text w)"
  by (simp add: u64_text_def decimal_text_def printable_digits)

lemma printable_padded: "list_all printable t \<Longrightarrow> list_all printable (padded t width (CHR '' ''))"
  by (simp add: padded_def list_all_length nth_append) (simp add: printable_def)

lemma prefix_text_parts:
  "\<exists>front blanks. prefix_text clock ticks sev thread = front @ take 8 thread @ blanks \<and>
     list_all printable front \<and> list_all printable blanks"
proof -
  have "list_all (list_all printable) k_SEVERITY_NAMES" by code_simp
  then have sev: "list_all printable (severity_name sev)"
    by (simp add: severity_name_def Let_def list_all_length) (simp add: printable_def)
  have ts: "list_all printable (timestamp_text clock ticks)"
    using printable_right_aligned [OF printable_u64_text, of "CHR '' ''"]
      printable_right_aligned [OF printable_u64_text, of "CHR ''0''"]
    by (simp add: timestamp_text_def Let_def) (simp add: printable_def)
  have blanks: "list_all printable ('' '')" "list_all printable (replicate n (CHR '' ''))" for n
    by (simp_all add: list_all_length printable_def)
  show ?thesis
    using printable_padded [OF sev, of 5] ts blanks
    by (intro exI [of _ "timestamp_text clock ticks @ '' '' @ padded (severity_name sev) 5 (CHR '' '') @ '' ''"]
        exI [of _ "replicate (8 - length (take 8 thread)) (CHR '' '')"])
      (simp add: prefix_text_def padded_def)
qed

lemma printable_payload_text: "list_all printable (payload_text r)"
  using error_line_printable message_line_printable
  by (simp add: payload_text_def) (simp add: printable_def)

lemma LF_not_printable: "\<not> printable LF"
  by (simp add: printable_def LF_def)

lemma view_append_record:
  "view (append_record (LineWriter (replicate k_MAX_LINE_SIZE c)) r thread clock) = record_line clock thread r"
  using append_record.view_fresh [of "replicate k_MAX_LINE_SIZE c" r thread clock]
    length_record_line [of clock thread r] by (simp add: k_MAX_LINE_SIZE_def)

lemma view_append_payload:
  "view (append_payload r (LineWriter (replicate k_MAX_LINE_SIZE c))) = payload_text r"
  using append_payload.view_fresh [of r "replicate k_MAX_LINE_SIZE c"] length_payload_text [of r]
  by (simp add: k_MAX_LINE_SIZE_def)

lemma zero_filled_value: "decimal_value (right_aligned (u64_text w) n (CHR ''0'')) = uint w"
  unfolding u64_text_def by (rule zero_filled_decimal)

lemma padded_name: "padded (take n t) n fill = take n (t @ replicate n fill)"
  by (simp add: padded_def min_def)

lemma padded_take: "length t \<le> n \<Longrightarrow> padded t n fill = take n (t @ replicate n fill)"
  by (simp add: padded_def min_def)

lemma fields_apart:
  assumes "l = ''['' @ s @ ''.'' @ u @ ''] '' @ v @ '' '' @ t @ '' '' @ rest"
    and "length s = 4" and "length u = 6" and "length v = 5" and "length t = 8"
  shows "map (nth l) [0, 5, 12, 13, 19, 28] = ''[.]   ''" "take 4 (drop 1 l) = s" "take 6 (drop 6 l) = u"
    "take 5 (drop 14 l) = v" "take 8 (drop 20 l) = t" "drop 29 l = rest"
  using assms(2-5) by (simp_all add: assms(1) nth_append nth_Cons')

section \<open>Properties\<close>

text \<open>
  C25. Any record, a corrupt one included, is written whole into a writer with room for
  \<^verbatim>\<open>k_MAX_LINE_SIZE\<close> characters: what is added is its line, at most 302 characters ending with a
  newline, and nothing is cut.
\<close>

theorem record_written_whole:
  assumes "holds cap w s" and "length s + k_MAX_LINE_SIZE \<le> cap"
  shows "view (append_record w r thread clock) = view w @ record_line clock thread r \<and>
         is_truncated (append_record w r thread clock) = is_truncated w \<and>
         length (record_line clock thread r) \<le> 302 \<and>
         last (record_line clock thread r) = LF"
  using append_record.fits [OF assms(1)] length_record_line [of clock thread r] assms(2)
  by (simp add: k_MAX_LINE_SIZE_def record_line_def)

lemma record_written_whole_witness:
  "\<not> is_truncated (append_record (LineWriter (replicate 512 (CHR 0x00)))
      (record_make_message Severity_e_INFO 12346102000 (message_from_raw 2)) ''stream''
      \<lparr>d_start = 0, d_num = 1, d_denom = 1\<rparr>)"
  using record_written_whole [OF holds_LineWriter [of "replicate 512 (CHR 0x00)"]]
  by (simp add: k_MAX_LINE_SIZE_def)

text \<open>
  C26. One record is one line: whatever the record and the thread name, what is written ends with a
  newline, there is another newline in front of it exactly when the part of the thread name that is shown
  has one, and every character in front of it that is not printable is one of that name's.
\<close>

theorem record_is_one_line:
  "\<exists>l. view (append_record (LineWriter (replicate k_MAX_LINE_SIZE c)) r thread clock) = l @ [LF] \<and>
     (LF \<in> set l \<longleftrightarrow> LF \<in> set (take 8 thread)) \<and>
     set (filter (\<lambda>c. \<not> printable c) l) \<subseteq> set (take 8 thread)"
proof -
  obtain front blanks where
    p: "prefix_text clock (record_ticks r) (record_severity r) thread = front @ take 8 thread @ blanks"
      "list_all printable front" "list_all printable blanks"
    using prefix_text_parts by blast
  let ?l = "front @ take 8 thread @ blanks @ '' '' @ payload_text r"
  have blank: "printable (CHR '' '')" by (simp add: printable_def)
  have rest: "set (filter (\<lambda>c. \<not> printable c) ?l) \<subseteq> set (take 8 thread)"
    using p(2,3) printable_payload_text [of r] blank by (auto simp: list_all_iff)
  moreover have "LF \<in> set ?l \<longleftrightarrow> LF \<in> set (take 8 thread)"
  proof
    assume "LF \<in> set ?l"
    then have "LF \<in> set (filter (\<lambda>c. \<not> printable c) ?l)" by (auto simp: LF_not_printable)
    then show "LF \<in> set (take 8 thread)" using rest by blast
  qed simp
  ultimately show ?thesis
    by (intro exI [of _ ?l]) (simp add: view_append_record p(1) record_line_def)
qed

text \<open>A newline in the name, which nothing checks, does break the line.\<close>

lemma newline_in_name_breaks_line:
  assumes "LF \<in> set (take 8 thread)"
  shows "2 \<le> count_list (record_line clock thread r) LF"
proof -
  have "1 \<le> count_list (take 8 thread) LF"
    using assms count_list_0_iff [of "take 8 thread" LF] by simp
  then show ?thesis
    by (simp add: record_line_def prefix_text_def padded_def)
qed

text \<open>
  C27. The columns of a line are fixed while the seconds are below 10000: between the brackets, blanks and
  the point stand the seconds and the microseconds elapsed since the start, which read back; then the
  severity in 5 characters and the thread name in 8, cut or filled with blanks; then, from column 29 on,
  the payload as it is written on its own, and the newline.
\<close>

theorem record_columns:
  fixes thread :: string and c :: char
  assumes "unat (ns_elapsed_since_start clock (record_ticks r)) < 10000 * 1000000000"
  defines "l \<equiv> view (append_record (LineWriter (replicate k_MAX_LINE_SIZE c)) r thread clock)"
    and "ns \<equiv> unat (ns_elapsed_since_start clock (record_ticks r))"
  shows "map (nth l) [0, 5, 12, 13, 19, 28] = ''[.]   '' \<and>
         decimal_value (dropWhile (\<lambda>c. c = CHR '' '') (take 4 (drop 1 l))) = int (ns div 1000000000) \<and>
         decimal_value (take 6 (drop 6 l)) = int (ns mod 1000000000 div 1000) \<and>
         take 5 (drop 14 l) = take 5 (severity_name (record_severity r) @ replicate 5 (CHR '' '')) \<and>
         take 8 (drop 20 l) = take 8 (thread @ replicate 8 (CHR '' '')) \<and>
         drop 29 l = view (append_payload r (LineWriter (replicate k_MAX_LINE_SIZE c))) @ [LF]"
proof -
  let ?w = "ns_elapsed_since_start clock (record_ticks r)"
  let ?s = "right_aligned (u64_text (?w div 1000000000)) 4 (CHR '' '')"
    and ?u = "right_aligned (u64_text (?w mod 1000000000 div 1000)) 6 (CHR ''0'')"
    and ?v = "take 5 (severity_name (record_severity r) @ replicate 5 (CHR '' ''))"
    and ?t = "take 8 (thread @ replicate 8 (CHR '' ''))"
  have sec: "unat (?w div 1000000000) = ns div 1000000000"
    and us: "unat (?w mod 1000000000 div 1000) = ns mod 1000000000 div 1000"
    by (simp_all add: unat_div unat_mod ns_def)
  have len: "length ?s = 4" "length ?u = 6" "length ?v = 5" "length ?t = 8"
    using length_u64_text [of "?w div 1000000000" 3] length_u64_text [of "?w mod 1000000000 div 1000" 5]
      sec us assms(1)
    by (simp_all add: ns_def less_mult_imp_div_less length_right_aligned u64_text_nonempty)
  have l: "l = ''['' @ ?s @ ''.'' @ ?u @ ''] '' @ ?v @ '' '' @ ?t @ '' '' @ payload_text r @ [LF]"
    using length_severity_name [of "record_severity r"]
    by (simp add: l_def view_append_record record_line_def prefix_text_def timestamp_text_def Let_def
        padded_take padded_name)
  note fields_apart [OF l len]
  moreover have "decimal_value (dropWhile (\<lambda>c. c = CHR '' '') ?s) = uint (?w div 1000000000)"
    unfolding u64_text_def by (rule right_aligned_value) simp
  moreover have "decimal_value ?u = uint (?w mod 1000000000 div 1000)" by (rule zero_filled_value)
  moreover have "uint (?w div 1000000000) = int (ns div 1000000000)"
    "uint (?w mod 1000000000 div 1000) = int (ns mod 1000000000 div 1000)"
    using sec us by (metis uint_nat)+
  ultimately show ?thesis by (simp add: view_append_payload)
qed

lemma record_columns_witness:
  "drop 29 (view (append_record (LineWriter (replicate k_MAX_LINE_SIZE (CHR 0x00)))
     (record_make_message Severity_e_INFO 12346102000 (message_from_raw 2)) ''stream''
     \<lparr>d_start = 0, d_num = 1, d_denom = 1\<rparr>)) = ''vulkan | unknown'' @ [LF]"
proof -
  let ?r = "record_make_message Severity_e_INFO 12346102000 (message_from_raw 2)"
  have "payload_text ?r = ''vulkan | unknown''" by code_simp
  moreover have "unat (ns_elapsed_since_start \<lparr>d_start = 0, d_num = 1, d_denom = 1\<rparr> (record_ticks ?r))
      < 10000 * 1000000000"
    by (simp add: unat_ns_elapsed conversion_ok_def ideal_ns_def record_make_message_def codec ticks_mod)
  ultimately show ?thesis
    using record_columns [of "\<lparr>d_start = 0, d_num = 1, d_denom = 1\<rparr>" ?r "CHR 0x00" "''stream''"]
    by (simp only: view_append_payload)
qed

end
