(* ===== verification/Core_Log.thy ===== *)
theory Core_Log
  imports Core_Log_Format Core_Spsc_Ring "HOL-Library.Monad_Syntax"
begin

text \<open>
  \<^verbatim>\<open>core_log.h\<close>: the logger, each operation run to completion (\<open>Core_Log_Concurrent\<close> interleaves the
  threads). Producers are heap objects at addresses, which slots and handles point to, so that using
  one after it was freed is visible: such a call is \<open>None\<close>, as is a failed assertion.

  What the operating system does is the part \<open>os\<close> of the state: the outcome of the \<open>n\<close>-th
  \<^verbatim>\<open>write(2)\<close> and the \<open>n\<close>-th reading of the clock are arbitrary functions, and \<open>os_output\<close> is what the
  descriptor has taken. An operation that would never return is \<open>None\<close>.
\<close>

section \<open>Constants\<close>

definition k_MAX_THREADS :: nat where "k_MAX_THREADS = 32"
definition k_RING_CAPACITY :: u64 where "k_RING_CAPACITY = 4096"
definition k_MAX_NAME_SIZE :: nat where "k_MAX_NAME_SIZE = 16"
definition k_BATCH_SIZE :: nat where "k_BATCH_SIZE = 64 * 1024"
definition k_FLUSH_THRESHOLD :: nat where "k_FLUSH_THRESHOLD = 8 * 1024"
definition k_SHARED_NAME :: string where "k_SHARED_NAME = ''shared''"

lemma static_asserts:
  "k_MAX_LINE_SIZE + 2 < k_FLUSH_THRESHOLD" "2 * k_FLUSH_THRESHOLD \<le> k_BATCH_SIZE"
  "length k_SHARED_NAME \<le> k_MAX_NAME_SIZE" "length k_SHARED_NAME \<le> k_THREAD_WIDTH"
  by (simp_all add: k_MAX_LINE_SIZE_def k_FLUSH_THRESHOLD_def k_BATCH_SIZE_def k_SHARED_NAME_def
      k_MAX_NAME_SIZE_def k_THREAD_WIDTH_def)

section \<open>Producers\<close>

datatype phase = Phase_e_LIVE | Phase_e_CLOSED

record producer =
  d_ring :: spsc_ring
  d_phase :: phase
  d_dropped :: u64
  d_reported :: u64
  d_name :: string
  d_name_size :: nat

definition sizeof_record :: nat where "sizeof_record = 16"

definition Producer :: "string \<Rightarrow> producer" where
  "Producer name =
     (let n = min (length name) k_MAX_NAME_SIZE in
      \<lparr>d_ring = SpscRing k_RING_CAPACITY sizeof_record, d_phase = Phase_e_LIVE,
       d_dropped = 0, d_reported = 0,
       d_name = (if n \<noteq> 0 then memcpy_in 0 (take n name) (replicate k_MAX_NAME_SIZE (CHR 0x00))
                 else replicate k_MAX_NAME_SIZE (CHR 0x00)),
       d_name_size = n\<rparr>)"

definition producer_push :: "log_record \<Rightarrow> producer \<Rightarrow> producer" where
  "producer_push r p =
     (case try_push k_RING_CAPACITY sizeof_record (record_bytes r) (d_ring p) of
        (pushed, ring) \<Rightarrow>
          if \<not> pushed then p\<lparr>d_ring := ring, d_dropped := d_dropped p + 1\<rparr>
          else p\<lparr>d_ring := ring\<rparr>)"

definition producer_close :: "producer \<Rightarrow> producer" where
  "producer_close p = p\<lparr>d_phase := Phase_e_CLOSED\<rparr>"

definition producer_pop :: "producer \<Rightarrow> log_record option \<times> producer" where
  "producer_pop p =
     (case try_pop k_RING_CAPACITY sizeof_record (d_ring p) of
        (popped, ring) \<Rightarrow> (map_option record_of_bytes popped, p\<lparr>d_ring := ring\<rparr>))"

definition take_dropped :: "producer \<Rightarrow> u64 \<times> producer" where
  "take_dropped p =
     (let dropped = d_dropped p; news = dropped - d_reported p
      in (news, p\<lparr>d_reported := dropped\<rparr>))"

definition producer_name :: "producer \<Rightarrow> string" where
  "producer_name p = memcpy_out 0 (d_name_size p) (d_name p)"

section \<open>The logger\<close>

datatype write_result = Written nat | Interrupted | Failed

record os =
  os_write :: "nat \<Rightarrow> write_result"
  os_writes :: nat
  os_output :: string
  os_clock :: "nat \<Rightarrow> u64"
  os_reads :: nat

type_synonym addr = nat

record logger = os +
  l_heap :: "addr \<Rightarrow> producer option"
  l_next :: addr
  l_slots :: "addr option list"
  l_shared :: producer
  l_clock :: tick_conversion
  l_batch :: string
  l_batch_size :: nat

definition Clock_now :: "logger \<Rightarrow> u64 \<times> logger" where
  "Clock_now l = (os_clock l (os_reads l), l\<lparr>os_reads := os_reads l + 1\<rparr>)"

text \<open>
  \<^verbatim>\<open>flush\<close>. A positive result is at most what was asked for, as \<^verbatim>\<open>write(2)\<close> guarantees; a result of 0 and
  an error other than \<^verbatim>\<open>EINTR\<close> end the loop.
\<close>

partial_function (option) flush_loop :: "logger \<Rightarrow> nat \<Rightarrow> logger option" where
  "flush_loop l written =
     (if written < l_batch_size l then
        let request = l_batch_size l - written;
            l1 = l\<lparr>os_writes := os_writes l + 1\<rparr>
        in case os_write l (os_writes l) of
             Written result \<Rightarrow>
               if 0 < result then
                 let taken = min result request
                 in flush_loop
                      (l1\<lparr>os_output := os_output l @ memcpy_out written taken (l_batch l)\<rparr>)
                      (written + taken)
               else Some l1
           | Interrupted \<Rightarrow> flush_loop l1 written
           | Failed \<Rightarrow> Some l1
      else Some l)"

definition flush :: "logger \<Rightarrow> logger option" where
  "flush l = do { l1 \<leftarrow> flush_loop l 0; Some (l1\<lparr>l_batch_size := 0\<rparr>) }"

definition flush_if_short :: "logger \<Rightarrow> logger option" where
  "flush_if_short l =
     (if length (l_batch l) - l_batch_size l < k_FLUSH_THRESHOLD then flush l else Some l)"

text \<open>What was written into \<^verbatim>\<open>free\<close> becomes part of the batch.\<close>

definition commit :: "logger \<Rightarrow> string \<Rightarrow> nat \<Rightarrow> logger" where
  "commit l free n = l\<lparr>l_batch := take (l_batch_size l) (l_batch l) @ free,
                       l_batch_size := l_batch_size l + n\<rparr>"

definition write_record :: "logger \<Rightarrow> log_record \<Rightarrow> string \<Rightarrow> logger option" where
  "write_record l r thread = do {
     l1 \<leftarrow> flush_if_short l;
     let free = drop (l_batch_size l1) (l_batch l1);
     let first = length free - 2;
     let writer = append_record (LineWriter (take first free)) r thread (l_clock l1);
     let free1 = d_buffer writer @ drop first free;
     let n = d_size writer;
     Some (if is_truncated writer
           then commit l1 (free1[n := CHR ''~'', n + 1 := LF]) (n + 2)
           else commit l1 free1 n)
   }"

definition write_loss :: "logger \<Rightarrow> string \<Rightarrow> u64 \<Rightarrow> logger option" where
  "write_loss l thread count = do {
     l1 \<leftarrow> flush_if_short l;
     let free = drop (l_batch_size l1) (l_batch l1);
     let (now, l2) = Clock_now l1;
     let w1 = append_prefix (LineWriter free) now Severity_e_WARN ''logger'' (l_clock l2);
     let w2 = append_char w1 (CHR '' '');
     let w3 = append_text w2 thread;
     let w4 = append_text w3 '' lost '';
     let w5 = append_decimal uint64_t w4 (uint count) 0 (CHR '' '');
     let w6 = append_text w5 ('' records'' @ [LF]);
     Some (commit l2 (d_buffer w6) (d_size w6))
   }"

record taken =
  d_taken_phase :: phase
  d_full :: bool

text \<open>The loop of \<^verbatim>\<open>drain_one\<close>, from \<open>count\<close> to \<open>limit\<close>.\<close>

function drain_loop ::
    "string \<Rightarrow> nat \<Rightarrow> nat \<Rightarrow> logger \<Rightarrow> producer \<Rightarrow> (logger \<times> producer \<times> nat) option" where
  "drain_loop name limit count l p =
     (if count < limit then
        case producer_pop p of
          (None, p1) \<Rightarrow> Some (l, p1, count)
        | (Some r, p1) \<Rightarrow>
            do { l1 \<leftarrow> write_record l r name;
                 drain_loop name limit (count + 1) l1 p1 }
      else Some (l, p, count))"
  by pat_completeness auto
termination by (relation "measure (\<lambda>(name, limit, count, l, p). limit - count)") auto

declare drain_loop.simps [simp del]

definition drain_one ::
    "logger \<Rightarrow> producer \<Rightarrow> (logger \<times> producer \<times> taken) option" where
  "drain_one l p =
     (let phase = d_phase p;
          name = producer_name p;
          limit = (if phase = Phase_e_CLOSED then 2 ^ 64 - 1 else unat k_RING_CAPACITY)
      in do {
        (l1, p1, count) \<leftarrow> drain_loop name limit 0 l p;
        let (dropped, p2) = take_dropped p1;
        l2 \<leftarrow> (if dropped \<noteq> 0 then write_loss l1 name dropped else Some l1);
        Some (l2, p2, \<lparr>d_taken_phase = phase, d_full = (count = limit)\<rparr>)
      })"

text \<open>The loop over the slots, by index; a slot whose producer is not on the heap is undefined.\<close>

fun drain_slots :: "nat list \<Rightarrow> logger \<Rightarrow> bool \<Rightarrow> (logger \<times> bool) option" where
  "drain_slots [] l behind = Some (l, behind)"
| "drain_slots (i # ix) l behind =
     (case l_slots l ! i of
        None \<Rightarrow> drain_slots ix l behind
      | Some a \<Rightarrow> do {
          p \<leftarrow> l_heap l a;
          (l1, p1, t) \<leftarrow> drain_one l p;
          let l2 = (if d_taken_phase t = Phase_e_CLOSED
                    then l1\<lparr>l_heap := (l_heap l1)(a := None), l_slots := (l_slots l1)[i := None]\<rparr>
                    else l1\<lparr>l_heap := (l_heap l1)(a := Some p1)\<rparr>);
          drain_slots ix l2 (behind \<or> d_full t)
        })"

definition drain :: "logger \<Rightarrow> (logger \<times> bool) option" where
  "drain l = do {
     (l1, behind) \<leftarrow> drain_slots [0..<length (l_slots l)] l False;
     (l2, p, t) \<leftarrow> drain_one l1 (l_shared l1);
     Some (l2\<lparr>l_shared := p\<rparr>, d_full t \<or> behind)
   }"

text \<open>
  The logger thread: what the other threads do before each pass is a list of state changes, and
  \<^verbatim>\<open>stop_requested\<close> answers true when the list ends. Whether a pass is followed by a rest does not
  change the state.
\<close>

fun consume :: "(logger \<Rightarrow> logger) list \<Rightarrow> logger \<Rightarrow> logger option" where
  "consume [] l = Some l"
| "consume (others # passes) l = do {
     (l1, behind) \<leftarrow> drain (others l);
     l2 \<leftarrow> flush l1;
     consume passes l2
   }"

section \<open>Creation and destruction\<close>

text \<open>
  The constructor, over what the operating system will do and the conversion \<^verbatim>\<open>start_now\<close> returns. The
  destructor runs after the logger thread has been joined; it returns the state and whether its
  assertion (every slot is free) holds.
\<close>

definition Logger :: "os \<Rightarrow> tick_conversion \<Rightarrow> logger" where
  "Logger env clock =
     \<lparr>os_write = os_write env, os_writes = os_writes env, os_output = os_output env,
      os_clock = os_clock env, os_reads = os_reads env,
      l_heap = (\<lambda>a. None), l_next = 0, l_slots = replicate k_MAX_THREADS None,
      l_shared = Producer k_SHARED_NAME, l_clock = clock,
      l_batch = replicate k_BATCH_SIZE (CHR 0x00), l_batch_size = 0\<rparr>"

definition Logger_destroy :: "logger \<Rightarrow> (logger \<times> bool) option" where
  "Logger_destroy l = do {
     (l1, behind) \<leftarrow> drain l;
     l2 \<leftarrow> flush l1;
     Some (l2, list_all (\<lambda>slot. slot = None) (l_slots l2))
   }"

section \<open>Registration and handles\<close>

type_synonym thread_id = nat

record handle =
  d_producer_p :: "addr option"
  d_owner :: thread_id

text \<open>
  The first slot whose compare-exchange succeeds takes the new producer; if none does, it is freed
  again.
\<close>

definition register_current_thread ::
    "string \<Rightarrow> thread_id \<Rightarrow> logger \<Rightarrow> handle result \<times> logger" where
  "register_current_thread name this_thread l =
     (let fresh = l_next l;
          l1 = l\<lparr>l_next := l_next l + 1\<rparr>
      in case find (\<lambda>i. l_slots l ! i = None) [0..<length (l_slots l)] of
           Some i \<Rightarrow>
             (Inr \<lparr>d_producer_p = Some fresh, d_owner = this_thread\<rparr>,
              l1\<lparr>l_heap := (l_heap l)(fresh := Some (Producer name)),
                 l_slots := (l_slots l)[i := Some fresh]\<rparr>)
         | None \<Rightarrow>
             (make_unexpected (error_make Kind_e_EXHAUSTED CoreReason_e_LOG_TOO_MANY_THREADS
                (of_nat k_MAX_THREADS)), l1))"

definition handle_push :: "handle \<Rightarrow> thread_id \<Rightarrow> log_record \<Rightarrow> logger \<Rightarrow> logger option" where
  "handle_push h this_thread r l =
     (if d_owner h \<noteq> this_thread then None
      else do {
        a \<leftarrow> d_producer_p h;
        p \<leftarrow> l_heap l a;
        Some (l\<lparr>l_heap := (l_heap l)(a := Some (producer_push r p))\<rparr>)
      })"

definition log_error :: "handle \<Rightarrow> thread_id \<Rightarrow> severity \<Rightarrow> error \<Rightarrow> logger \<Rightarrow> logger option" where
  "log_error h this_thread sev e l =
     (let (now, l1) = Clock_now l in handle_push h this_thread (record_make_error sev now e) l1)"

definition log_message ::
    "handle \<Rightarrow> thread_id \<Rightarrow> severity \<Rightarrow> log_message \<Rightarrow> logger \<Rightarrow> logger option" where
  "log_message h this_thread sev m l =
     (let (now, l1) = Clock_now l in handle_push h this_thread (record_make_message sev now m) l1)"

text \<open>The move constructor: the new handle, and the original with no thread to log for.\<close>

definition handle_move :: "handle \<Rightarrow> handle \<times> handle" where
  "handle_move original = (original, original\<lparr>d_producer_p := None\<rparr>)"

definition handle_destroy :: "handle \<Rightarrow> logger \<Rightarrow> logger option" where
  "handle_destroy h l =
     (case d_producer_p h of
        None \<Rightarrow> Some l
      | Some a \<Rightarrow> do {
          p \<leftarrow> l_heap l a;
          Some (l\<lparr>l_heap := (l_heap l)(a := Some (producer_close p))\<rparr>)
        })"

definition push_locked :: "log_record \<Rightarrow> logger \<Rightarrow> logger" where
  "push_locked r l = l\<lparr>l_shared := producer_push r (l_shared l)\<rparr>"

definition log_error_locked :: "severity \<Rightarrow> error \<Rightarrow> logger \<Rightarrow> logger" where
  "log_error_locked sev e l =
     (let (now, l1) = Clock_now l in push_locked (record_make_error sev now e) l1)"

definition log_message_locked :: "severity \<Rightarrow> log_message \<Rightarrow> logger \<Rightarrow> logger" where
  "log_message_locked sev m l =
     (let (now, l1) = Clock_now l in push_locked (record_make_message sev now m) l1)"

section \<open>A producer is a bounded queue\<close>

definition producer_contents :: "producer \<Rightarrow> log_record list" where
  "producer_contents p = map record_of_bytes (ring_contents k_RING_CAPACITY sizeof_record (d_ring p))"

definition producer_ok :: "producer \<Rightarrow> bool" where
  "producer_ok p \<longleftrightarrow>
     ring_inv k_RING_CAPACITY sizeof_record (d_ring p) \<and>
     length (d_name p) = k_MAX_NAME_SIZE \<and> d_name_size p \<le> k_MAX_NAME_SIZE"

lemma ring_capacity_ok: "SpscRingParameters k_RING_CAPACITY"
  by code_simp

lemma unat_ring_capacity [simp]: "unat k_RING_CAPACITY = 4096"
  by (simp add: k_RING_CAPACITY_def)

lemma producer_name_Producer: "producer_name (Producer name) = take k_MAX_NAME_SIZE name"
  by (auto simp: producer_name_def Producer_def Let_def memcpy_in_def memcpy_out_def min_def
      k_MAX_NAME_SIZE_def)

lemma Producer_ok:
  "producer_ok (Producer name)" "producer_contents (Producer name) = []"
  "d_phase (Producer name) = Phase_e_LIVE" "d_dropped (Producer name) = 0" "d_reported (Producer name) = 0"
  by (auto simp: producer_ok_def Producer_def Let_def producer_contents_def ring_contents_init
      ring_inv_init ring_capacity_ok memcpy_in_def k_MAX_NAME_SIZE_def min_def)

definition producer_try_push :: "log_record \<Rightarrow> producer \<Rightarrow> bool \<times> producer" where
  "producer_try_push r p =
     (fst (try_push k_RING_CAPACITY sizeof_record (record_bytes r) (d_ring p)), producer_push r p)"

lemma length_producer_contents:
  "length (producer_contents p) = length (ring_contents k_RING_CAPACITY sizeof_record (d_ring p))"
  by (simp add: producer_contents_def)

lemma sizeof_record_bytes: "length (record_bytes r) = sizeof_record"
  by (simp add: sizeof_record_def)

lemma producer_push_spec:
  assumes "producer_ok p"
  shows "producer_ok (producer_push r p)"
    and "producer_contents (producer_push r p) =
      (if length (producer_contents p) < 4096 then producer_contents p @ [r] else producer_contents p)"
    and "d_dropped (producer_push r p) =
      (if length (producer_contents p) < 4096 then d_dropped p else d_dropped p + 1)"
    and "d_phase (producer_push r p) = d_phase p" "d_reported (producer_push r p) = d_reported p"
    and "producer_name (producer_push r p) = producer_name p"
proof -
  note inv = assms [unfolded producer_ok_def, THEN conjunct1]
  obtain pushed ring where eq:
      "try_push k_RING_CAPACITY sizeof_record (record_bytes r) (d_ring p) = (pushed, ring)"
    by fastforce
  note laws = ring.push_inv [OF inv sizeof_record_bytes, of r] ring.push_answer [OF inv sizeof_record_bytes, of r]
    ring.push_contents [OF inv sizeof_record_bytes, of r]
  show "producer_ok (producer_push r p)"
    using laws assms by (simp add: producer_push_def eq producer_ok_def)
  show "producer_contents (producer_push r p) =
      (if length (producer_contents p) < 4096 then producer_contents p @ [r] else producer_contents p)"
    using laws by (simp add: producer_push_def eq length_producer_contents) (simp add: producer_contents_def)
  show "d_dropped (producer_push r p) =
      (if length (producer_contents p) < 4096 then d_dropped p else d_dropped p + 1)"
    using laws by (simp add: producer_push_def eq length_producer_contents)
  show "d_phase (producer_push r p) = d_phase p" "d_reported (producer_push r p) = d_reported p"
    "producer_name (producer_push r p) = producer_name p"
    by (simp_all add: producer_push_def eq producer_name_def)
qed

lemma producer_pop_spec:
  assumes "producer_ok p" and "producer_pop p = (popped, p')"
  shows "producer_ok p'"
    and "popped = (case producer_contents p of [] \<Rightarrow> None | r # _ \<Rightarrow> Some r)"
    and "producer_contents p' = tl (producer_contents p)"
    and "d_phase p' = d_phase p" "d_dropped p' = d_dropped p" "d_reported p' = d_reported p"
    and "producer_name p' = producer_name p"
proof -
  note inv = assms(1) [unfolded producer_ok_def, THEN conjunct1]
  obtain v ring where eq: "try_pop k_RING_CAPACITY sizeof_record (d_ring p) = (v, ring)"
    by fastforce
  note laws = ring.pop_inv [OF inv] ring.pop_answer [OF inv] ring.pop_contents [OF inv]
  have p': "popped = map_option record_of_bytes v" "p' = p\<lparr>d_ring := ring\<rparr>"
    using assms(2) by (simp_all add: producer_pop_def eq)
  show "producer_ok p'"
    using laws assms(1) by (simp add: p' eq producer_ok_def)
  show "popped = (case producer_contents p of [] \<Rightarrow> None | r # _ \<Rightarrow> Some r)"
    using laws by (simp add: p' eq producer_contents_def split: list.splits)
  show "producer_contents p' = tl (producer_contents p)"
    using laws by (simp add: p' eq producer_contents_def map_tl)
  show "d_phase p' = d_phase p" "d_dropped p' = d_dropped p" "d_reported p' = d_reported p"
    "producer_name p' = producer_name p"
    by (simp_all add: p' producer_name_def)
qed

lemma producer_bounded: "producer_ok p \<Longrightarrow> length (producer_contents p) \<le> 4096"
  using ring.bounded [of k_RING_CAPACITY sizeof_record "d_ring p"]
  by (simp add: producer_ok_def length_producer_contents)

lemmas producer_pop_parts = producer_pop_spec [OF _ prod.collapse [symmetric]]

interpretation producer: bounded_fifo producer_try_push producer_pop producer_contents producer_ok
    4096 "\<lambda>r. True"
proof
  fix q :: producer and v :: log_record assume ok: "producer_ok q"
  show "fst (producer_try_push v q) \<longleftrightarrow> length (producer_contents q) < 4096"
    using ring.push_answer [OF ok [unfolded producer_ok_def, THEN conjunct1] sizeof_record_bytes, of v]
    by (simp add: producer_try_push_def length_producer_contents)
qed (simp_all add: producer_try_push_def producer_push_spec producer_pop_parts producer_bounded)

section \<open>The batch and the descriptor\<close>

text \<open>
  What has left the logger or is waiting in the batch, in order. \<open>emits l l' t n\<close>: from \<open>l\<close> to \<open>l'\<close> the
  text \<open>t\<close> was added and the clock read \<open>n\<close> times, and nothing but the batch and the descriptor changed.
\<close>

definition pending :: "logger \<Rightarrow> string" where
  "pending l = memcpy_out 0 (l_batch_size l) (l_batch l)"

definition emitted :: "logger \<Rightarrow> string" where
  "emitted l = os_output l @ pending l"

definition batch_ok :: "logger \<Rightarrow> bool" where
  "batch_ok l \<longleftrightarrow> length (l_batch l) = k_BATCH_SIZE \<and> l_batch_size l \<le> k_BATCH_SIZE"

definition same_rest :: "logger \<Rightarrow> logger \<Rightarrow> bool" where
  "same_rest l l' \<longleftrightarrow>
     os_write l' = os_write l \<and> os_clock l' = os_clock l \<and> l_heap l' = l_heap l \<and>
     l_next l' = l_next l \<and> l_slots l' = l_slots l \<and> l_shared l' = l_shared l \<and> l_clock l' = l_clock l"

definition emits :: "logger \<Rightarrow> logger \<Rightarrow> string \<Rightarrow> nat \<Rightarrow> bool" where
  "emits l l' t n \<longleftrightarrow>
     same_rest l l' \<and> batch_ok l' \<and> emitted l' = emitted l @ t \<and> os_reads l' = os_reads l + n"

text \<open>
  What the properties ask of the operating system: \<open>os_fair\<close>, a call is not interrupted for ever, and
  \<open>os_accepts\<close>, it is fair and no write fails.
\<close>

definition os_fair :: "logger \<Rightarrow> bool" where
  "os_fair l \<longleftrightarrow> (\<forall>n. \<exists>m. os_write l (n + m) \<noteq> Interrupted)"

definition os_accepts :: "logger \<Rightarrow> bool" where
  "os_accepts l \<longleftrightarrow> os_fair l \<and> (\<forall>n. os_write l n \<noteq> Failed \<and> os_write l n \<noteq> Written 0)"

lemma emits_refl: "batch_ok l \<Longrightarrow> emits l l [] 0"
  by (simp add: emits_def same_rest_def)

lemma emits_trans [trans]:
  "emits l l1 s m \<Longrightarrow> emits l1 l2 t n \<Longrightarrow> emits l l2 (s @ t) (m + n)"
  by (simp add: emits_def same_rest_def)

lemma emits_accepts: "emits l l' t n \<Longrightarrow> os_accepts l \<Longrightarrow> os_accepts l'"
  by (simp add: emits_def same_rest_def os_accepts_def os_fair_def)

lemma emits_batch_ok: "emits l l' t n \<Longrightarrow> batch_ok l'"
  by (simp add: emits_def)

text \<open>
  The loop: from any position it returns, having handed over some prefix of the rest of the batch; all
  of it if no write fails.
\<close>

lemma memcpy_out_split:
  "i + m \<le> k \<Longrightarrow> memcpy_out i (k - i) b = memcpy_out i m b @ memcpy_out (i + m) (k - (i + m)) b"
proof -
  assume "i + m \<le> k"
  then have "k - i = m + (k - (i + m))" by simp
  then show ?thesis
    by (metis add.commute drop_drop memcpy_out_def take_add)
qed

definition flushed :: "logger \<Rightarrow> nat \<Rightarrow> logger \<Rightarrow> bool" where
  "flushed l i l' \<longleftrightarrow>
     same_rest l l' \<and> os_reads l' = os_reads l \<and> l_batch l' = l_batch l \<and> l_batch_size l' = l_batch_size l \<and>
     (\<exists>t u. memcpy_out i (l_batch_size l - i) (l_batch l) = t @ u \<and> os_output l' = os_output l @ t \<and>
        (os_accepts l \<longrightarrow> u = []))"

lemma flush_loop_end:
  assumes "\<not> i < l_batch_size l"
  shows "\<exists>l'. flush_loop l i = Some l' \<and> flushed l i l'"
  using assms flush_loop.simps [of l i]
  by (auto simp: flushed_def same_rest_def memcpy_out_def)

lemma flush_loop_failed:
  assumes "i < l_batch_size l" and "os_write l (os_writes l) \<in> {Failed, Written 0}"
  shows "\<exists>l'. flush_loop l i = Some l' \<and> flushed l i l'"
  using assms flush_loop.simps [of l i]
  by (auto simp: flushed_def same_rest_def os_accepts_def intro: exI [of _ "[]"])

lemma flush_loop_written:
  assumes lt: "i < l_batch_size l" and w: "os_write l (os_writes l) = Written k" and pos: "0 < k"
    and fair: "os_fair l"
    and IH: "\<And>l1 j. \<lbrakk>l_batch_size l1 - j < l_batch_size l - i; os_fair l1; j \<le> l_batch_size l1\<rbrakk> \<Longrightarrow>
      \<exists>l'. flush_loop l1 j = Some l' \<and> flushed l1 j l'"
  shows "\<exists>l'. flush_loop l i = Some l' \<and> flushed l i l'"
proof -
  define n where "n = min k (l_batch_size l - i)"
  define l1 where "l1 = l\<lparr>os_writes := os_writes l + 1,
      os_output := os_output l @ memcpy_out i n (l_batch l)\<rparr>"
  have n: "0 < n" "i + n \<le> l_batch_size l" using pos lt by (auto simp: n_def)
  have "\<exists>l'. flush_loop l1 (i + n) = Some l' \<and> flushed l1 (i + n) l'"
    using fair n by (intro IH) (auto simp: l1_def os_fair_def)
  moreover have "flush_loop l i = flush_loop l1 (i + n)"
    using flush_loop.simps [of l i] lt w pos by (simp add: n_def l1_def Let_def)
  moreover have "flushed l1 (i + n) l' \<Longrightarrow> flushed l i l'" for l'
    using memcpy_out_split [OF n(2), of "l_batch l"]
    by (fastforce simp: flushed_def same_rest_def l1_def os_accepts_def os_fair_def)
  ultimately show ?thesis by metis
qed

lemma flush_loop_interrupted:
  assumes lt: "i < l_batch_size l" and w: "os_write l (os_writes l) = Interrupted"
    and IH: "\<exists>l'. flush_loop (l\<lparr>os_writes := os_writes l + 1\<rparr>) i = Some l' \<and>
      flushed (l\<lparr>os_writes := os_writes l + 1\<rparr>) i l'"
  shows "\<exists>l'. flush_loop l i = Some l' \<and> flushed l i l'"
proof -
  have "flush_loop l i = flush_loop (l\<lparr>os_writes := os_writes l + 1\<rparr>) i"
    using flush_loop.simps [of l i] lt w by simp
  moreover have "flushed (l\<lparr>os_writes := os_writes l + 1\<rparr>) i l' \<Longrightarrow> flushed l i l'" for l'
    by (auto simp: flushed_def same_rest_def os_accepts_def os_fair_def)
  ultimately show ?thesis using IH by metis
qed

lemma flush_loop_settled:
  assumes w: "i < l_batch_size l \<longrightarrow> os_write l (os_writes l) \<noteq> Interrupted" and fair: "os_fair l"
    and IH: "\<And>l1 j. \<lbrakk>l_batch_size l1 - j < l_batch_size l - i; os_fair l1; j \<le> l_batch_size l1\<rbrakk> \<Longrightarrow>
      \<exists>l'. flush_loop l1 j = Some l' \<and> flushed l1 j l'"
  shows "\<exists>l'. flush_loop l i = Some l' \<and> flushed l i l'"
proof (cases "i < l_batch_size l")
  case False
  then show ?thesis by (rule flush_loop_end)
next
  case lt: True
  show ?thesis
  proof (cases "os_write l (os_writes l)")
    case (Written k)
    show ?thesis
    proof (cases "k = 0")
      case True
      then show ?thesis using Written by (intro flush_loop_failed [OF lt]) simp
    next
      case False
      then show ?thesis by (intro flush_loop_written [OF lt Written _ fair IH]) simp_all
    qed
  next
    case Interrupted
    then show ?thesis using w lt by simp
  next
    case Failed
    then show ?thesis by (intro flush_loop_failed [OF lt]) simp
  qed
qed

lemma flush_loop_returns:
  "os_fair l \<Longrightarrow> i \<le> l_batch_size l \<Longrightarrow> \<exists>l'. flush_loop l i = Some l' \<and> flushed l i l'"
proof (induction "l_batch_size l - i" arbitrary: l i rule: less_induct)
  case less
  obtain m where "os_write l (os_writes l + m) \<noteq> Interrupted"
    using less.prems(1) by (auto simp: os_fair_def)
  then show ?case
    using less.prems less.hyps
  proof (induction m arbitrary: l)
    case 0
    show ?case
      by (rule flush_loop_settled [OF _ "0.prems"(2) "0.prems"(4)]) (use "0.prems"(1) in simp_all)
  next
    case (Suc m)
    show ?case
    proof (cases "i < l_batch_size l \<and> os_write l (os_writes l) = Interrupted")
      case True
      let ?l1 = "l\<lparr>os_writes := os_writes l + 1\<rparr>"
      have "\<exists>l'. flush_loop ?l1 i = Some l' \<and> flushed ?l1 i l'"
      proof (rule Suc.IH)
        show "os_write ?l1 (os_writes ?l1 + m) \<noteq> Interrupted" using Suc.prems(1) by simp
        show "os_fair ?l1" using Suc.prems(2) by (simp add: os_fair_def)
        show "i \<le> l_batch_size ?l1" using Suc.prems(3) by simp
        show "\<exists>l'. flush_loop la ia = Some l' \<and> flushed la ia l'"
          if "l_batch_size la - ia < l_batch_size ?l1 - i" "os_fair la" "ia \<le> l_batch_size la" for la ia
          using that by (intro Suc.prems(4)) simp_all
      qed
      then show ?thesis using True by (blast intro: flush_loop_interrupted)
    next
      case False
      show ?thesis
        by (rule flush_loop_settled [OF _ Suc.prems(2) Suc.prems(4)]) (use False in simp_all)
    qed
  qed
qed

lemma flush_returns:
  assumes "os_fair l" and "batch_ok l"
  shows "\<exists>l' t u. flush l = Some l' \<and> same_rest l l' \<and> batch_ok l' \<and> l_batch_size l' = 0 \<and>
    os_reads l' = os_reads l \<and> pending l = t @ u \<and> os_output l' = os_output l @ t \<and>
    (os_accepts l \<longrightarrow> u = [])"
proof -
  obtain l' where l': "flush_loop l 0 = Some l'" "flushed l 0 l'"
    using flush_loop_returns [OF assms(1), of 0] by auto
  then show ?thesis
    using assms(2) by (auto simp: flush_def flushed_def same_rest_def batch_ok_def pending_def)
qed

lemma flush_emits:
  assumes "os_accepts l" and "batch_ok l"
  shows "\<exists>l'. flush l = Some l' \<and> emits l l' [] 0 \<and> l_batch_size l' = 0 \<and> os_output l' = emitted l"
proof -
  have "os_fair l" using assms(1) by (simp add: os_accepts_def)
  from flush_returns [OF this assms(2)] show ?thesis
    using assms(1) by (fastforce simp: emits_def emitted_def pending_def memcpy_out_def)
qed

section \<open>Writing into the batch\<close>

lemma flush_if_short_emits:
  assumes "os_accepts l" and "batch_ok l"
  shows "\<exists>l'. flush_if_short l = Some l' \<and> emits l l' [] 0 \<and>
    k_FLUSH_THRESHOLD \<le> length (l_batch l') - l_batch_size l'"
proof (cases "length (l_batch l) - l_batch_size l < k_FLUSH_THRESHOLD")
  case True
  then show ?thesis
    using flush_emits [OF assms]
    by (auto simp: flush_if_short_def emits_def batch_ok_def k_BATCH_SIZE_def k_FLUSH_THRESHOLD_def)
next
  case False
  then show ?thesis using emits_refl [OF assms(2)] by (simp add: flush_if_short_def)
qed

text \<open>A writer on the free end of the batch that held a whole text is committed as that text.\<close>

lemma commit_emits:
  assumes ok: "batch_ok l" and free: "free = drop (l_batch_size l) (l_batch l)"
    and w: "holds n w t" "length t \<le> n" "n \<le> length free"
  shows "emits l (commit l (d_buffer w @ drop n free) (d_size w)) t 0"
proof -
  have size: "d_size w = length t" using holds_size [OF w(1)] w(2) by simp
  have buf: "length (d_buffer w) = n" "take (length t) (d_buffer w) = t"
    using w(1,2) size by (auto simp: holds_def view_def memcpy_out_def)
  have len: "length (take (l_batch_size l) (l_batch l)) = l_batch_size l"
    using ok by (simp add: batch_ok_def)
  have "take (l_batch_size l + length t) (take (l_batch_size l) (l_batch l) @ d_buffer w @ drop n free) =
      take (l_batch_size l) (l_batch l) @ t"
    using len buf w(2) by simp
  then show ?thesis
    using ok w(2,3) size buf
    by (auto simp: emits_def same_rest_def commit_def batch_ok_def emitted_def pending_def
        memcpy_out_def free)
qed

lemma write_record_emits:
  assumes "os_accepts l" and "batch_ok l"
  shows "\<exists>l'. write_record l r thread = Some l' \<and>
    emits l l' (record_line (l_clock l) thread r) 0"
proof -
  obtain l1 where l1: "flush_if_short l = Some l1" "emits l l1 [] 0"
      "k_FLUSH_THRESHOLD \<le> length (l_batch l1) - l_batch_size l1"
    using flush_if_short_emits [OF assms] by blast
  define free where "free = drop (l_batch_size l1) (l_batch l1)"
  define n where "n = length free - 2"
  define w where "w = append_record (LineWriter (take n free)) r thread (l_clock l1)"
  have room: "302 \<le> n" "n \<le> length free"
    using l1(3) by (simp_all add: n_def free_def k_FLUSH_THRESHOLD_def)
  have h: "holds n w (record_line (l_clock l1) thread r)"
    using append_record.holds_op [OF holds_LineWriter, of "take n free"] room
    by (simp add: w_def min_absorb2)
  have short: "length (record_line (l_clock l1) thread r) \<le> n"
    using length_record_line order_trans room(1) by blast
  then have "\<not> is_truncated w" using h by (simp add: holds_def)
  then have "write_record l r thread = Some (commit l1 (d_buffer w @ drop n free) (d_size w))"
    by (simp add: write_record_def l1(1) Let_def w_def n_def free_def)
  moreover have "emits l1 (commit l1 (d_buffer w @ drop n free) (d_size w))
      (record_line (l_clock l1) thread r) 0"
    using emits_batch_ok [OF l1(2)] h short room(2) by (intro commit_emits) (simp_all add: free_def)
  moreover have "l_clock l1 = l_clock l" using l1(2) by (simp add: emits_def same_rest_def)
  ultimately show ?thesis using emits_trans [OF l1(2)] by fastforce
qed

definition loss_line :: "tick_conversion \<Rightarrow> u64 \<Rightarrow> string \<Rightarrow> u64 \<Rightarrow> string" where
  "loss_line clock now thread count =
     prefix_text clock now Severity_e_WARN ''logger'' @ '' '' @ thread @ '' lost '' @ u64_text count @
     '' records'' @ [LF]"

lemma write_loss_emits:
  assumes "os_accepts l" and "batch_ok l" and "length thread \<le> k_MAX_NAME_SIZE"
  shows "\<exists>l'. write_loss l thread count = Some l' \<and>
    emits l l' (loss_line (l_clock l) (os_clock l (os_reads l)) thread count) 1"
proof -
  obtain l1 where l1: "flush_if_short l = Some l1" "emits l l1 [] 0"
      "k_FLUSH_THRESHOLD \<le> length (l_batch l1) - l_batch_size l1"
    using flush_if_short_emits [OF assms(1,2)] by blast
  define free where "free = drop (l_batch_size l1) (l_batch l1)"
  define l2 where "l2 = l1\<lparr>os_reads := os_reads l1 + 1\<rparr>"
  define now where "now = os_clock l1 (os_reads l1)"
  define line where "line = loss_line (l_clock l1) now thread count"
  define w where "w = append_text (append_decimal uint64_t (append_text (append_text (append_char
      (append_prefix (LineWriter free) now Severity_e_WARN ''logger'' (l_clock l1)) (CHR '' '')) thread)
      '' lost '') (uint count) 0 (CHR '' '')) ('' records'' @ [LF])"
  note h1 = append_prefix.holds_op [OF holds_LineWriter, of free now Severity_e_WARN "''logger''" "l_clock l1"]
  note h2 = append_laws(1) [OF append_laws(2) [OF h1, of "CHR '' ''"], of thread]
  note h3 = append_laws(5) [OF append_laws(1) [OF h2, of "'' lost ''"], of uint64_t "uint count" 0 "CHR '' ''"]
  have "holds (length free) w (prefix_text (l_clock l1) now Severity_e_WARN ''logger'' @ '' '' @ thread @
      '' lost '' @ u64_text count @ '' records'' @ [LF])"
    using append_laws(1) [OF h3, of "'' records'' @ [LF]"]
    unfolding w_def u64_chars by (simp add: unpadded)
  then have h: "holds (length free) w line" by (simp add: line_def loss_line_def)
  have short: "length line \<le> length free"
    using l1(3) assms(3) length_u64_text_max [of "ns_elapsed_since_start (l_clock l1) now div 1000000000"]
      length_u64_text_max [of count]
    by (simp add: line_def loss_line_def length_prefix_text length_timestamp_text free_def
        k_FLUSH_THRESHOLD_def k_MAX_NAME_SIZE_def)
  have "write_loss l thread count = Some (commit l2 (d_buffer w) (d_size w))"
    by (simp add: write_loss_def l1(1) Clock_now_def Let_def w_def l2_def free_def now_def)
  moreover have "batch_ok l2" using emits_batch_ok [OF l1(2)] by (simp add: l2_def batch_ok_def)
  then have "emits l2 (commit l2 (d_buffer w @ drop (length free) free) (d_size w)) line 0"
    using h short by (intro commit_emits) (simp_all add: free_def l2_def)
  then have "emits l1 (commit l2 (d_buffer w) (d_size w)) line 1"
    by (simp add: emits_def l2_def same_rest_def emitted_def pending_def)
  moreover have "l_clock l1 = l_clock l" "os_clock l1 = os_clock l" "os_reads l1 = os_reads l"
    using l1(2) by (simp_all add: emits_def same_rest_def)
  ultimately show ?thesis
    using emits_trans [OF l1(2)] by (fastforce simp: line_def now_def)
qed

section \<open>Draining one producer\<close>

definition record_lines :: "tick_conversion \<Rightarrow> producer \<Rightarrow> string" where
  "record_lines clock p =
     concat (map (record_line clock (producer_name p)) (producer_contents p))"

definition news :: "producer \<Rightarrow> u64" where
  "news p = d_dropped p - d_reported p"

definition losses :: "producer \<Rightarrow> nat" where
  "losses p = (if news p \<noteq> 0 then 1 else 0)"

definition producer_text :: "tick_conversion \<Rightarrow> u64 \<Rightarrow> producer \<Rightarrow> string" where
  "producer_text clock now p =
     record_lines clock p @
     (if news p \<noteq> 0 then loss_line clock now (producer_name p) (news p) else [])"

text \<open>What \<open>drain_one\<close> leaves of a producer: nothing to write, nothing to report.\<close>

definition drained :: "producer \<Rightarrow> producer \<Rightarrow> bool" where
  "drained p p' \<longleftrightarrow>
     producer_ok p' \<and> producer_contents p' = [] \<and> d_reported p' = d_dropped p \<and>
     d_dropped p' = d_dropped p \<and> d_phase p' = d_phase p \<and> producer_name p' = producer_name p"

definition emptied :: "producer \<Rightarrow> producer \<Rightarrow> bool" where
  "emptied p p' \<longleftrightarrow>
     producer_ok p' \<and> producer_contents p' = [] \<and> d_phase p' = d_phase p \<and> d_dropped p' = d_dropped p \<and>
     d_reported p' = d_reported p \<and> producer_name p' = producer_name p"

lemma drain_loop_emits:
  assumes "os_accepts l" and "batch_ok l" and "producer_ok p"
    and "length (producer_contents p) \<le> limit - count" and "count \<le> limit"
  shows "\<exists>l' p'. drain_loop name limit count l p =
      Some (l', p', count + length (producer_contents p)) \<and>
    emits l l' (concat (map (record_line (l_clock l) name) (producer_contents p))) 0 \<and> emptied p p'"
  using assms
proof (induction "producer_contents p" arbitrary: l p count)
  case Nil
  obtain popped p1 where pop: "producer_pop p = (popped, p1)" by fastforce
  show ?case
    using producer_pop_spec [OF Nil.prems(3) pop] pop Nil.hyps [symmetric] Nil.prems emits_refl
    by (cases "count < limit") (simp_all add: emptied_def drain_loop.simps [of _ _ _ l p])
next
  case (Cons r rs)
  obtain popped p1 where pop: "producer_pop p = (popped, p1)" by fastforce
  note spec = producer_pop_spec [OF Cons.prems(3) pop]
  have popped: "popped = Some r" and rs: "rs = producer_contents p1"
    using spec(2,3) Cons.hyps(2) [symmetric] by simp_all
  obtain l1 where l1: "write_record l r name = Some l1"
      "emits l l1 (record_line (l_clock l) name r) 0"
    using write_record_emits [OF Cons.prems(1,2)] by blast
  have lt: "count < limit" "length (producer_contents p1) \<le> limit - (count + 1)" "count + 1 \<le> limit"
    using Cons.prems(4,5) Cons.hyps(2) [symmetric] rs by simp_all
  obtain l2 p2 where l2: "drain_loop name limit (count + 1) l1 p1 =
      Some (l2, p2, count + 1 + length (producer_contents p1))"
    and e2: "emits l1 l2 (concat (map (record_line (l_clock l1) name) (producer_contents p1))) 0"
    and p2: "emptied p1 p2"
    using Cons.hyps(1) [OF rs emits_accepts [OF l1(2) Cons.prems(1)] emits_batch_ok [OF l1(2)] spec(1) lt(2,3)]
    by blast
  have "l_clock l1 = l_clock l" using l1(2) by (simp add: emits_def same_rest_def)
  then have "emits l l2 (concat (map (record_line (l_clock l) name) (producer_contents p))) 0"
    using emits_trans [OF l1(2) e2] Cons.hyps(2) [symmetric] rs by simp
  moreover have "drain_loop name limit count l p =
      Some (l2, p2, count + length (producer_contents p))"
    using l2 lt(1) pop popped l1(1) Cons.hyps(2) [symmetric] rs
    by (simp add: drain_loop.simps [of _ _ _ l p])
  ultimately show ?case using p2 spec by (auto simp: emptied_def)
qed

lemma length_producer_name: "producer_ok p \<Longrightarrow> length (producer_name p) \<le> k_MAX_NAME_SIZE"
  by (simp add: producer_ok_def producer_name_def memcpy_out_def)

lemma drain_one_emits:
  assumes "os_accepts l" and "batch_ok l" and "producer_ok p"
  shows "\<exists>l' p'. drain_one l p = Some (l', p', \<lparr>d_taken_phase = d_phase p,
        d_full = (d_phase p = Phase_e_LIVE \<and> length (producer_contents p) = 4096)\<rparr>) \<and>
      emits l l' (producer_text (l_clock l) (os_clock l (os_reads l)) p) (losses p) \<and> drained p p'"
proof -
  define limit :: nat where
    "limit = (if d_phase p = Phase_e_CLOSED then 2 ^ 64 - 1 else unat k_RING_CAPACITY)"
  have limit: "length (producer_contents p) \<le> limit - 0"
    using producer_bounded [OF assms(3)] by (simp add: limit_def)
  obtain l1 p1 where l1: "drain_loop (producer_name p) limit 0 l p =
      Some (l1, p1, 0 + length (producer_contents p))"
    and e1: "emits l l1 (concat (map (record_line (l_clock l) (producer_name p)) (producer_contents p))) 0"
    and p1: "emptied p p1"
    using drain_loop_emits [OF assms limit] by blast
  define p2 where "p2 = p1\<lparr>d_reported := d_dropped p1\<rparr>"
  have dr: "drained p p2"
    using p1 by (simp add: emptied_def drained_def p2_def producer_ok_def producer_contents_def producer_name_def)
  have frame: "l_clock l1 = l_clock l" "os_clock l1 = os_clock l" "os_reads l1 = os_reads l"
    using e1 by (simp_all add: emits_def same_rest_def)
  have full: "length (producer_contents p) = limit \<longleftrightarrow>
      d_phase p = Phase_e_LIVE \<and> length (producer_contents p) = 4096"
    using producer_bounded [OF assms(3)] by (cases "d_phase p") (simp_all add: limit_def)
  note unfold = drain_one_def limit_def [symmetric] l1 take_dropped_def Let_def p2_def p1 [unfolded emptied_def]
  show ?thesis
  proof (cases "news p = 0")
    case True
    then have "drain_one l p = Some (l1, p2, \<lparr>d_taken_phase = d_phase p,
        d_full = (length (producer_contents p) = limit)\<rparr>)"
      by (simp add: unfold news_def)
    then show ?thesis
      using e1 dr True full by (simp add: producer_text_def record_lines_def losses_def)
  next
    case False
    obtain l2 where l2: "write_loss l1 (producer_name p) (news p) = Some l2"
      and e2: "emits l1 l2 (loss_line (l_clock l) (os_clock l (os_reads l)) (producer_name p) (news p)) 1"
      using write_loss_emits [OF emits_accepts [OF e1 assms(1)] emits_batch_ok [OF e1]
          length_producer_name [OF assms(3)], of "news p"] frame by auto
    have "drain_one l p = Some (l2, p2, \<lparr>d_taken_phase = d_phase p,
        d_full = (length (producer_contents p) = limit)\<rparr>)"
      using False l2 by (simp add: unfold news_def)
    then show ?thesis
      using emits_trans [OF e1 e2] dr False full
      by (simp add: producer_text_def record_lines_def losses_def)
  qed
qed

section \<open>Draining every producer\<close>

text \<open>Slots point to distinct, live objects of the heap; addresses past \<open>l_next\<close> are not allocated.\<close>

definition slots_ok :: "logger \<Rightarrow> bool" where
  "slots_ok l \<longleftrightarrow>
     length (l_slots l) = k_MAX_THREADS \<and> producer_ok (l_shared l) \<and>
     (\<forall>i<k_MAX_THREADS. \<forall>a. l_slots l ! i = Some a \<longrightarrow>
        a < l_next l \<and> (\<exists>p. l_heap l a = Some p \<and> producer_ok p)) \<and>
     (\<forall>i<k_MAX_THREADS. \<forall>j<k_MAX_THREADS. \<forall>a.
        l_slots l ! i = Some a \<longrightarrow> l_slots l ! j = Some a \<longrightarrow> i = j)"

lemma slots_ok_at:
  assumes "slots_ok l" and "i < k_MAX_THREADS" and "l_slots l ! i = Some a"
  shows "a < l_next l \<and> (\<exists>p. l_heap l a = Some p \<and> producer_ok p)"
  using assms unfolding slots_ok_def by blast

definition logger_ok :: "logger \<Rightarrow> bool" where
  "logger_ok l \<longleftrightarrow> batch_ok l \<and> slots_ok l"

text \<open>The producer a slot points to, if any, and the text of a pass over some slots.\<close>

definition slot_producer :: "logger \<Rightarrow> nat \<Rightarrow> producer option" where
  "slot_producer l i = (case l_slots l ! i of None \<Rightarrow> None | Some a \<Rightarrow> l_heap l a)"

definition producers_at :: "logger \<Rightarrow> nat list \<Rightarrow> producer list" where
  "producers_at l ix = map the (filter (\<lambda>x. x \<noteq> None) (map (slot_producer l) ix))"

fun producers_text ::
    "tick_conversion \<Rightarrow> (nat \<Rightarrow> u64) \<Rightarrow> nat \<Rightarrow> producer list \<Rightarrow> string" where
  "producers_text clock clk n [] = []"
| "producers_text clock clk n (p # ps) =
     producer_text clock (clk n) p @ producers_text clock clk (n + losses p) ps"

text \<open>What a pass does to the slot \<open>i\<close>.\<close>

definition slot_drained :: "logger \<Rightarrow> logger \<Rightarrow> nat \<Rightarrow> bool" where
  "slot_drained l l' i \<longleftrightarrow>
     (case l_slots l ! i of
        None \<Rightarrow> l_slots l' ! i = None
      | Some a \<Rightarrow>
          (case l_heap l a of
             None \<Rightarrow> False
           | Some p \<Rightarrow>
               if d_phase p = Phase_e_CLOSED then l_slots l' ! i = None \<and> l_heap l' a = None
               else l_slots l' ! i = Some a \<and> (\<exists>p'. l_heap l' a = Some p' \<and> drained p p')))"

lemma slot_drained_cong:
  "l_slots l2 = l_slots l1 \<Longrightarrow> l_heap l2 = l_heap l1 \<Longrightarrow> slot_drained l l2 i = slot_drained l l1 i"
  by (simp only: slot_drained_def)

definition frame :: "logger \<Rightarrow> logger \<Rightarrow> bool" where
  "frame l l' \<longleftrightarrow>
     os_write l' = os_write l \<and> os_clock l' = os_clock l \<and> l_clock l' = l_clock l \<and>
     l_shared l' = l_shared l \<and> l_next l' = l_next l"

definition untouched :: "logger \<Rightarrow> logger \<Rightarrow> nat list \<Rightarrow> bool" where
  "untouched l l' ix \<longleftrightarrow>
     (\<forall>i<k_MAX_THREADS. i \<notin> set ix \<longrightarrow> l_slots l' ! i = l_slots l ! i) \<and>
     (\<forall>a. (\<forall>i\<in>set ix. l_slots l ! i \<noteq> Some a) \<longrightarrow> l_heap l' a = l_heap l a)"

text \<open>One step of the loop over the slots.\<close>

definition slot_step :: "logger \<Rightarrow> nat \<Rightarrow> addr \<Rightarrow> producer \<Rightarrow> phase \<Rightarrow> logger" where
  "slot_step l1 i a p1 ph =
     (if ph = Phase_e_CLOSED
      then l1\<lparr>l_heap := (l_heap l1)(a := None), l_slots := (l_slots l1)[i := None]\<rparr>
      else l1\<lparr>l_heap := (l_heap l1)(a := Some p1)\<rparr>)"

lemma slot_step_spec:
  assumes ok: "slots_ok l" and i: "i < k_MAX_THREADS" "l_slots l ! i = Some a" "l_heap l a = Some p"
    and same: "same_rest l l1" and dr: "drained p p1"
  defines "l2 \<equiv> slot_step l1 i a p1 (d_phase p)"
  shows "slots_ok l2" and "slot_drained l l2 i" and "frame l l2" and "untouched l l2 [i]"
proof -
  have f: "l_slots l1 = l_slots l" "l_heap l1 = l_heap l" "l_next l1 = l_next l" "l_shared l1 = l_shared l"
    using same by (simp_all add: same_rest_def)
  have len: "length (l_slots l) = k_MAX_THREADS" using ok by (simp add: slots_ok_def)
  have other: "l_slots l ! j \<noteq> Some a" if "j < k_MAX_THREADS" "j \<noteq> i" for j
    using ok that i by (auto simp: slots_ok_def)
  have at: "a < l_next l \<and> (\<exists>p. l_heap l a = Some p \<and> producer_ok p)"
    if "j < k_MAX_THREADS" "l_slots l ! j = Some a" for j a
    using ok that by (auto simp: slots_ok_def)
  have inj: "j = k" if "j < k_MAX_THREADS" "k < k_MAX_THREADS" "l_slots l ! j = Some b" "l_slots l ! k = Some b" for j k b
    using ok that by (auto simp: slots_ok_def)
  have p1: "producer_ok p1" using dr by (simp add: drained_def)
  have shared: "producer_ok (l_shared l)" using ok by (simp add: slots_ok_def)
  show "slots_ok l2"
  proof (cases "d_phase p = Phase_e_CLOSED")
    case True
    have slot: "(l_slots l)[i := None] ! j = Some b \<longleftrightarrow> j \<noteq> i \<and> l_slots l ! j = Some b"
      if "j < k_MAX_THREADS" for j b
      using that len by (cases "j = i") simp_all
    show ?thesis
      unfolding slots_ok_def l2_def slot_step_def
      using True len f slot at inj other shared by (auto; metis)
  next
    case False
    then show ?thesis
      unfolding slots_ok_def l2_def slot_step_def
      using len f at inj p1 i shared by (auto; metis)
  qed
  show "slot_drained l l2 i"
    using i dr f len by (simp add: slot_drained_def l2_def slot_step_def)
  show "frame l l2"
    using same by (simp add: frame_def same_rest_def l2_def slot_step_def)
  show "untouched l l2 [i]"
    using f i by (auto simp: untouched_def l2_def slot_step_def)
qed

lemma slot_step_batch [simp]:
  "emitted (slot_step l i a p ph) = emitted l" "os_reads (slot_step l i a p ph) = os_reads l"
  "batch_ok (slot_step l i a p ph) = batch_ok l" "os_accepts (slot_step l i a p ph) = os_accepts l"
  by (simp_all add: slot_step_def emitted_def pending_def batch_ok_def os_accepts_def os_fair_def)

lemma untouched_slot:
  assumes "untouched l l' ix" and "slots_ok l" and "i < k_MAX_THREADS" and "i \<notin> set ix"
    and "set ix \<subseteq> {..<k_MAX_THREADS}"
  shows "l_slots l' ! i = l_slots l ! i" and "l_slots l ! i = Some a \<Longrightarrow> l_heap l' a = l_heap l a"
    and "slot_producer l' i = slot_producer l i"
proof -
  show s: "l_slots l' ! i = l_slots l ! i" using assms by (simp add: untouched_def)
  show h: "l_slots l ! i = Some a \<Longrightarrow> l_heap l' a = l_heap l a" for a
  proof -
    assume a: "l_slots l ! i = Some a"
    have "l_slots l ! j \<noteq> Some a" if "j \<in> set ix" for j
      using a that assms(2-5) unfolding slots_ok_def by blast
    then show ?thesis using assms(1) by (simp add: untouched_def)
  qed
  show "slot_producer l' i = slot_producer l i"
    using s h by (simp add: slot_producer_def split: option.splits)
qed

lemma untouched_trans:
  assumes u: "untouched l l1 [i]" "untouched l1 l2 ix" and ok: "slots_ok l"
    and i: "i < k_MAX_THREADS" "i \<notin> set ix" "set ix \<subseteq> {..<k_MAX_THREADS}"
  shows "untouched l l2 (i # ix)"
proof -
  have "l_slots l2 ! j = l_slots l ! j" if "j < k_MAX_THREADS" "j \<notin> set (i # ix)" for j
    using u that by (simp add: untouched_def)
  moreover have "l_heap l2 a = l_heap l a" if a: "\<forall>j\<in>set (i # ix). l_slots l ! j \<noteq> Some a" for a
  proof -
    have "l_heap l1 a = l_heap l a" using u(1) a by (simp add: untouched_def)
    moreover have "l_slots l1 ! j \<noteq> Some a" if "j \<in> set ix" for j
      using u(1) a that i by (auto simp: untouched_def)
    ultimately show ?thesis using u(2) by (simp add: untouched_def)
  qed
  ultimately show ?thesis by (simp add: untouched_def)
qed

lemma producers_at_Nil [simp]: "producers_at l [] = []"
  by (simp add: producers_at_def)

lemma producers_at_Cons:
  "producers_at l (i # ix) =
     (case slot_producer l i of None \<Rightarrow> producers_at l ix | Some p \<Rightarrow> p # producers_at l ix)"
  by (simp add: producers_at_def split: option.splits)

lemma producers_at_cong:
  "(\<And>i. i \<in> set ix \<Longrightarrow> slot_producer l i = slot_producer l' i) \<Longrightarrow> producers_at l ix = producers_at l' ix"
  unfolding producers_at_def by (metis map_cong)

definition a_full :: "producer list \<Rightarrow> bool" where
  "a_full ps = list_ex (\<lambda>p. d_phase p = Phase_e_LIVE \<and> length (producer_contents p) = 4096) ps"

definition pass_over ::
    "nat list \<Rightarrow> logger \<Rightarrow> logger \<Rightarrow> bool" where
  "pass_over ix l l' \<longleftrightarrow>
     logger_ok l' \<and> frame l l' \<and> untouched l l' ix \<and> (\<forall>i \<in> set ix. slot_drained l l' i) \<and>
     emitted l' = emitted l @
       producers_text (l_clock l) (os_clock l) (os_reads l) (producers_at l ix) \<and>
     os_reads l' = os_reads l + sum_list (map losses (producers_at l ix))"

lemma slot_drained_frame:
  assumes "slot_drained l l1 i" and "untouched l1 l2 ix" and "slots_ok l1"
    and "i < k_MAX_THREADS" and "i \<notin> set ix" and "set ix \<subseteq> {..<k_MAX_THREADS}" and "slots_ok l"
    and "untouched l l1 [i]"
  shows "slot_drained l l2 i"
proof (cases "l_slots l ! i")
  case None
  then show ?thesis
    using assms(1) untouched_slot(1) [OF assms(2-6)] by (simp add: slot_drained_def)
next
  case (Some a)
  have "l_slots l1 ! j \<noteq> Some a" if "j \<in> set ix" for j
    using that Some assms(4-8) unfolding slots_ok_def untouched_def
    by (metis empty_iff empty_set lessThan_iff list.simps(15) singletonD subsetD)
  then have "l_heap l2 a = l_heap l1 a" using assms(2) by (simp add: untouched_def)
  then show ?thesis
    using assms(1) Some untouched_slot(1) [OF assms(2-6)]
    by (cases "l_heap l a") (simp_all add: slot_drained_def split: if_splits)
qed

lemma slot_drained_before:
  assumes "slot_drained l1 l2 j" and "untouched l l1 [i]" and "slots_ok l"
    and "j < k_MAX_THREADS" and "j \<noteq> i" and "i < k_MAX_THREADS"
  shows "slot_drained l l2 j"
proof -
  have "l_slots l1 ! j = l_slots l ! j" "\<And>a. l_slots l ! j = Some a \<Longrightarrow> l_heap l1 a = l_heap l a"
    using untouched_slot [OF assms(2,3,4)] assms(5,6) by auto
  then show ?thesis using assms(1) by (cases "l_slots l ! j") (simp_all add: slot_drained_def)
qed

text \<open>A pass over a slot and those after it, from the pass over the slot and the pass over the rest.\<close>

lemma pass_over_empty_slot:
  assumes "pass_over ix l l'" and "l_slots l ! i = None" and "i \<notin> set ix" and "i < k_MAX_THREADS"
  shows "pass_over (i # ix) l l'"
proof -
  have "producers_at l (i # ix) = producers_at l ix"
    using assms(2) by (simp add: producers_at_Cons slot_producer_def)
  moreover have "l_slots l' ! i = None"
    using assms by (simp add: pass_over_def untouched_def)
  ultimately show ?thesis
    using assms(1,2) by (auto simp: pass_over_def slot_drained_def untouched_def)
qed

lemma pass_over_Cons:
  assumes "slots_ok l" and "i \<notin> set ix" "i < k_MAX_THREADS" "set ix \<subseteq> {..<k_MAX_THREADS}"
    and "slots_ok l1" "slot_drained l l1 i" "frame l l1" "untouched l l1 [i]"
    and "emitted l1 = emitted l @ producer_text (l_clock l) (os_clock l (os_reads l)) p"
    and "os_reads l1 = os_reads l + losses p"
    and "slot_producer l i = Some p" and "pass_over ix l1 l'"
  shows "pass_over (i # ix) l l'"
proof -
  have at: "producers_at l1 ix = producers_at l ix" "producers_at l (i # ix) = p # producers_at l ix"
    using assms(2-4,11) untouched_slot(3) [OF assms(8,1)]
    by (auto intro!: producers_at_cong simp: producers_at_Cons)
  have "slot_drained l l' j" if "j \<in> set (i # ix)" for j
  proof (cases "j = i")
    case True
    then show ?thesis
      using slot_drained_frame [OF assms(6) _ assms(5,3,2,4,1,8)] assms(12) by (simp add: pass_over_def)
  next
    case False
    then show ?thesis
      using slot_drained_before [OF _ assms(8,1)] assms(3,4,12) that by (auto simp: pass_over_def)
  qed
  moreover have "untouched l l' (i # ix)"
    using untouched_trans [OF assms(8) _ assms(1,3,2,4)] assms(12) by (simp add: pass_over_def)
  moreover have "frame l l'"
    using assms(7,12) by (simp add: pass_over_def frame_def)
  ultimately show ?thesis
    using assms(7,9,10,12) at by (simp add: pass_over_def frame_def)
qed

text \<open>One turn of the loop over the slots, at a slot that has a producer.\<close>

lemma drain_slots_turn:
  assumes "os_accepts l" and "logger_ok l" and "i < k_MAX_THREADS" and "l_slots l ! i = Some a"
  obtains p l2 where "slot_producer l i = Some p"
    and "\<forall>ix behind. drain_slots (i # ix) l behind =
      drain_slots ix l2 (behind \<or> d_phase p = Phase_e_LIVE \<and> length (producer_contents p) = 4096)"
    and "logger_ok l2" "os_accepts l2" "slot_drained l l2 i" "frame l l2" "untouched l l2 [i]"
    and "emitted l2 = emitted l @ producer_text (l_clock l) (os_clock l (os_reads l)) p"
    and "os_reads l2 = os_reads l + losses p"
proof -
  have ok: "slots_ok l" "batch_ok l" using assms(2) by (simp_all add: logger_ok_def)
  obtain p where p: "l_heap l a = Some p" "producer_ok p"
    using slots_ok_at [OF ok(1) assms(3,4)] by blast
  obtain l1 p1 where one: "drain_one l p = Some (l1, p1, \<lparr>d_taken_phase = d_phase p,
      d_full = (d_phase p = Phase_e_LIVE \<and> length (producer_contents p) = 4096)\<rparr>)"
    and e1: "emits l l1 (producer_text (l_clock l) (os_clock l (os_reads l)) p) (losses p)"
    and dr: "drained p p1"
    using drain_one_emits [OF assms(1) ok(2) p(2)] by blast
  have same: "same_rest l l1" using e1 by (simp add: emits_def)
  define l2 where "l2 = slot_step l1 i a p1 (d_phase p)"
  note step = slot_step_spec [OF ok(1) assms(3,4) p(1) same dr, folded l2_def]
  show thesis
  proof (rule that [of p l2])
    show "slot_producer l i = Some p" using assms(4) p(1) by (simp add: slot_producer_def)
    show "\<forall>ix behind. drain_slots (i # ix) l behind = drain_slots ix l2
        (behind \<or> d_phase p = Phase_e_LIVE \<and> length (producer_contents p) = 4096)"
      using assms(4) p(1) one by (simp add: l2_def slot_step_def)
    show "logger_ok l2" using step(1) emits_batch_ok [OF e1] by (simp add: logger_ok_def l2_def)
    show "os_accepts l2" using emits_accepts [OF e1 assms(1)] by (simp add: l2_def)
  qed (use step e1 in \<open>simp_all add: emits_def l2_def\<close>)
qed

lemma drain_slots_pass:
  assumes "os_accepts l" and "logger_ok l" and "distinct ix" and "set ix \<subseteq> {..<k_MAX_THREADS}"
  shows "\<exists>l'. drain_slots ix l behind = Some (l', behind \<or> a_full (producers_at l ix)) \<and>
    pass_over ix l l'"
  using assms
proof (induction ix arbitrary: l behind)
  case Nil
  then show ?case
    by (simp add: pass_over_def frame_def untouched_def a_full_def)
next
  case (Cons i ix)
  have i: "i < k_MAX_THREADS" "i \<notin> set ix" "set ix \<subseteq> {..<k_MAX_THREADS}" "distinct ix"
    and ok: "slots_ok l"
    using Cons.prems by (simp_all add: logger_ok_def)
  show ?case
  proof (cases "l_slots l ! i")
    case None
    then show ?thesis
      using Cons.IH [OF Cons.prems(1,2) i(4,3), of behind] pass_over_empty_slot [OF _ None i(2,1)]
      by (fastforce simp: producers_at_Cons slot_producer_def)
  next
    case (Some a)
    obtain p l2 where p: "slot_producer l i = Some p"
      and turn: "\<forall>ix behind. drain_slots (i # ix) l behind =
        drain_slots ix l2 (behind \<or> d_phase p = Phase_e_LIVE \<and> length (producer_contents p) = 4096)"
      and l2: "logger_ok l2" "os_accepts l2" "slot_drained l l2 i" "frame l l2" "untouched l l2 [i]"
        "emitted l2 = emitted l @ producer_text (l_clock l) (os_clock l (os_reads l)) p"
        "os_reads l2 = os_reads l + losses p"
      by (rule drain_slots_turn [OF Cons.prems(1,2) i(1) Some])
    have at: "producers_at l2 ix = producers_at l ix"
      using i untouched_slot(3) [OF l2(5) ok] by (intro producers_at_cong) auto
    obtain l' where l': "drain_slots (i # ix) l behind = Some (l', behind \<or> a_full (producers_at l (i # ix)))"
        "pass_over ix l2 l'"
      using Cons.IH [OF l2(2,1) i(4,3), of "behind \<or> d_phase p = Phase_e_LIVE \<and> length (producer_contents p) = 4096"]
        turn [rule_format, of ix behind]
      by (auto simp: at a_full_def producers_at_Cons p simp del: drain_slots.simps)
    have "slots_ok l2" using l2(1) by (simp add: logger_ok_def)
    then show ?thesis
      using l'(1) pass_over_Cons [OF ok i(2,1,3) _ l2(3-7) p l'(2)] by blast
  qed
qed

section \<open>A pass of the logger thread\<close>

definition all_producers :: "logger \<Rightarrow> producer list" where
  "all_producers l = producers_at l [0..<k_MAX_THREADS] @ [l_shared l]"

definition pass_text :: "logger \<Rightarrow> string" where
  "pass_text l = producers_text (l_clock l) (os_clock l) (os_reads l) (all_producers l)"

lemma producers_text_snoc:
  "producers_text clock clk n (ps @ [q]) =
     producers_text clock clk n ps @
     producer_text clock (clk (n + sum_list (map losses ps))) q"
  by (induction ps arbitrary: n) (simp_all add: add.assoc)

lemma drain_pass:
  assumes "os_accepts l" and "logger_ok l"
  shows "\<exists>l'. drain l = Some (l', a_full (all_producers l)) \<and> logger_ok l' \<and> os_accepts l' \<and>
    emitted l' = emitted l @ pass_text l \<and>
    (\<forall>i<k_MAX_THREADS. slot_drained l l' i) \<and> drained (l_shared l) (l_shared l') \<and>
    l_next l' = l_next l \<and> l_clock l' = l_clock l"
proof -
  have len: "length (l_slots l) = k_MAX_THREADS" using assms(2) by (simp add: logger_ok_def slots_ok_def)
  obtain l1 where l1: "drain_slots [0..<k_MAX_THREADS] l False =
      Some (l1, a_full (producers_at l [0..<k_MAX_THREADS]))"
    and p1: "pass_over [0..<k_MAX_THREADS] l l1"
    using drain_slots_pass [OF assms, of "[0..<k_MAX_THREADS]" False]
    by (auto simp: subset_eq)
  have ok: "logger_ok l1" "os_accepts l1" "l_shared l1 = l_shared l" "l_clock l1 = l_clock l"
      "os_clock l1 = os_clock l" "l_next l1 = l_next l"
    using p1 assms(1) by (simp_all add: pass_over_def frame_def os_accepts_def os_fair_def)
  then have ok1: "batch_ok l1" "producer_ok (l_shared l1)" by (simp_all add: logger_ok_def slots_ok_def)
  obtain l2 p where one: "drain_one l1 (l_shared l1) = Some (l2, p, \<lparr>d_taken_phase = d_phase (l_shared l1),
      d_full = (d_phase (l_shared l1) = Phase_e_LIVE \<and> length (producer_contents (l_shared l1)) = 4096)\<rparr>)"
    and e: "emits l1 l2 (producer_text (l_clock l1) (os_clock l1 (os_reads l1)) (l_shared l1))
      (losses (l_shared l1))" and dr: "drained (l_shared l1) p"
    using drain_one_emits [OF ok(2) ok1] by blast
  define l' where "l' = l2\<lparr>l_shared := p\<rparr>"
  have same: "l_slots l' = l_slots l1" "l_heap l' = l_heap l1" "l_next l' = l_next l1"
      "l_clock l' = l_clock l1" "os_write l' = os_write l1"
    using e by (simp_all add: emits_def same_rest_def l'_def)
  have "drain l = Some (l', a_full (all_producers l))"
    using l1 one by (auto simp: drain_def len l'_def a_full_def all_producers_def ok(3))
  moreover have "logger_ok l'"
    using ok(1) same dr e
    by (simp add: logger_ok_def slots_ok_def emits_def batch_ok_def drained_def l'_def)
  moreover have "os_accepts l'" using ok(2) same by (simp add: os_accepts_def os_fair_def)
  moreover have "emitted l' = emitted l @ pass_text l"
    using e p1 ok
    by (simp add: emits_def pass_over_def emitted_def pending_def l'_def pass_text_def
        all_producers_def producers_text_snoc)
  moreover have "slot_drained l l' i" if "i < k_MAX_THREADS" for i
    using p1 that slot_drained_cong [OF same(1,2)] by (simp add: pass_over_def)
  ultimately show ?thesis using dr ok same by (auto simp: l'_def)
qed

lemma flush_frame:
  assumes "os_accepts l" and "logger_ok l"
  shows "\<exists>l'. flush l = Some l' \<and> logger_ok l' \<and> os_accepts l' \<and> os_output l' = emitted l \<and>
    pending l' = [] \<and> same_rest l l'"
proof -
  have ok: "batch_ok l" "slots_ok l" using assms(2) by (simp_all add: logger_ok_def)
  obtain l' where l': "flush l = Some l'" "emits l l' [] 0" "l_batch_size l' = 0" "os_output l' = emitted l"
    using flush_emits [OF assms(1) ok(1)] by blast
  have same: "same_rest l l'" "batch_ok l'" using l'(2) by (simp_all add: emits_def)
  have "slots_ok l'" using ok(2) same(1) by (simp add: slots_ok_def same_rest_def)
  then show ?thesis
    using l' same emits_accepts [OF l'(2) assms(1)] by (simp add: logger_ok_def pending_def memcpy_out_def)
qed

lemma slot_drained_same_rest: "slot_drained l l1 i \<Longrightarrow> same_rest l1 l2 \<Longrightarrow> slot_drained l l2 i"
  using slot_drained_cong [of l2 l1 l i] by (simp add: same_rest_def)

section \<open>Registration and handles\<close>

lemma Logger_ok: "logger_ok (Logger env clock)"
  by (simp add: logger_ok_def Logger_def batch_ok_def slots_ok_def Producer_ok)

text \<open>A handle that has its thread's producer: what \<open>register_current_thread\<close> returns.\<close>

definition handle_slot :: "handle \<Rightarrow> nat \<Rightarrow> logger \<Rightarrow> producer \<Rightarrow> bool" where
  "handle_slot h i l p \<longleftrightarrow>
     i < k_MAX_THREADS \<and> l_slots l ! i = d_producer_p h \<and> d_producer_p h \<noteq> None \<and>
     slot_producer l i = Some p"

definition set_producer :: "logger \<Rightarrow> addr \<Rightarrow> producer \<Rightarrow> logger" where
  "set_producer l a p = l\<lparr>l_heap := (l_heap l)(a := Some p)\<rparr>"

lemma set_producer_ok: "logger_ok l \<Longrightarrow> producer_ok p \<Longrightarrow> logger_ok (set_producer l a p)"
  unfolding logger_ok_def slots_ok_def set_producer_def batch_ok_def by auto

lemma set_producer_slot:
  assumes "handle_slot h i l p" and "d_producer_p h = Some a"
  shows "handle_slot h i (set_producer l a q) q"
  using assms by (simp add: handle_slot_def set_producer_def slot_producer_def)

lemma handle_slot_heap:
  "handle_slot h i l p \<Longrightarrow> \<exists>a. d_producer_p h = Some a \<and> l_heap l a = Some p"
  by (auto simp: handle_slot_def slot_producer_def)

lemma handle_push_slot:
  assumes "handle_slot h i l p" and "logger_ok l" and "producer_ok p"
  shows "\<exists>l'. handle_push h (d_owner h) r l = Some l' \<and> handle_slot h i l' (producer_push r p) \<and>
    logger_ok l' \<and> emitted l' = emitted l \<and> os_accepts l' = os_accepts l \<and> l_clock l' = l_clock l \<and>
    os_clock l' = os_clock l"
proof -
  obtain a where a: "d_producer_p h = Some a" "l_heap l a = Some p"
    using handle_slot_heap [OF assms(1)] by blast
  then have "handle_push h (d_owner h) r l = Some (set_producer l a (producer_push r p))"
    by (simp add: handle_push_def set_producer_def)
  then show ?thesis
    using set_producer_slot [OF assms(1) a(1)] set_producer_ok [OF assms(2) producer_push_spec(1) [OF assms(3)]]
    by (simp add: set_producer_def emitted_def pending_def os_accepts_def os_fair_def)
qed

definition registered :: "logger \<Rightarrow> nat \<Rightarrow> string \<Rightarrow> logger" where
  "registered l i name =
     l\<lparr>l_next := l_next l + 1, l_heap := (l_heap l)(l_next l := Some (Producer name)),
       l_slots := (l_slots l)[i := Some (l_next l)]\<rparr>"

lemma register_full:
  assumes "slots_ok l" and "\<forall>i<k_MAX_THREADS. l_slots l ! i \<noteq> None"
  shows "register_current_thread name t l =
    (Inl (error_make Kind_e_EXHAUSTED CoreReason_e_LOG_TOO_MANY_THREADS 32), l\<lparr>l_next := l_next l + 1\<rparr>)"
proof -
  have "find (\<lambda>i. l_slots l ! i = None) [0..<length (l_slots l)] = None"
    using assms by (simp add: find_None_iff slots_ok_def)
  then show ?thesis
    by (simp add: register_current_thread_def Let_def make_unexpected_def k_MAX_THREADS_def)
qed

lemma register_free:
  assumes "slots_ok l" and "i < k_MAX_THREADS" and "l_slots l ! i = None"
    and "\<And>j. j < i \<Longrightarrow> l_slots l ! j \<noteq> None"
  shows "register_current_thread name t l =
    (Inr \<lparr>d_producer_p = Some (l_next l), d_owner = t\<rparr>, registered l i name)"
proof -
  have "length (l_slots l) = k_MAX_THREADS" using assms(1) by (simp add: slots_ok_def)
  then have "find (\<lambda>i. l_slots l ! i = None) [0..<length (l_slots l)] = Some i"
    unfolding find_Some_iff using assms(2-4) by (intro exI [of _ i]) simp
  then show ?thesis
    by (simp add: register_current_thread_def Let_def registered_def)
qed

lemma first_free:
  assumes "\<not> (\<forall>i<k_MAX_THREADS. l_slots l ! i \<noteq> None)"
  obtains i where "i < k_MAX_THREADS" "l_slots l ! i = None" "\<And>j. j < i \<Longrightarrow> l_slots l ! j \<noteq> None"
proof -
  define P where "P i \<longleftrightarrow> i < k_MAX_THREADS \<and> l_slots l ! i = None" for i
  have "\<exists>i. P i" using assms by (auto simp: P_def)
  then have "P (LEAST i. P i)" by (rule LeastI_ex)
  moreover have "l_slots l ! j \<noteq> None" if "j < (LEAST i. P i)" for j
    using that not_less_Least [of j P] \<open>P (LEAST i. P i)\<close> by (auto simp: P_def)
  ultimately show ?thesis using that unfolding P_def by blast
qed

lemma registered_ok:
  assumes "logger_ok l" and "i < k_MAX_THREADS"
  shows "logger_ok (registered l i name)"
proof -
  have ok: "slots_ok l" "batch_ok l" and len: "length (l_slots l) = k_MAX_THREADS"
    using assms by (simp_all add: logger_ok_def slots_ok_def)
  have below: "a < l_next l \<and> (\<exists>p. l_heap l a = Some p \<and> producer_ok p)"
    if "j < k_MAX_THREADS" "l_slots l ! j = Some a" for j a
    using slots_ok_at [OF ok(1) that] .
  have inj: "j = k" if "j < k_MAX_THREADS" "k < k_MAX_THREADS" "l_slots l ! j = Some b" "l_slots l ! k = Some b"
    for j k b
    using ok(1) that unfolding slots_ok_def by blast
  have upd: "(l_slots l)[i := Some (l_next l)] ! j = Some a \<longleftrightarrow>
      (if j = i then a = l_next l else l_slots l ! j = Some a)" if "j < k_MAX_THREADS" for j a
    using that len assms(2) by (cases "j = i") auto
  have "slots_ok (registered l i name)"
    unfolding slots_ok_def
  proof (intro conjI allI impI)
    show "length (l_slots (registered l i name)) = k_MAX_THREADS" "producer_ok (l_shared (registered l i name))"
      using ok(1) by (simp_all add: registered_def slots_ok_def)
  next
    fix j a assume j: "j < k_MAX_THREADS" "l_slots (registered l i name) ! j = Some a"
    then have "if j = i then a = l_next l else l_slots l ! j = Some a"
      using upd by (simp add: registered_def)
    then show "a < l_next (registered l i name)"
        "\<exists>p. l_heap (registered l i name) a = Some p \<and> producer_ok p"
      using below [OF j(1)] by (auto simp: registered_def Producer_ok split: if_splits)
  next
    fix j k a
    assume "j < k_MAX_THREADS" "k < k_MAX_THREADS" "l_slots (registered l i name) ! j = Some a"
      "l_slots (registered l i name) ! k = Some a"
    then show "j = k"
      using upd below inj by (simp add: registered_def split: if_splits) (metis less_irrefl)+
  qed
  then show ?thesis using ok(2) by (simp add: logger_ok_def registered_def batch_ok_def)
qed

lemma registered_slot:
  assumes "logger_ok l" and "i < k_MAX_THREADS"
  shows "handle_slot \<lparr>d_producer_p = Some (l_next l), d_owner = t\<rparr> i (registered l i name) (Producer name)"
    and "j < k_MAX_THREADS \<Longrightarrow> j \<noteq> i \<Longrightarrow> slot_producer (registered l i name) j = slot_producer l j"
proof -
  have ok: "slots_ok l" and len: "length (l_slots l) = k_MAX_THREADS"
    using assms by (simp_all add: logger_ok_def slots_ok_def)
  then show "handle_slot \<lparr>d_producer_p = Some (l_next l), d_owner = t\<rparr> i (registered l i name) (Producer name)"
    using assms(2) by (simp add: handle_slot_def registered_def slot_producer_def)
  assume j: "j < k_MAX_THREADS" "j \<noteq> i"
  then have "l_slots l ! j \<noteq> Some (l_next l)"
    using slots_ok_at [OF ok j(1), of "l_next l"] by blast
  then show "slot_producer (registered l i name) j = slot_producer l j"
    using j by (auto simp: registered_def slot_producer_def split: option.splits)
qed

end
