(* ===== verification/Core_Log_Session.thy ===== *)
theory Core_Log_Session
  imports Core_Log
begin

text \<open>
  What the logger of \<open>Core_Log\<close> guarantees, one property per operation and one for the whole life of a
  registered thread: register, log, destroy the handle, and find the lines in the file.
\<close>

section \<open>Pushing many records\<close>

fun handle_pushes :: "handle \<Rightarrow> thread_id \<Rightarrow> log_record list \<Rightarrow> logger \<Rightarrow> logger option" where
  "handle_pushes h t [] l = Some l"
| "handle_pushes h t (r # rs) l = do { l1 \<leftarrow> handle_push h t r l; handle_pushes h t rs l1 }"

lemma fold_push_spec:
  assumes "producer_ok p"
  shows "producer_ok (fold producer_push rs p) \<and>
    producer_contents (fold producer_push rs p) = take 4096 (producer_contents p @ rs) \<and>
    d_dropped (fold producer_push rs p) =
      d_dropped p + of_nat (length (producer_contents p) + length rs - 4096) \<and>
    d_reported (fold producer_push rs p) = d_reported p \<and>
    d_phase (fold producer_push rs p) = d_phase p \<and>
    producer_name (fold producer_push rs p) = producer_name p"
  using assms
proof (induction rs arbitrary: p)
  case Nil
  then show ?case using producer_bounded by simp
next
  case (Cons r rs)
  note push = producer_push_spec [OF Cons.prems, of r]
  have "length (producer_contents p) \<le> 4096" using producer_bounded [OF Cons.prems] .
  then show ?case
    using Cons.IH [OF push(1)] push by (cases "length (producer_contents p) < 4096") simp_all
qed

lemmas fold_push = fold_push_spec [THEN conjunct1]
  fold_push_spec [THEN conjunct2, THEN conjunct1]
  fold_push_spec [THEN conjunct2, THEN conjunct2, THEN conjunct1]
  fold_push_spec [THEN conjunct2, THEN conjunct2, THEN conjunct2, THEN conjunct1]
  fold_push_spec [THEN conjunct2, THEN conjunct2, THEN conjunct2, THEN conjunct2]

lemma handle_pushes_slot:
  assumes "handle_slot h i l p" and "logger_ok l" and "producer_ok p"
  shows "\<exists>l'. handle_pushes h (d_owner h) rs l = Some l' \<and> handle_slot h i l' (fold producer_push rs p) \<and>
    logger_ok l' \<and> emitted l' = emitted l \<and> os_accepts l' = os_accepts l \<and> l_clock l' = l_clock l \<and>
    os_clock l' = os_clock l"
  using assms
proof (induction rs arbitrary: l p)
  case Nil
  then show ?case by simp
next
  case (Cons r rs)
  obtain l1 where l1: "handle_push h (d_owner h) r l = Some l1" "handle_slot h i l1 (producer_push r p)"
      "logger_ok l1" "emitted l1 = emitted l" "os_accepts l1 = os_accepts l" "l_clock l1 = l_clock l"
      "os_clock l1 = os_clock l"
    using handle_push_slot [OF Cons.prems, of r] by blast
  show ?case
    using Cons.IH [OF l1(2,3) producer_push_spec(1) [OF Cons.prems(3)]] l1 by simp
qed

lemma close_spec [simp]:
  "producer_ok (producer_close p) = producer_ok p"
  "producer_contents (producer_close p) = producer_contents p"
  "d_phase (producer_close p) = Phase_e_CLOSED" "d_dropped (producer_close p) = d_dropped p"
  "d_reported (producer_close p) = d_reported p" "producer_name (producer_close p) = producer_name p"
  by (simp_all add: producer_close_def producer_ok_def producer_contents_def producer_name_def)

lemma handle_destroy_slot:
  assumes "handle_slot h i l p" and "logger_ok l" and "producer_ok p"
  shows "\<exists>l'. handle_destroy h l = Some l' \<and> handle_slot h i l' (producer_close p) \<and>
    logger_ok l' \<and> emitted l' = emitted l \<and> os_accepts l' = os_accepts l \<and> l_clock l' = l_clock l \<and>
    os_clock l' = os_clock l"
proof -
  obtain a where a: "d_producer_p h = Some a" "l_heap l a = Some p"
    using handle_slot_heap [OF assms(1)] by blast
  then have "handle_destroy h l = Some (set_producer l a (producer_close p))"
    by (simp add: handle_destroy_def set_producer_def)
  then show ?thesis
    using set_producer_slot [OF assms(1) a(1)] set_producer_ok [OF assms(2), of "producer_close p"] assms(3)
    by (simp add: set_producer_def emitted_def pending_def os_accepts_def os_fair_def)
qed

section \<open>One producer's text in a pass\<close>

lemma producers_text_append:
  "producers_text clock clk n (ps @ qs) =
     producers_text clock clk n ps @
     producers_text clock clk (n + sum_list (map losses ps)) qs"
  by (induction ps arbitrary: n) (simp_all add: add.assoc)

lemma pass_text_member:
  assumes "i < k_MAX_THREADS" and "slot_producer l i = Some p"
  shows "\<exists>pre now post. pass_text l = pre @ producer_text (l_clock l) (os_clock l now) p @ post"
proof -
  have "p \<in> set (producers_at l [0..<k_MAX_THREADS])"
    using assms by (force simp: producers_at_def image_iff)
  then obtain ps qs where "all_producers l = ps @ p # qs"
    by (metis all_producers_def append.assoc append_Cons split_list)
  then show ?thesis
    by (auto simp: pass_text_def producers_text_append)
qed

section \<open>Properties\<close>

text \<open>
  C11. A pass of the logger thread and the flush after it return, whatever is in the rings, and the file
  then holds everything: what was written or batched before, then for every registered thread in slot
  order, and last for the shared ring, a line for each of its records, oldest first, and its losses
  if it has any. Every ring is empty, every loss reported, and the closed producers freed.
\<close>

theorem pass_writes_everything:
  assumes "logger_ok l" and "os_accepts l"
  shows "\<exists>l1 l2. drain l = Some (l1, a_full (all_producers l)) \<and> flush l1 = Some l2 \<and>
    os_output l2 = os_output l @ pending l @ pass_text l \<and> pending l2 = [] \<and>
    logger_ok l2 \<and> list_all (slot_drained l l2) [0..<k_MAX_THREADS] \<and> drained (l_shared l) (l_shared l2)"
proof -
  obtain l1 where l1: "drain l = Some (l1, a_full (all_producers l))" "logger_ok l1" "os_accepts l1"
      "emitted l1 = emitted l @ pass_text l" "\<forall>i<k_MAX_THREADS. slot_drained l l1 i"
      "drained (l_shared l) (l_shared l1)"
    using drain_pass [OF assms(2,1)] by blast
  obtain l2 where l2: "flush l1 = Some l2" "logger_ok l2" "os_output l2 = emitted l1" "pending l2 = []"
      "same_rest l1 l2"
    using flush_frame [OF l1(3,2)] by blast
  have "l_shared l2 = l_shared l1" using l2(5) by (simp add: same_rest_def)
  then show ?thesis
    using l1 l2 slot_drained_same_rest [OF _ l2(5)]
    by (simp add: emitted_def list_all_iff)
qed

definition file_os :: os where
  "file_os = \<lparr>os_write = (\<lambda>n. if n mod 2 = 0 then Interrupted else Written 9), os_writes = 0, os_output = [],
              os_clock = (\<lambda>n. 1000), os_reads = 0\<rparr>"

definition unit_clock :: tick_conversion where
  "unit_clock = \<lparr>d_start = 0, d_num = 1, d_denom = 1\<rparr>"

lemma file_os_accepts: "os_accepts (Logger file_os clock)"
proof -
  have "\<exists>m. (n + m) mod 2 \<noteq> 0" for n :: nat
    by (rule exI [of _ "n + 1"]) presburger
  then show ?thesis by (simp add: os_accepts_def os_fair_def Logger_def file_os_def)
qed

definition a_record :: log_record where
  "a_record = record_make_message Severity_e_INFO 1000 (message_from_raw 2)"

lemma producers_at_empty: "\<forall>i \<in> set ix. l_slots l ! i = None \<Longrightarrow> producers_at l ix = []"
  by (induction ix) (simp_all add: producers_at_Cons slot_producer_def)

lemma Logger_slots: "l_slots (Logger env clock) = replicate k_MAX_THREADS None"
  by (simp add: Logger_def)

lemma push_locked_ok:
  "logger_ok l \<Longrightarrow> logger_ok (push_locked r l)"
  by (simp add: logger_ok_def slots_ok_def batch_ok_def push_locked_def producer_push_spec)

text \<open>The example: one record in the shared ring of a new logger.\<close>

lemma shared_pushed:
  "all_producers (push_locked a_record (Logger file_os unit_clock)) =
     [producer_push a_record (Producer ''shared'')]"
  "producer_contents (producer_push a_record (Producer ''shared'')) = [a_record]"
  "news (producer_push a_record (Producer ''shared'')) = 0"
  "producer_name (producer_push a_record (Producer ''shared'')) = ''shared''"
  using producer_push_spec [OF Producer_ok(1), of a_record "''shared''"]
  by (simp_all add: all_producers_def producers_at_empty push_locked_def Logger_slots Producer_ok news_def
      producer_name_Producer k_MAX_NAME_SIZE_def)
    (simp add: Logger_def k_SHARED_NAME_def)

lemma shared_pass_text:
  "pass_text (push_locked a_record (Logger file_os unit_clock)) = record_line unit_clock ''shared'' a_record"
  by (simp add: pass_text_def shared_pushed producer_text_def record_lines_def)
    (simp add: push_locked_def Logger_def)

lemma pass_writes_everything_witness:
  "\<exists>l1 l2. drain (push_locked a_record (Logger file_os unit_clock)) = Some (l1, False) \<and>
     flush l1 = Some l2 \<and> os_output l2 = record_line unit_clock ''shared'' a_record"
proof -
  let ?l = "push_locked a_record (Logger file_os unit_clock)"
  have ok: "logger_ok ?l" using Logger_ok by (rule push_locked_ok)
  have acc: "os_accepts ?l"
    using file_os_accepts [of unit_clock] by (simp add: os_accepts_def os_fair_def push_locked_def)
  have "os_output ?l = []" "pending ?l = []"
    by (simp_all add: push_locked_def Logger_def file_os_def pending_def memcpy_out_def)
  moreover have "a_full (all_producers ?l) = False"
    by (simp add: a_full_def shared_pushed)
  ultimately show ?thesis
    using pass_writes_everything [OF ok acc] shared_pass_text by auto
qed

text \<open>
  C17. \<open>flush\<close> returns unless the system call is interrupted for ever, whatever else fails; what it has
  handed over is then a prefix of the batch, the whole batch if no write failed, and the batch is
  empty. No record is written twice or out of order.
\<close>

theorem flush_hands_over:
  assumes "batch_ok l" and "os_fair l"
  shows "\<exists>l' t. flush l = Some l' \<and> pending l' = [] \<and> os_output l' = os_output l @ t \<and>
    prefix t (pending l) \<and> (if os_accepts l then t = pending l else True)"
  using flush_returns [OF assms(2,1)] by (fastforce simp: pending_def memcpy_out_def)

lemma flush_hands_over_witness:
  "\<exists>l' t. flush (Logger file_os unit_clock\<lparr>os_write := \<lambda>n. Failed\<rparr>) = Some l' \<and> pending l' = []"
  using flush_hands_over [of "Logger file_os unit_clock\<lparr>os_write := \<lambda>n. Failed\<rparr>"]
  by (fastforce simp: batch_ok_def Logger_def os_fair_def)

text \<open>
  C15. Registration takes the first free slot and gives a handle to a new, live and empty producer
  named as asked, cut to 16 characters; it fails, with the error that says how many threads are the
  limit, exactly when every slot is taken. Either way the other threads' producers are untouched.
\<close>

theorem registration:
  assumes "logger_ok l"
  shows "case register_current_thread name t l of (outcome, l') \<Rightarrow>
    logger_ok l' \<and> emitted l' = emitted l \<and>
    (case outcome of
       Inl e \<Rightarrow>
         e = error_make Kind_e_EXHAUSTED CoreReason_e_LOG_TOO_MANY_THREADS 32 \<and>
         list_all (\<lambda>slot. slot \<noteq> None) (l_slots l) \<and> l_slots l' = l_slots l \<and> l_heap l' = l_heap l
     | Inr h \<Rightarrow> \<exists>i.
         i < k_MAX_THREADS \<and> l_slots l ! i = None \<and> list_all (\<lambda>slot. slot \<noteq> None) (take i (l_slots l)) \<and>
         l_slots l' = (l_slots l)[i := d_producer_p h] \<and> handle_slot h i l' (Producer name) \<and>
         d_owner h = t \<and> producer_name (Producer name) = take 16 name \<and>
         list_all (\<lambda>j. j = i \<or> slot_producer l' j = slot_producer l j) [0..<k_MAX_THREADS])"
proof (cases "\<forall>i<k_MAX_THREADS. l_slots l ! i \<noteq> None")
  case True
  have ok: "slots_ok l" using assms by (simp add: logger_ok_def)
  then have "list_all (\<lambda>slot. slot \<noteq> None) (l_slots l)"
    using True by (simp add: list_all_length slots_ok_def)
  moreover have "logger_ok (l\<lparr>l_next := l_next l + 1\<rparr>)"
    using assms unfolding logger_ok_def slots_ok_def batch_ok_def by (simp add: less_Suc_eq)
  ultimately show ?thesis
    by (simp add: register_full [OF ok True] emitted_def pending_def)
next
  case False
  then obtain i where i: "i < k_MAX_THREADS" "l_slots l ! i = None" "\<And>j. j < i \<Longrightarrow> l_slots l ! j \<noteq> None"
    using first_free by blast
  have ok: "slots_ok l" and len: "length (l_slots l) = k_MAX_THREADS"
    using assms by (simp_all add: logger_ok_def slots_ok_def)
  have before: "list_all (\<lambda>slot. slot \<noteq> None) (take i (l_slots l))"
    using i len by (simp add: list_all_length)
  have others: "list_all (\<lambda>j. j = i \<or> slot_producer (registered l i name) j = slot_producer l j)
      [0..<k_MAX_THREADS]"
    using registered_slot(2) [OF assms i(1)] unfolding list_all_iff by (metis atLeastLessThan_iff set_upt)
  have reg: "register_current_thread name t l =
      (Inr \<lparr>d_producer_p = Some (l_next l), d_owner = t\<rparr>, registered l i name)"
    using register_free [OF ok i] by simp
  show ?thesis
    unfolding reg prod.case sum.case
    using registered_ok [OF assms i(1)] registered_slot(1) [OF assms i(1)] before others i(1,2)
    by (intro conjI exI [of _ i])
      (simp_all add: registered_def emitted_def pending_def producer_name_Producer k_MAX_NAME_SIZE_def)
qed

lemma registration_witness:
  "case register_current_thread ''render'' 7 (Logger file_os unit_clock) of (outcome, l') \<Rightarrow> logger_ok l'"
  using registration [OF Logger_ok [of file_os unit_clock], of "''render''" 7] by (auto split: prod.splits)

lemma register_succeeds:
  assumes "logger_ok l" and "register_current_thread name t l = (Inr h, l1)"
  obtains i where "i < k_MAX_THREADS" and "l1 = registered l i name"
    and "h = \<lparr>d_producer_p = Some (l_next l), d_owner = t\<rparr>"
    and "handle_slot h i l1 (Producer name)" and "logger_ok l1"
proof -
  have ok: "slots_ok l" using assms(1) by (simp add: logger_ok_def)
  have "\<not> (\<forall>i<k_MAX_THREADS. l_slots l ! i \<noteq> None)"
  proof
    assume "\<forall>i<k_MAX_THREADS. l_slots l ! i \<noteq> None"
    from register_full [OF ok this, of name t] assms(2) show False by simp
  qed
  then obtain i where i: "i < k_MAX_THREADS" "l_slots l ! i = None" "\<And>j. j < i \<Longrightarrow> l_slots l ! j \<noteq> None"
    using first_free by blast
  have l1: "l1 = registered l i name" "h = \<lparr>d_producer_p = Some (l_next l), d_owner = t\<rparr>"
    using register_free [OF ok i] assms(2) by simp_all
  show thesis
    using that [OF i(1) l1] registered_slot(1) [OF assms(1) i(1)] registered_ok [OF assms(1) i(1)] l1
    by simp
qed

text \<open>Registering, logging and destroying the handle leave a closed producer with what was logged.\<close>

lemma session_closes:
  fixes rs :: "log_record list"
  assumes "logger_ok l" and "register_current_thread name t l = (Inr h, l1)"
  defines "p \<equiv> fold producer_push rs (Producer name)"
  obtains i l2 l3 where "i < k_MAX_THREADS" and "handle_slot h i l1 (Producer name)"
    and "handle_pushes h t rs l1 = Some l2" and "handle_destroy h l2 = Some l3"
    and "handle_slot h i l3 (producer_close p)" and "logger_ok l3"
    and "os_accepts l3 = os_accepts l" and "l_clock l3 = l_clock l"
proof -
  obtain i where i: "i < k_MAX_THREADS" "l1 = registered l i name"
      "h = \<lparr>d_producer_p = Some (l_next l), d_owner = t\<rparr>" "handle_slot h i l1 (Producer name)" "logger_ok l1"
    using register_succeeds [OF assms(1,2)] by blast
  note fold = fold_push [OF Producer_ok(1), of rs name, folded p_def]
  have s1: "os_accepts l1 = os_accepts l" "l_clock l1 = l_clock l"
    by (simp_all add: i(2) registered_def os_accepts_def os_fair_def)
  have owner: "d_owner h = t" by (simp add: i(3))
  obtain l2 where l2: "handle_pushes h t rs l1 = Some l2" "handle_slot h i l2 p" "logger_ok l2"
      "os_accepts l2 = os_accepts l" "l_clock l2 = l_clock l"
    using handle_pushes_slot [OF i(4,5) Producer_ok(1), of rs] s1 by (auto simp: owner p_def)
  obtain l3 where "handle_destroy h l2 = Some l3" "handle_slot h i l3 (producer_close p)" "logger_ok l3"
      "os_accepts l3 = os_accepts l" "l_clock l3 = l_clock l"
    using handle_destroy_slot [OF l2(2,3) fold(1)] l2 by auto
  then show thesis using that [OF i(1,4) l2(1)] by blast
qed

text \<open>The text of the closed producer: a line for each record kept, and the number lost.\<close>

definition session_text :: "tick_conversion \<Rightarrow> u64 \<Rightarrow> string \<Rightarrow> log_record list \<Rightarrow> string" where
  "session_text clock now name rs =
     concat (map (record_line clock (take 16 name)) (take 4096 rs)) @
     (if (of_nat (length rs - 4096) :: u64) \<noteq> 0
      then loss_line clock now (take 16 name) (of_nat (length rs - 4096)) else [])"

lemma session_producer_text:
  "producer_text clock now (producer_close (fold producer_push rs (Producer name))) =
     session_text clock now name rs"
  using fold_push [OF Producer_ok(1), of rs name]
  by (simp add: producer_text_def record_lines_def news_def Producer_ok producer_name_Producer
      k_MAX_NAME_SIZE_def session_text_def)

text \<open>
  C4. The life of a thread: after it registers, logs any records and destroys its handle, all of which
  succeed, the next pass and flush put into the file, in the order it logged them and under its name, a
  line for each of the first 4096 records and, if it logged more, a line with the number lost; and its
  slot is free again.
\<close>

theorem session_is_written:
  assumes "logger_ok l" and "os_accepts l" and "register_current_thread name t l = (Inr h, l1)"
  shows "\<exists>l2 l3 l4 b l5 pre now post.
    handle_pushes h t rs l1 = Some l2 \<and> handle_destroy h l2 = Some l3 \<and>
    drain l3 = Some (l4, b) \<and> flush l4 = Some l5 \<and>
    os_output l5 = pre @ concat (map (record_line (l_clock l) (take 16 name)) (take 4096 rs)) @
      (if (of_nat (length rs - 4096) :: u64) \<noteq> 0
       then loss_line (l_clock l) now (take 16 name) (of_nat (length rs - 4096)) else []) @ post \<and>
    (\<exists>i<k_MAX_THREADS. l_slots l1 ! i = d_producer_p h \<and> l_slots l5 ! i = None)"
proof -
  define p where "p = fold producer_push rs (Producer name)"
  obtain i l2 l3 where i: "i < k_MAX_THREADS" "handle_slot h i l1 (Producer name)"
    and l2: "handle_pushes h t rs l1 = Some l2"
    and l3: "handle_destroy h l2 = Some l3" "handle_slot h i l3 (producer_close p)" "logger_ok l3"
      "os_accepts l3 = os_accepts l" "l_clock l3 = l_clock l"
    unfolding p_def by (rule session_closes [OF assms(1,3)])
  obtain l4 where l4: "drain l3 = Some (l4, a_full (all_producers l3))" "logger_ok l4"
      "os_accepts l4" "emitted l4 = emitted l3 @ pass_text l3" "slot_drained l3 l4 i"
    using drain_pass [OF _ l3(3)] l3(4) assms(2) i(1) by blast
  obtain l5 where l5: "flush l4 = Some l5" "os_output l5 = emitted l4" "same_rest l4 l5"
    using flush_frame [OF l4(3,2)] by blast
  obtain a where a: "l_heap l3 a = Some (producer_close p)" "l_slots l3 ! i = Some a"
    using handle_slot_heap [OF l3(2)] l3(2) by (auto simp: handle_slot_def)
  obtain pre now post where tx: "pass_text l3 =
      pre @ producer_text (l_clock l3) (os_clock l3 now) (producer_close p) @ post"
    using pass_text_member [OF i(1)] l3(2) unfolding handle_slot_def by blast
  have out: "os_output l5 = (emitted l3 @ pre) @ session_text (l_clock l) (os_clock l3 now) name rs @ post"
    using l5(2) l4(4) tx l3(5) session_producer_text by (simp add: p_def)
  have "l_slots l5 ! i = None"
    using slot_drained_same_rest [OF l4(5) l5(3)] a by (simp add: slot_drained_def)
  moreover have "l_slots l1 ! i = d_producer_p h" using i(2) by (simp add: handle_slot_def)
  ultimately show ?thesis
    using l2 l3(1) l4(1) l5(1) out [unfolded session_text_def] i(1) by (metis append.assoc)
qed

lemma session_is_written_witness:
  "\<exists>h l1 l2 l3 l4 b l5 pre post.
     register_current_thread ''render'' 7 (Logger file_os unit_clock) = (Inr h, l1) \<and>
     handle_pushes h 7 [a_record] l1 = Some l2 \<and> handle_destroy h l2 = Some l3 \<and>
     drain l3 = Some (l4, b) \<and> flush l4 = Some l5 \<and>
     os_output l5 = pre @ record_line unit_clock ''render'' a_record @ post"
proof -
  have ok: "slots_ok (Logger file_os unit_clock)"
    using Logger_ok by (simp add: logger_ok_def)
  obtain h l1 where reg: "register_current_thread ''render'' 7 (Logger file_os unit_clock) = (Inr h, l1)"
    using register_free [OF ok, of 0] by (simp add: Logger_def k_MAX_THREADS_def)
  have clock: "l_clock (Logger file_os unit_clock) = unit_clock" by (simp add: Logger_def)
  obtain l2 l3 l4 b l5 pre post where
      "handle_pushes h 7 [a_record] l1 = Some l2" "handle_destroy h l2 = Some l3"
      "drain l3 = Some (l4, b)" "flush l4 = Some l5"
      "os_output l5 = pre @ concat (map (record_line unit_clock ''render'') [a_record]) @ [] @ post"
    using session_is_written [OF Logger_ok file_os_accepts reg, where rs = "[a_record]",
        unfolded clock]
    by auto
  then show ?thesis using reg by auto
qed

text \<open>
  The destructor returns, having written everything that was left, and its assertion holds exactly when
  every thread still registered had closed its producer.
\<close>

theorem destructor_writes_rest:
  assumes "logger_ok l" and "os_accepts l"
  shows "\<exists>l'. Logger_destroy l =
      Some (l', list_all (\<lambda>p. d_phase p = Phase_e_CLOSED) (producers_at l [0..<k_MAX_THREADS])) \<and>
    os_output l' = os_output l @ pending l @ pass_text l \<and> pending l' = []"
proof -
  obtain l1 where l1: "drain l = Some (l1, a_full (all_producers l))" "logger_ok l1" "os_accepts l1"
      "emitted l1 = emitted l @ pass_text l" "\<forall>i<k_MAX_THREADS. slot_drained l l1 i"
    using drain_pass [OF assms(2,1)] by blast
  obtain l2 where l2: "flush l1 = Some l2" "logger_ok l2" "os_output l2 = emitted l1" "pending l2 = []"
      "same_rest l1 l2"
    using flush_frame [OF l1(3,2)] by blast
  have "l_slots l2 ! i = None \<longleftrightarrow> (case slot_producer l i of None \<Rightarrow> True | Some p \<Rightarrow> d_phase p = Phase_e_CLOSED)"
    if "i < k_MAX_THREADS" for i
  proof -
    have "slot_drained l l2 i" using l1(5) that slot_drained_same_rest [OF _ l2(5)] by blast
    then show ?thesis
      by (cases "l_slots l ! i"; cases "l_heap l (the (l_slots l ! i))")
        (auto simp: slot_drained_def slot_producer_def split: if_splits)
  qed
  moreover have "length (l_slots l2) = k_MAX_THREADS"
    using l2(2) by (simp add: logger_ok_def slots_ok_def)
  moreover have "list_all Q (producers_at l ix) \<longleftrightarrow>
      list_all (\<lambda>i. case slot_producer l i of None \<Rightarrow> True | Some p \<Rightarrow> Q p) ix" for Q ix
    by (induction ix) (simp_all add: producers_at_Cons split: option.splits)
  ultimately have "list_all (\<lambda>slot. slot = None) (l_slots l2) \<longleftrightarrow>
      list_all (\<lambda>p. d_phase p = Phase_e_CLOSED) (producers_at l [0..<k_MAX_THREADS])"
    by (simp only:) (simp add: list_all_length)
  then show ?thesis
    using l1(1,4) l2(1,3,4) by (simp add: Logger_destroy_def emitted_def)
qed

lemma destructor_writes_rest_witness:
  "\<exists>l'. Logger_destroy (Logger file_os unit_clock) = Some (l', True) \<and> pending l' = []"
proof -
  have "producers_at (Logger file_os unit_clock) [0..<k_MAX_THREADS] = []"
    by (rule producers_at_empty) (simp add: Logger_slots)
  then show ?thesis
    using destructor_writes_rest [OF Logger_ok file_os_accepts [of unit_clock]]
    by auto
qed

section \<open>The life of the logger\<close>

text \<open>
  What the other threads may do to the logger between two passes: leave it well-formed, and what was
  written or batched alone. Every call of a client does.
\<close>

definition clients_call :: "logger \<Rightarrow> logger \<Rightarrow> bool" where
  "clients_call l l1 \<longleftrightarrow> logger_ok l1 \<and> os_accepts l1 \<and> emitted l1 = emitted l"

fun clients_ok :: "(logger \<Rightarrow> logger) list \<Rightarrow> logger \<Rightarrow> bool" where
  "clients_ok [] l = True"
| "clients_ok (others # passes) l \<longleftrightarrow> clients_call l (others l) \<and>
     (case consume [others] l of None \<Rightarrow> True | Some l1 \<Rightarrow> clients_ok passes l1)"

text \<open>What the passes of the loop write, each the text of what is in the rings when it starts.\<close>

fun passes_text :: "(logger \<Rightarrow> logger) list \<Rightarrow> logger \<Rightarrow> string" where
  "passes_text [] l = []"
| "passes_text (others # passes) l = pass_text (others l) @
     (case consume [others] l of None \<Rightarrow> [] | Some l1 \<Rightarrow> passes_text passes l1)"

lemma clients_call_push_locked: "logger_ok l \<Longrightarrow> os_accepts l \<Longrightarrow> clients_call l (push_locked r l)"
  using push_locked_ok [of l r]
  by (simp add: clients_call_def) (simp add: push_locked_def os_accepts_def os_fair_def emitted_def pending_def)

lemma clients_call_register:
  assumes "logger_ok l" and "os_accepts l" and "register_current_thread name t l = (Inr h, l1)"
  shows "clients_call l l1"
proof -
  obtain i where "l1 = registered l i name" "logger_ok l1" using register_succeeds [OF assms(1,3)] by blast
  then show ?thesis
    using assms(2) by (simp add: clients_call_def registered_def os_accepts_def os_fair_def emitted_def pending_def)
qed

lemma clients_call_log:
  assumes "handle_slot h i l p" and "logger_ok l" and "os_accepts l" and "producer_ok p"
    and "handle_pushes h (d_owner h) rs l = Some l1"
  shows "clients_call l l1"
  using handle_pushes_slot [OF assms(1,2,4), of rs] assms(3,5) by (simp add: clients_call_def)

lemma clients_call_destroy:
  assumes "handle_slot h i l p" and "logger_ok l" and "os_accepts l" and "producer_ok p"
    and "handle_destroy h l = Some l1"
  shows "clients_call l l1"
  using handle_destroy_slot [OF assms(1,2,4)] assms(3,5) by (simp add: clients_call_def)

lemma consume_Cons:
  "consume (others # passes) l = (case consume [others] l of None \<Rightarrow> None | Some l1 \<Rightarrow> consume passes l1)"
  by (auto split: Option.bind_splits option.splits prod.splits)

lemma consume_pass:
  assumes "clients_call l (others l)"
  shows "\<exists>l1. consume [others] l = Some l1 \<and> logger_ok l1 \<and> os_accepts l1 \<and> pending l1 = [] \<and>
    os_output l1 = emitted l @ pass_text (others l)"
proof -
  have ok: "logger_ok (others l)" "os_accepts (others l)" "emitted (others l) = emitted l"
    using assms by (simp_all add: clients_call_def)
  obtain l1 b where l1: "drain (others l) = Some (l1, b)" "logger_ok l1" "os_accepts l1"
      "emitted l1 = emitted l @ pass_text (others l)"
    using drain_pass [OF ok(2,1)] ok(3) by auto
  obtain l2 where "flush l1 = Some l2" "logger_ok l2" "os_accepts l2" "os_output l2 = emitted l1" "pending l2 = []"
    using flush_frame [OF l1(3,2)] by blast
  then show ?thesis using l1 by simp
qed

lemma consume_writes:
  assumes "logger_ok l" and "os_accepts l" and "pending l = []" and "clients_ok passes l"
  shows "\<exists>l1. consume passes l = Some l1 \<and> logger_ok l1 \<and> os_accepts l1 \<and> pending l1 = [] \<and>
    os_output l1 = os_output l @ passes_text passes l"
  using assms
proof (induction passes arbitrary: l)
  case (Cons others passes)
  obtain l1 where l1: "consume [others] l = Some l1" "logger_ok l1" "os_accepts l1" "pending l1 = []"
      "os_output l1 = os_output l @ pass_text (others l)"
    using consume_pass [of l others] Cons.prems by (auto simp: emitted_def)
  then have "clients_ok passes l1" using Cons.prems(4) by (simp del: consume.simps)
  then show ?case
    using Cons.IH [OF l1(2-4)] consume_Cons [of others passes l] l1 by (auto simp del: consume.simps)
qed simp

text \<open>
  C18. The whole life of the logger: constructed, its thread looping over passes while others register, log
  and go, and destroyed. The loop and the destructor return; the file holds, pass by pass, the text of
  every record that was in a ring when the pass started, the last being that of the destructor, and
  nothing else; and the destructor's assertion holds exactly when every thread closed its producer.
\<close>

theorem logger_life:
  assumes "os_accepts (Logger env clock)" and "clients_ok passes (Logger env clock)"
    and "\<And>l. consume passes (Logger env clock) = Some l \<Longrightarrow> clients_call l (others l)"
  shows "\<exists>l1 l2. consume passes (Logger env clock) = Some l1 \<and>
    Logger_destroy (others l1) =
      Some (l2, list_all (\<lambda>p. d_phase p = Phase_e_CLOSED) (producers_at (others l1) [0..<k_MAX_THREADS])) \<and>
    os_output l2 = os_output env @ passes_text passes (Logger env clock) @ pass_text (others l1) \<and>
    pending l2 = []"
proof -
  have init: "pending (Logger env clock) = []" "os_output (Logger env clock) = os_output env"
    by (simp_all add: Logger_def pending_def memcpy_out_def)
  obtain l1 where l1: "consume passes (Logger env clock) = Some l1" "pending l1 = []"
      "os_output l1 = os_output env @ passes_text passes (Logger env clock)"
    using consume_writes [OF Logger_ok assms(1) init(1) assms(2)] init(2) by auto
  have call: "logger_ok (others l1)" "os_accepts (others l1)" "emitted (others l1) = os_output l1"
    using assms(3) [OF l1(1)] l1(2) by (simp_all add: clients_call_def emitted_def)
  then show ?thesis
    using destructor_writes_rest [OF call(1,2)] l1 by (auto simp: emitted_def)
qed

lemma logger_life_witness:
  "\<exists>l1 l2 b. consume [push_locked a_record, id] (Logger file_os unit_clock) = Some l1 \<and>
     Logger_destroy (push_locked a_record l1) = Some (l2, b) \<and>
     prefix (record_line unit_clock ''shared'' a_record) (os_output l2)"
proof -
  let ?L = "Logger file_os unit_clock" and ?f = "push_locked a_record"
  have call: "clients_call ?L (?f ?L)"
    by (rule clients_call_push_locked [OF Logger_ok file_os_accepts])
  have ok: "clients_ok [?f, id] ?L"
    using call consume_pass [of ?L ?f] by (auto simp: clients_call_def simp del: consume.simps split: option.split)
  have "clients_call l (?f l)" if "consume [?f, id] ?L = Some l" for l
    using consume_writes [OF Logger_ok file_os_accepts _ ok] that clients_call_push_locked
    by (simp add: Logger_def pending_def memcpy_out_def del: consume.simps)
  moreover have "os_output file_os = []" by (simp add: file_os_def)
  ultimately show ?thesis
    using logger_life [OF file_os_accepts ok, of ?f] by (auto simp: shared_pass_text simp del: consume.simps)
qed

end
