(* ===== verification/Core_Log_Concurrent.thy ===== *)
theory Core_Log_Concurrent
  imports Core_Log Core_Spsc_Linear
begin

text \<open>
  The logger while its threads run together: clients that register, log, destroy their handles and take
  the locked path, and the logger thread that drains. Each rule below is one access to what two threads
  share (a slot, a phase, a count, a ring, the mutex), or one allocation; any interleaving of them is a
  run.

  Accesses are acquire, release or relaxed, as in the code, so a load need not answer the newest value. A
  stale answer is a value stored earlier, no older than one the thread has already seen; an acquire load
  that answers \<^verbatim>\<open>e_CLOSED\<close> makes everything its owner did before visible, so the loads after it are
  exact. A whole ring call is one step: \<open>Core_Spsc_Linear\<close> shows, from the byte accesses up, that its answer
  is that of the call run alone with a possibly old counter of the other side, which is what
  \<open>push_seeing\<close> and \<open>pop_seeing\<close> are.
\<close>

section \<open>Calls that may see old counters\<close>

text \<open>\<open>Producer::push\<close> whose load of the consumer's counter, if it makes one, answers \<open>tail\<close>.\<close>

definition push_seeing :: "u64 \<Rightarrow> log_record \<Rightarrow> producer \<Rightarrow> bool \<times> producer" where
  "push_seeing tail r p =
     (let (pushed, p1) = producer_try_push r (p\<lparr>d_ring := (d_ring p)\<lparr>d_tail := tail\<rparr>\<rparr>)
      in (pushed, p1\<lparr>d_ring := (d_ring p1)\<lparr>d_tail := d_tail (d_ring p)\<rparr>\<rparr>))"

text \<open>\<open>Producer::pop\<close> whose load of the pusher's counter, if it makes one, answers \<open>head\<close>.\<close>

definition pop_seeing :: "u64 \<Rightarrow> producer \<Rightarrow> log_record option \<times> producer" where
  "pop_seeing head p =
     (let (x, p1) = producer_pop (p\<lparr>d_ring := (d_ring p)\<lparr>d_head := head\<rparr>\<rparr>)
      in (x, p1\<lparr>d_ring := (d_ring p1)\<lparr>d_head := d_head (d_ring p)\<rparr>\<rparr>))"

text \<open>\<open>Producer::take_dropped\<close> whose load of the count answers \<open>dropped\<close>.\<close>

definition take_dropped_seeing :: "u64 \<Rightarrow> producer \<Rightarrow> u64 \<times> producer" where
  "take_dropped_seeing dropped p =
     (let (news, p1) = take_dropped (p\<lparr>d_dropped := dropped\<rparr>)
      in (news, p1\<lparr>d_dropped := d_dropped p\<rparr>))"

text \<open>The answers each load may give: the first is the pusher's, the other two the logger thread's.\<close>

definition tail_visible :: "producer \<Rightarrow> u64 \<Rightarrow> bool" where
  "tail_visible p tail \<longleftrightarrow>
     tail - d_cached_tail (d_ring p) \<le> d_tail (d_ring p) - d_cached_tail (d_ring p)"

definition head_visible :: "phase \<Rightarrow> producer \<Rightarrow> u64 \<Rightarrow> bool" where
  "head_visible ph p head \<longleftrightarrow>
     (if ph = Phase_e_CLOSED then head = d_head (d_ring p)
      else head - d_cached_head (d_ring p) \<le> d_head (d_ring p) - d_cached_head (d_ring p))"

definition dropped_visible :: "phase \<Rightarrow> producer \<Rightarrow> u64 \<Rightarrow> bool" where
  "dropped_visible ph p dropped \<longleftrightarrow>
     (if ph = Phase_e_CLOSED then dropped = d_dropped p
      else dropped - d_reported p \<le> d_dropped p - d_reported p)"

subsection \<open>They are the calls of the linearized ring\<close>

lemma tail_visible_between: "tail_visible p tail \<longleftrightarrow> tail_between (d_ring p) tail"
  by (simp add: tail_visible_def tail_between_def)

lemma head_visible_between: "head_visible ph p head \<Longrightarrow> head_between (d_ring p) head"
  by (simp add: head_visible_def head_between_def split: if_splits)

lemma push_seeing_linear:
  "push_seeing tail r p =
     (let (b, ring) = push_call_seeing k_RING_CAPACITY sizeof_record tail (Push_one (record_bytes r)) (d_ring p)
      in (b, (if b then p else p\<lparr>d_dropped := d_dropped p + 1\<rparr>)\<lparr>d_ring := ring\<rparr>))"
  by (simp add: push_seeing_def producer_try_push_def producer_push_def push_call_seeing_def split_beta Let_def)

lemma pop_seeing_linear:
  "pop_seeing head p =
     (let (v, ring) = try_pop_seeing k_RING_CAPACITY sizeof_record head (d_ring p)
      in (map_option record_of_bytes v, p\<lparr>d_ring := ring\<rparr>))"
  by (simp add: pop_seeing_def producer_pop_def try_pop_seeing_def split_beta Let_def)

lemma record_call_ok: "call_ok sizeof_record (Push_one (record_bytes r))"
  by (simp add: call_ok_def sizeof_record_def)

lemma push_seeing_spec:
  assumes "producer_ok p" and "tail_visible p tail" and "push_seeing tail r p = (b, p')"
  shows "producer_ok p'"
    and "producer_contents p' = (if b then producer_contents p @ [r] else producer_contents p)"
    and "d_dropped p' = (if b then d_dropped p else d_dropped p + 1)"
    and "d_phase p' = d_phase p" "d_reported p' = d_reported p"
proof -
  note inv = assms(1) [unfolded producer_ok_def, THEN conjunct1]
  obtain c ring where eq: "push_call_seeing k_RING_CAPACITY sizeof_record tail
      (Push_one (record_bytes r)) (d_ring p) = (c, ring)" by fastforce
  note laws = push_call_seeing_spec [OF inv record_call_ok assms(2) [unfolded tail_visible_between] eq]
  have p': "b = c" "p' = (if c then p else p\<lparr>d_dropped := d_dropped p + 1\<rparr>)\<lparr>d_ring := ring\<rparr>"
    using assms(3) by (auto simp: push_seeing_linear eq)
  show "producer_ok p'" using laws(1) assms(1) by (simp add: p' producer_ok_def)
  show "producer_contents p' = (if b then producer_contents p @ [r] else producer_contents p)"
    using laws(2) by (simp add: p' producer_contents_def)
  show "d_dropped p' = (if b then d_dropped p else d_dropped p + 1)"
    and "d_phase p' = d_phase p" "d_reported p' = d_reported p" by (simp_all add: p')
qed

lemma pop_seeing_spec:
  assumes "producer_ok p" and "head_visible ph p head" and "pop_seeing head p = (x, p')"
  shows "producer_ok p'"
    and "x = Some r \<Longrightarrow> producer_contents p = r # producer_contents p'"
    and "x = None \<Longrightarrow> producer_contents p' = producer_contents p"
    and "x = None \<Longrightarrow> ph = Phase_e_CLOSED \<Longrightarrow> producer_contents p = []"
    and "d_dropped p' = d_dropped p" "d_phase p' = d_phase p" "d_reported p' = d_reported p"
proof -
  note inv = assms(1) [unfolded producer_ok_def, THEN conjunct1]
  obtain v ring where eq: "try_pop_seeing k_RING_CAPACITY sizeof_record head (d_ring p) = (v, ring)"
    by fastforce
  note laws = try_pop_seeing_spec [OF inv head_visible_between [OF assms(2)] eq]
  have p': "x = map_option record_of_bytes v" "p' = p\<lparr>d_ring := ring\<rparr>"
    using assms(3) by (auto simp: pop_seeing_linear eq)
  show "producer_ok p'" using laws(1) assms(1) by (simp add: p' producer_ok_def)
  show "x = Some r \<Longrightarrow> producer_contents p = r # producer_contents p'"
    and "x = None \<Longrightarrow> producer_contents p' = producer_contents p"
    using laws(2,4) by (auto simp: p' producer_contents_def)
  show "x = None \<Longrightarrow> ph = Phase_e_CLOSED \<Longrightarrow> producer_contents p = []"
    using laws(3) assms(2) by (simp add: p' producer_contents_def head_visible_def)
  show "d_dropped p' = d_dropped p" "d_phase p' = d_phase p" "d_reported p' = d_reported p"
    by (simp_all add: p')
qed

lemma take_dropped_seeing_eq:
  "take_dropped_seeing d p = (d - d_reported p, p\<lparr>d_reported := d\<rparr>)"
  by (simp add: take_dropped_seeing_def take_dropped_def Let_def)

section \<open>The threads\<close>

text \<open>
  Where a client thread is: outside the logger, in \<^verbatim>\<open>register_current_thread\<close> with its fresh producer
  about to try slot \<open>i\<close>, or in \<^verbatim>\<open>push_locked\<close> before or after its push.
\<close>

datatype client_pc = Outside | Registering addr nat | Locked | Unlocking

text \<open>
  Where the logger thread is: about to load slot \<open>i\<close>, or, in \<^verbatim>\<open>drain_one\<close> of the producer of slot \<open>i\<close>
  (\<open>k_MAX_THREADS\<close> is the shared one), about to read its phase, to pop with \<open>count\<close> pops done, or to take
  its count of lost records; then about to free it, and to clear its slot.
\<close>

datatype logger_pc =
    At_slot nat
  | Reading_phase nat addr
  | Popping nat addr phase nat
  | Taking_dropped nat addr phase
  | Freeing nat addr
  | Clearing nat

text \<open>
  What happened to a producer, kept beside the state: the records pushed into its ring, those popped
  from it, the pushes refused, and the refusals reported so far.
\<close>

record journal =
  accepted_records :: "log_record list"
  written_records :: "log_record list"
  lost :: nat
  told :: nat

definition new_journal :: journal where
  "new_journal = \<lparr>accepted_records = [], written_records = [], lost = 0, told = 0\<rparr>"

text \<open>
  The state: the heap of producers, the slots, the handles alive (by the producer they point to, with
  their owner), the shared producer and the mutex, and where each thread is. \<open>y_used\<close> are the slots that
  have held a pointer, which a failed exchange may still see; \<open>y_seen\<close> those whose pointer the logger
  thread has loaded, which it cannot miss any more. \<open>y_ended\<close> are the journals of the producers freed.
\<close>

record system =
  y_heap :: "addr \<Rightarrow> producer option"
  y_slots :: "addr option list"
  y_handles :: "addr \<Rightarrow> thread_id option"
  y_shared :: addr
  y_lock :: "thread_id option"
  y_clients :: "thread_id \<Rightarrow> client_pc"
  y_logger :: logger_pc
  y_used :: "nat set"
  y_seen :: "nat set"
  y_journal :: "addr \<Rightarrow> journal"
  y_ended :: "journal list"

definition system_init :: system where
  "system_init = \<lparr>y_heap = [0 \<mapsto> Producer k_SHARED_NAME], y_slots = replicate k_MAX_THREADS None,
     y_handles = Map.empty, y_shared = 0, y_lock = None, y_clients = (\<lambda>t. Outside), y_logger = At_slot 0,
     y_used = {}, y_seen = {}, y_journal = (\<lambda>a. new_journal), y_ended = []\<rparr>"

text \<open>A push into the producer at \<open>a\<close>, which is \<open>p\<close>.\<close>

definition pushed_at :: "addr \<Rightarrow> producer \<Rightarrow> u64 \<Rightarrow> log_record \<Rightarrow> system \<Rightarrow> system" where
  "pushed_at a p tail r s =
     (let (pushed, p1) = push_seeing tail r p; j = y_journal s a
      in s\<lparr>y_heap := (y_heap s)(a \<mapsto> p1),
           y_journal := (y_journal s)(a :=
             (if pushed then j\<lparr>accepted_records := accepted_records j @ [r]\<rparr>
              else j\<lparr>lost := lost j + 1\<rparr>))\<rparr>)"

text \<open>
  A client thread \<open>t\<close>. An allocation may return any address not in use, one just freed included. A
  compare-and-exchange succeeds only on the newest value; when it fails it is a relaxed load. Any thread
  may destroy a handle, but only the owner pushes.
\<close>

inductive client_step :: "system \<Rightarrow> system \<Rightarrow> bool" where
  make_producer:
    "y_clients s t = Outside \<Longrightarrow> y_heap s a = None \<Longrightarrow>
     client_step s (s\<lparr>y_heap := (y_heap s)(a \<mapsto> Producer name),
       y_journal := (y_journal s)(a := new_journal),
       y_clients := (y_clients s)(t := Registering a 0)\<rparr>)"
| exchange_succeeds:
    "y_clients s t = Registering a i \<Longrightarrow> i < k_MAX_THREADS \<Longrightarrow> y_slots s ! i = None \<Longrightarrow>
     client_step s (s\<lparr>y_slots := (y_slots s)[i := Some a],
       y_handles := (y_handles s)(a \<mapsto> t),
       y_clients := (y_clients s)(t := Outside), y_used := insert i (y_used s)\<rparr>)"
| exchange_fails:
    "y_clients s t = Registering a i \<Longrightarrow> i < k_MAX_THREADS \<Longrightarrow> y_slots s ! i \<noteq> None \<or> i \<in> y_used s \<Longrightarrow>
     client_step s (s\<lparr>y_clients := (y_clients s)(t := Registering a (i + 1))\<rparr>)"
| registration_fails:
    "y_clients s t = Registering a k_MAX_THREADS \<Longrightarrow>
     client_step s (s\<lparr>y_heap := (y_heap s)(a := None), y_clients := (y_clients s)(t := Outside)\<rparr>)"
| handle_push:
    "y_clients s t = Outside \<Longrightarrow> y_handles s a = Some t \<Longrightarrow> y_heap s a = Some p \<Longrightarrow> tail_visible p tail \<Longrightarrow>
     client_step s (pushed_at a p tail r s)"
| handle_destroy:
    "y_handles s a = Some t \<Longrightarrow> y_heap s a = Some p \<Longrightarrow>
     client_step s (s\<lparr>y_heap := (y_heap s)(a \<mapsto> producer_close p),
       y_handles := (y_handles s)(a := None)\<rparr>)"
| lock:
    "y_clients s t = Outside \<Longrightarrow> y_lock s = None \<Longrightarrow>
     client_step s (s\<lparr>y_lock := Some t, y_clients := (y_clients s)(t := Locked)\<rparr>)"
| locked_push:
    "y_clients s t = Locked \<Longrightarrow> y_heap s (y_shared s) = Some p \<Longrightarrow> tail_visible p tail \<Longrightarrow>
     client_step s (pushed_at (y_shared s) p tail r
       (s\<lparr>y_clients := (y_clients s)(t := Unlocking)\<rparr>))"
| unlock:
    "y_clients s t = Unlocking \<Longrightarrow>
     client_step s (s\<lparr>y_lock := None, y_clients := (y_clients s)(t := Outside)\<rparr>)"

text \<open>The number of pops \<^verbatim>\<open>drain_one\<close> makes at most, and what it does after it.\<close>

definition pop_limit :: "phase \<Rightarrow> nat" where
  "pop_limit ph = (if ph = Phase_e_CLOSED then 2 ^ 64 - 1 else unat k_RING_CAPACITY)"

definition after_drain_one :: "nat \<Rightarrow> addr \<Rightarrow> phase \<Rightarrow> logger_pc" where
  "after_drain_one i a ph =
     (if i = k_MAX_THREADS then At_slot 0
      else if ph = Phase_e_CLOSED then Freeing i a else At_slot (i + 1))"

inductive logger_step :: "system \<Rightarrow> system \<Rightarrow> bool" where
  see_empty:
    "y_logger s = At_slot i \<Longrightarrow> i < k_MAX_THREADS \<Longrightarrow> y_slots s ! i = None \<or> i \<notin> y_seen s \<Longrightarrow>
     logger_step s (s\<lparr>y_logger := At_slot (i + 1)\<rparr>)"
| see_producer:
    "y_logger s = At_slot i \<Longrightarrow> i < k_MAX_THREADS \<Longrightarrow> y_slots s ! i = Some a \<Longrightarrow>
     logger_step s (s\<lparr>y_logger := Reading_phase i a, y_seen := insert i (y_seen s)\<rparr>)"
| to_shared:
    "y_logger s = At_slot k_MAX_THREADS \<Longrightarrow>
     logger_step s (s\<lparr>y_logger := Reading_phase k_MAX_THREADS (y_shared s)\<rparr>)"
| read_phase:
    "y_logger s = Reading_phase i a \<Longrightarrow> y_heap s a = Some p \<Longrightarrow> ph = d_phase p \<or> ph = Phase_e_LIVE \<Longrightarrow>
     logger_step s (s\<lparr>y_logger := Popping i a ph 0\<rparr>)"
| pop_record:
    "y_logger s = Popping i a ph n \<Longrightarrow> n < pop_limit ph \<Longrightarrow> y_heap s a = Some p \<Longrightarrow>
     head_visible ph p head \<Longrightarrow> pop_seeing head p = (Some r, p1) \<Longrightarrow>
     logger_step s (s\<lparr>y_heap := (y_heap s)(a \<mapsto> p1), y_logger := Popping i a ph (n + 1),
       y_journal := (y_journal s)(a := (y_journal s a)
         \<lparr>written_records := written_records (y_journal s a) @ [r]\<rparr>)\<rparr>)"
| pop_nothing:
    "y_logger s = Popping i a ph n \<Longrightarrow> n < pop_limit ph \<Longrightarrow> y_heap s a = Some p \<Longrightarrow>
     head_visible ph p head \<Longrightarrow> pop_seeing head p = (None, p1) \<Longrightarrow>
     logger_step s (s\<lparr>y_heap := (y_heap s)(a \<mapsto> p1), y_logger := Taking_dropped i a ph\<rparr>)"
| pop_enough:
    "y_logger s = Popping i a ph n \<Longrightarrow> \<not> n < pop_limit ph \<Longrightarrow>
     logger_step s (s\<lparr>y_logger := Taking_dropped i a ph\<rparr>)"
| take_count:
    "y_logger s = Taking_dropped i a ph \<Longrightarrow> y_heap s a = Some p \<Longrightarrow> dropped_visible ph p d \<Longrightarrow>
     take_dropped_seeing d p = (count, p1) \<Longrightarrow>
     logger_step s (s\<lparr>y_heap := (y_heap s)(a \<mapsto> p1), y_logger := after_drain_one i a ph,
       y_journal := (y_journal s)(a := (y_journal s a)\<lparr>told := told (y_journal s a) + unat count\<rparr>)\<rparr>)"
| free_producer:
    "y_logger s = Freeing i a \<Longrightarrow>
     logger_step s (s\<lparr>y_heap := (y_heap s)(a := None), y_logger := Clearing i,
       y_ended := y_ended s @ [y_journal s a]\<rparr>)"
| clear_slot:
    "y_logger s = Clearing i \<Longrightarrow>
     logger_step s (s\<lparr>y_slots := (y_slots s)[i := None], y_seen := y_seen s - {i},
       y_logger := At_slot (i + 1)\<rparr>)"

inductive system_reachable :: "system \<Rightarrow> bool" where
  start: "system_reachable system_init"
| client: "system_reachable s \<Longrightarrow> client_step s s' \<Longrightarrow> system_reachable s'"
| logger: "system_reachable s \<Longrightarrow> logger_step s s' \<Longrightarrow> system_reachable s'"

section \<open>The invariant\<close>

text \<open>
  Every producer has one place, from its allocation until it is freed: it is the shared one, or the fresh
  one of a thread that is registering, or the one of a slot. \<open>place\<close> says which, and the invariant says that
  slots, threads and the logger thread agree with it. A producer in a slot has a handle until it is
  closed.
\<close>

datatype place = Shared_place | Fresh thread_id | In_slot nat

definition journal_ok :: "journal \<Rightarrow> producer \<Rightarrow> bool" where
  "journal_ok j p \<longleftrightarrow>
     accepted_records j = written_records j @ producer_contents p \<and>
     d_dropped p = of_nat (lost j) \<and> d_reported p = of_nat (told j) \<and> told j \<le> lost j"

definition journal_complete :: "journal \<Rightarrow> bool" where
  "journal_complete j \<longleftrightarrow>
     accepted_records j = written_records j \<and> told j \<le> lost j \<and> (of_nat (told j) :: u64) = of_nat (lost j)"

definition in_place :: "system \<Rightarrow> addr \<Rightarrow> producer \<Rightarrow> place \<Rightarrow> bool" where
  "in_place s a p pl \<longleftrightarrow>
     (case pl of
        Shared_place \<Rightarrow> a = y_shared s \<and> y_handles s a = None \<and> d_phase p = Phase_e_LIVE
      | Fresh t \<Rightarrow> y_handles s a = None \<and> d_phase p = Phase_e_LIVE \<and> (\<exists>i. y_clients s t = Registering a i)
      | In_slot i \<Rightarrow> i < k_MAX_THREADS \<and> y_slots s ! i = Some a \<and> y_logger s \<noteq> Clearing i \<and>
          (y_handles s a = None \<longleftrightarrow> d_phase p = Phase_e_CLOSED))"

definition addr_ok :: "(addr \<Rightarrow> place option) \<Rightarrow> system \<Rightarrow> addr \<Rightarrow> bool" where
  "addr_ok place s a \<longleftrightarrow>
     (case y_heap s a of
        None \<Rightarrow> place a = None \<and> y_handles s a = None
      | Some p \<Rightarrow> producer_ok p \<and> journal_ok (y_journal s a) p \<and>
          (case place a of None \<Rightarrow> False | Some pl \<Rightarrow> in_place s a p pl))"

definition slot_ok :: "(addr \<Rightarrow> place option) \<Rightarrow> system \<Rightarrow> nat \<Rightarrow> bool" where
  "slot_ok place s i \<longleftrightarrow>
     (case y_slots s ! i of
        None \<Rightarrow> y_logger s \<noteq> Clearing i
      | Some a \<Rightarrow> y_logger s \<noteq> Clearing i \<longrightarrow> place a = Some (In_slot i))"

definition client_ok :: "(addr \<Rightarrow> place option) \<Rightarrow> system \<Rightarrow> thread_id \<Rightarrow> bool" where
  "client_ok place s t \<longleftrightarrow>
     (case y_clients s t of
        Outside \<Rightarrow> y_lock s \<noteq> Some t
      | Registering a i \<Rightarrow> y_lock s \<noteq> Some t \<and> place a = Some (Fresh t) \<and> i \<le> k_MAX_THREADS
      | Locked \<Rightarrow> y_lock s = Some t
      | Unlocking \<Rightarrow> y_lock s = Some t)"

definition drains :: "system \<Rightarrow> nat \<Rightarrow> addr \<Rightarrow> bool" where
  "drains s i a \<longleftrightarrow>
     (if i = k_MAX_THREADS then a = y_shared s else i < k_MAX_THREADS \<and> y_slots s ! i = Some a)"

definition closed_at :: "system \<Rightarrow> addr \<Rightarrow> (producer \<Rightarrow> bool) \<Rightarrow> bool" where
  "closed_at s a P \<longleftrightarrow>
     (case y_heap s a of None \<Rightarrow> False | Some p \<Rightarrow> d_phase p = Phase_e_CLOSED \<and> P p)"

definition consumer_ok :: "system \<Rightarrow> bool" where
  "consumer_ok s \<longleftrightarrow>
     (case y_logger s of
        At_slot i \<Rightarrow> i \<le> k_MAX_THREADS
      | Reading_phase i a \<Rightarrow> drains s i a
      | Popping i a ph n \<Rightarrow> drains s i a \<and> n \<le> pop_limit ph \<and>
          (ph = Phase_e_CLOSED \<longrightarrow> closed_at s a (\<lambda>p. n + length (producer_contents p) \<le> 4096))
      | Taking_dropped i a ph \<Rightarrow> drains s i a \<and>
          (ph = Phase_e_CLOSED \<longrightarrow> closed_at s a (\<lambda>p. producer_contents p = []))
      | Freeing i a \<Rightarrow> i < k_MAX_THREADS \<and> drains s i a \<and>
          closed_at s a (\<lambda>p. producer_contents p = [] \<and> d_reported p = d_dropped p)
      | Clearing i \<Rightarrow> i < k_MAX_THREADS)"

definition system_inv :: "(addr \<Rightarrow> place option) \<Rightarrow> system \<Rightarrow> bool" where
  "system_inv place s \<longleftrightarrow>
     length (y_slots s) = k_MAX_THREADS \<and> place (y_shared s) = Some Shared_place \<and>
     y_heap s (y_shared s) \<noteq> None \<and>
     (\<forall>a. addr_ok place s a) \<and> (\<forall>i<k_MAX_THREADS. slot_ok place s i) \<and> (\<forall>t. client_ok place s t) \<and>
     consumer_ok s \<and> list_all journal_complete (y_ended s)"

lemmas system_inv_defs = addr_ok_def slot_ok_def client_ok_def consumer_ok_def in_place_def drains_def
  closed_at_def

lemma system_invD:
  assumes "system_inv place s"
  shows "length (y_slots s) = k_MAX_THREADS" "place (y_shared s) = Some Shared_place"
    "y_heap s (y_shared s) \<noteq> None" "addr_ok place s a" "i < k_MAX_THREADS \<Longrightarrow> slot_ok place s i"
    "client_ok place s t" "consumer_ok s" "list_all journal_complete (y_ended s)"
  using assms by (simp_all add: system_inv_def)

lemma journal_ok_new: "journal_ok new_journal (Producer name)"
  by (simp add: journal_ok_def new_journal_def Producer_ok)

lemma system_inv_init: "system_inv [0 \<mapsto> Shared_place] system_init"
  by (auto simp: system_inv_def system_init_def system_inv_defs Producer_ok journal_ok_new)

lemma make_producer_inv [step_inv]:
  assumes "system_inv place s" and "y_clients s t = Outside" and "y_heap s a = None"
  shows "system_inv (place(a \<mapsto> Fresh t)) (s\<lparr>y_heap := (y_heap s)(a \<mapsto> Producer name),
       y_journal := (y_journal s)(a := new_journal),
       y_clients := (y_clients s)(t := Registering a 0)\<rparr>)" (is "system_inv ?place ?s")
proof -
  note inv = system_invD [OF assms(1)]
  have a: "place a = None" "a \<noteq> y_shared s" "y_handles s a = None"
    using inv(4) [of a] inv(3) assms(3) by (auto simp: addr_ok_def)
  have "addr_ok ?place ?s b" for b
    using inv(4) [of b] assms(2) a
    by (auto simp: addr_ok_def in_place_def Producer_ok journal_ok_new split: option.splits place.splits)
  moreover have "slot_ok ?place ?s i" if "i < k_MAX_THREADS" for i
    using inv(5) [OF that] a by (auto simp: slot_ok_def split: option.splits)
  moreover have "client_ok ?place ?s u" for u
    using inv(6) [of u] inv(6) [of t] assms(2) a by (auto simp: client_ok_def split: client_pc.splits)
  moreover have "consumer_ok ?s"
    using inv(7) assms(3) by (auto simp: consumer_ok_def drains_def closed_at_def split: logger_pc.splits)
  ultimately show ?thesis using inv a by (simp add: system_inv_def)
qed

lemma exchange_succeeds_inv [step_inv]:
  assumes "system_inv place s" and "y_clients s t = Registering a i" and "i < k_MAX_THREADS"
    and "y_slots s ! i = None"
  shows "system_inv (place(a \<mapsto> In_slot i)) (s\<lparr>y_slots := (y_slots s)[i := Some a],
       y_handles := (y_handles s)(a \<mapsto> t),
       y_clients := (y_clients s)(t := Outside), y_used := insert i (y_used s)\<rparr>)"
    (is "system_inv ?place ?s")
proof -
  note inv = system_invD [OF assms(1)]
  have a: "place a = Some (Fresh t)" "a \<noteq> y_shared s"
    using inv(6) [of t] inv(2) assms(2) by (auto simp: client_ok_def)
  have i: "y_logger s \<noteq> Clearing i" using inv(5) [OF assms(3)] assms(4) by (simp add: slot_ok_def)
  have "addr_ok ?place ?s b" for b
    using inv(4) [of b] assms(2,3,4) a i inv(1)
    by (auto simp: addr_ok_def in_place_def nth_list_update split: option.splits place.splits)
  moreover have "slot_ok ?place ?s j" if "j < k_MAX_THREADS" for j
    using inv(5) [OF that] a i inv(1) assms(3) by (auto simp: slot_ok_def nth_list_update split: option.splits)
  moreover have "client_ok ?place ?s u" for u
    using inv(6) [of u] inv(6) [of t] assms(2) a by (auto simp: client_ok_def split: client_pc.splits)
  moreover have "consumer_ok ?s"
    using inv(1,7) assms(3,4)
    by (auto simp: consumer_ok_def drains_def closed_at_def nth_list_update split: logger_pc.splits if_splits)
  ultimately show ?thesis using inv a by (simp add: system_inv_def)
qed

lemma exchange_fails_inv [step_inv]:
  assumes "system_inv place s" and "y_clients s t = Registering a i" and "i < k_MAX_THREADS"
  shows "system_inv place (s\<lparr>y_clients := (y_clients s)(t := Registering a (i + 1))\<rparr>)"
    (is "system_inv place ?s")
proof -
  note inv = system_invD [OF assms(1)]
  have "addr_ok place ?s b" for b
    using inv(4) [of b] assms(2) by (auto simp: addr_ok_def in_place_def split: option.splits place.splits)
  moreover have "slot_ok place ?s j" if "j < k_MAX_THREADS" for j
    using inv(5) [OF that] by (auto simp: slot_ok_def split: option.splits)
  moreover have "client_ok place ?s u" for u
    using inv(6) [of u] inv(6) [of t] assms(2,3) by (auto simp: client_ok_def split: client_pc.splits)
  moreover have "consumer_ok ?s"
    using inv(7) by (auto simp: consumer_ok_def drains_def closed_at_def split: logger_pc.splits)
  ultimately show ?thesis using inv by (simp add: system_inv_def)
qed

lemma registration_fails_inv [step_inv]:
  assumes "system_inv place s" and "y_clients s t = Registering a k_MAX_THREADS"
  shows "system_inv (place(a := None))
    (s\<lparr>y_heap := (y_heap s)(a := None), y_clients := (y_clients s)(t := Outside)\<rparr>)"
    (is "system_inv ?place ?s")
proof -
  note inv = system_invD [OF assms(1)]
  have a: "place a = Some (Fresh t)" "a \<noteq> y_shared s"
    using inv(6) [of t] inv(2) assms(2) by (auto simp: client_ok_def)
  have "y_handles s a = None"
    using inv(4) [of a] a by (auto simp: addr_ok_def in_place_def split: option.splits)
  then have "addr_ok ?place ?s b" for b
    using inv(4) [of b] assms(2) a by (auto simp: addr_ok_def in_place_def split: option.splits place.splits)
  moreover have "slot_ok ?place ?s j" if "j < k_MAX_THREADS" for j
    using inv(5) [OF that] a by (auto simp: slot_ok_def split: option.splits)
  moreover have "client_ok ?place ?s u" for u
    using inv(6) [of u] inv(6) [of t] assms(2) a by (auto simp: client_ok_def split: client_pc.splits)
  moreover have "\<not> closed_at s a P" for P
    using inv(4) [of a] a by (auto simp: addr_ok_def in_place_def closed_at_def split: option.splits)
  then have "closed_at ?s b P = closed_at s b P" for b P
    by (simp add: closed_at_def)
  then have "consumer_ok ?s"
    using inv(7) by (auto simp: consumer_ok_def drains_def split: logger_pc.splits)
  ultimately show ?thesis using inv a by (simp add: system_inv_def)
qed

lemma pushed_at_inv:
  assumes "system_inv place s" and "y_heap s a = Some p" and "d_phase p = Phase_e_LIVE"
    and "tail_visible p tail"
  shows "system_inv place (pushed_at a p tail r s)" (is "system_inv place ?s")
proof -
  note inv = system_invD [OF assms(1)]
  obtain b p1 where eq: "push_seeing tail r p = (b, p1)" by fastforce
  have p: "producer_ok p" "journal_ok (y_journal s a) p"
    using inv(4) [of a] assms(2) by (auto simp: addr_ok_def)
  note p1 = push_seeing_spec [OF p(1) assms(4) eq]
  define j where "j = (if b then (y_journal s a)\<lparr>accepted_records := accepted_records (y_journal s a) @ [r]\<rparr>
    else (y_journal s a)\<lparr>lost := lost (y_journal s a) + 1\<rparr>)"
  have s: "?s = s\<lparr>y_heap := (y_heap s)(a \<mapsto> p1), y_journal := (y_journal s)(a := j)\<rparr>"
    by (simp add: pushed_at_def eq Let_def j_def)
  have j: "journal_ok j p1" using p(2) p1 by (simp add: journal_ok_def j_def)
  have "addr_ok place ?s c" for c
    using inv(4) [of c] assms(2) p1 j by (auto simp: s addr_ok_def in_place_def split: option.splits place.splits)
  moreover have "slot_ok place ?s i" if "i < k_MAX_THREADS" for i
    using inv(5) [OF that] by (auto simp: s slot_ok_def split: option.splits)
  moreover have "client_ok place ?s u" for u
    using inv(6) [of u] by (auto simp: s client_ok_def split: client_pc.splits)
  moreover have "consumer_ok ?s"
    using inv(7) assms(2,3) by (auto simp: s consumer_ok_def drains_def closed_at_def split: logger_pc.splits)
  ultimately show ?thesis using inv by (simp add: s system_inv_def)
qed

lemma handle_destroy_inv [step_inv]:
  assumes "system_inv place s" and "y_handles s a = Some t" and "y_heap s a = Some p"
  shows "system_inv place (s\<lparr>y_heap := (y_heap s)(a \<mapsto> producer_close p),
       y_handles := (y_handles s)(a := None)\<rparr>)" (is "system_inv place ?s")
proof -
  note inv = system_invD [OF assms(1)]
  have close: "producer_ok (producer_close q) = producer_ok q"
      "journal_ok j (producer_close q) = journal_ok j q" for q j
    by (simp_all add: producer_ok_def journal_ok_def producer_close_def producer_contents_def)
  have "addr_ok place ?s c" for c
    using inv(4) [of c] assms(2,3) close
    by (auto simp: addr_ok_def in_place_def producer_close_def split: option.splits place.splits)
  moreover have "slot_ok place ?s i" if "i < k_MAX_THREADS" for i
    using inv(5) [OF that] by (auto simp: slot_ok_def split: option.splits)
  moreover have "client_ok place ?s u" for u
    using inv(6) [of u] by (auto simp: client_ok_def split: client_pc.splits)
  moreover have "consumer_ok ?s"
    using inv(7) assms(3)
    by (auto simp: consumer_ok_def drains_def closed_at_def producer_close_def producer_contents_def
        split: logger_pc.splits)
  ultimately show ?thesis using inv by (simp add: system_inv_def)
qed

text \<open>A step that only moves a thread within the locked path.\<close>

lemma lock_path_inv:
  assumes "system_inv place s" and "\<forall>a i. y_clients s t \<noteq> Registering a i \<and> pc \<noteq> Registering a i"
    and "\<forall>u. u \<noteq> t \<longrightarrow> (lk = Some u \<longleftrightarrow> y_lock s = Some u)"
    and "(pc = Outside) \<noteq> (lk = Some t)"
  shows "system_inv place (s\<lparr>y_lock := lk, y_clients := (y_clients s)(t := pc)\<rparr>)" (is "system_inv place ?s")
proof -
  note inv = system_invD [OF assms(1)]
  have "addr_ok place ?s b" for b
    using inv(4) [of b] assms(2) by (auto simp: addr_ok_def in_place_def split: option.splits place.splits)
  moreover have "slot_ok place ?s j" if "j < k_MAX_THREADS" for j
    using inv(5) [OF that] by (auto simp: slot_ok_def split: option.splits)
  moreover have "client_ok place ?s u" for u
    using inv(6) [of u] assms(2,3,4) by (auto simp: client_ok_def split: client_pc.splits)
  moreover have "consumer_ok ?s"
    using inv(7) by (auto simp: consumer_ok_def drains_def closed_at_def split: logger_pc.splits)
  ultimately show ?thesis using inv by (simp add: system_inv_def)
qed

lemma shared_producer:
  assumes "system_inv place s" and "y_heap s (y_shared s) = Some p"
  shows "d_phase p = Phase_e_LIVE"
  using system_invD(2) [OF assms(1)] system_invD(4) [OF assms(1), of "y_shared s"] assms(2)
  by (simp add: addr_ok_def in_place_def)

lemma client_step_inv:
  assumes "client_step s s'" and "system_inv place s"
  shows "\<exists>place'. system_inv place' s'"
  using assms
proof (induction rule: client_step.induct)
  case (handle_push s t a p tail r)
  from system_invD(4) [OF handle_push(5), of a] handle_push(2,3) have "d_phase p = Phase_e_LIVE"
    by (auto simp: addr_ok_def in_place_def split: option.splits place.splits intro: phase.exhaust [of "d_phase p"])
  then show ?case using pushed_at_inv handle_push by blast
next
  case (lock s t)
  then show ?case using lock_path_inv [of place s t Locked "Some t"] by auto
next
  case (locked_push s t p tail r)
  let ?s = "s\<lparr>y_clients := (y_clients s)(t := Unlocking)\<rparr>"
  from locked_push(4) have "y_lock s = Some t"
    using locked_push(1) system_invD(6) [of place s t] by (simp add: client_ok_def)
  then have "system_inv place (s\<lparr>y_lock := y_lock s, y_clients := (y_clients s)(t := Unlocking)\<rparr>)"
    using lock_path_inv [of place s t Unlocking "y_lock s"] locked_push(1,4) by simp
  moreover have "s\<lparr>y_lock := y_lock s, y_clients := (y_clients s)(t := Unlocking)\<rparr> = ?s" by (cases s) simp
  ultimately have "system_inv place ?s" by simp
  moreover have "d_phase p = Phase_e_LIVE" using shared_producer locked_push(2,4) by blast
  ultimately show ?case using pushed_at_inv [of place ?s "y_shared s" p tail r] locked_push(2,3) by auto
next
  case (unlock s t)
  then have "y_lock s = Some t"
    using system_invD(6) [of place s t] by (simp add: client_ok_def)
  then show ?case using lock_path_inv [of place s t Outside None] unlock by auto
qed (blast intro: step_inv)+

text \<open>A step of the logger thread that only moves it on.\<close>

lemma logger_moves_inv:
  assumes "system_inv place s" and "consumer_ok (s\<lparr>y_logger := pc\<rparr>)"
    and "\<forall>i. y_logger s \<noteq> Clearing i \<and> pc \<noteq> Clearing i"
  shows "system_inv place (s\<lparr>y_logger := pc\<rparr>)" (is "system_inv place ?s")
proof -
  note inv = system_invD [OF assms(1)]
  have "addr_ok place ?s b" for b
    using inv(4) [of b] assms(3) by (auto simp: addr_ok_def in_place_def split: option.splits place.splits)
  moreover have "slot_ok place ?s j" if "j < k_MAX_THREADS" for j
    using inv(5) [OF that] assms(3) by (auto simp: slot_ok_def split: option.splits)
  moreover have "client_ok place ?s u" for u
    using inv(6) [of u] by (auto simp: client_ok_def split: client_pc.splits)
  ultimately show ?thesis using inv assms(2) by (simp add: system_inv_def)
qed

lemma logger_sees_inv: "system_inv place (s\<lparr>y_seen := seen\<rparr>) \<longleftrightarrow> system_inv place s"
  by (auto simp: system_inv_def addr_ok_def in_place_def slot_ok_def client_ok_def consumer_ok_def drains_def
      closed_at_def split: option.splits place.splits client_pc.splits logger_pc.splits)

text \<open>A step of the logger thread on the producer at \<open>a\<close>, whose handle and place stay.\<close>

lemma logger_works_inv:
  fixes pc :: logger_pc
  assumes "system_inv place s" and "y_heap s a = Some p"
    and "producer_ok p1" "journal_ok j p1" "d_phase p1 = d_phase p"
  defines "s1 \<equiv> s\<lparr>y_heap := (y_heap s)(a \<mapsto> p1), y_logger := pc, y_journal := (y_journal s)(a := j)\<rparr>"
  assumes "consumer_ok s1" and "\<forall>i. y_logger s \<noteq> Clearing i \<and> pc \<noteq> Clearing i"
  shows "system_inv place s1"
proof -
  note inv = system_invD [OF assms(1)]
  have "addr_ok place s1 b" for b
    using inv(4) [of b] assms(2-5,8)
    by (auto simp: s1_def addr_ok_def in_place_def split: option.splits place.splits)
  moreover have "slot_ok place s1 i" if "i < k_MAX_THREADS" for i
    using inv(5) [OF that] assms(8) by (auto simp: s1_def slot_ok_def split: option.splits)
  moreover have "client_ok place s1 u" for u
    using inv(6) [of u] by (auto simp: s1_def client_ok_def split: client_pc.splits)
  ultimately show ?thesis using inv assms(7) by (simp add: s1_def system_inv_def)
qed

lemma free_inv [step_inv]:
  assumes "system_inv place s" and "y_logger s = Freeing i a"
  shows "system_inv (place(a := None)) (s\<lparr>y_heap := (y_heap s)(a := None), y_logger := Clearing i,
       y_ended := y_ended s @ [y_journal s a]\<rparr>)" (is "system_inv ?place ?s")
proof -
  note inv = system_invD [OF assms(1)]
  have i: "i < k_MAX_THREADS" "y_slots s ! i = Some a"
    and closed: "closed_at s a (\<lambda>p. producer_contents p = [] \<and> d_reported p = d_dropped p)"
    using inv(7) assms(2) by (auto simp: consumer_ok_def drains_def)
  then have a: "place a = Some (In_slot i)"
    using inv(5) [OF i(1)] assms(2) by (simp add: slot_ok_def)
  then have shared: "a \<noteq> y_shared s" using inv(2) by auto
  have gone: "y_handles s a = None" "journal_complete (y_journal s a)"
    using inv(4) [of a] a closed
    by (auto simp: addr_ok_def in_place_def closed_at_def journal_ok_def journal_complete_def split: option.splits)
  have "addr_ok ?place ?s b" for b
    using inv(4) [of b] assms(2) a gone i(2)
    by (auto simp: addr_ok_def in_place_def split: option.splits place.splits)
  moreover have "slot_ok ?place ?s j" if "j < k_MAX_THREADS" for j
    using inv(5) [OF that] a i assms(2) by (auto simp: slot_ok_def split: option.splits)
  moreover have "client_ok ?place ?s u" for u
    using inv(6) [of u] a by (auto simp: client_ok_def split: client_pc.splits)
  moreover have "consumer_ok ?s" using i(1) by (simp add: consumer_ok_def)
  ultimately show ?thesis using inv shared gone(2) by (simp add: system_inv_def)
qed

lemma clear_inv [step_inv]:
  assumes "system_inv place s" and "y_logger s = Clearing i"
  shows "system_inv place (s\<lparr>y_slots := (y_slots s)[i := None], y_seen := y_seen s - {i},
       y_logger := At_slot (i + 1)\<rparr>)" (is "system_inv place ?s")
proof -
  note inv = system_invD [OF assms(1)]
  have i: "i < k_MAX_THREADS" using inv(7) assms(2) by (simp add: consumer_ok_def)
  have "addr_ok place ?s b" for b
    using inv(4) [of b] assms(2) i
    by (auto simp: addr_ok_def in_place_def nth_list_update split: option.splits place.splits)
  moreover have "slot_ok place ?s j" if "j < k_MAX_THREADS" for j
    using inv(5) [OF that] inv(1) i assms(2) by (auto simp: slot_ok_def nth_list_update split: option.splits)
  moreover have "client_ok place ?s u" for u
    using inv(6) [of u] by (auto simp: client_ok_def split: client_pc.splits)
  moreover have "consumer_ok ?s" using i by (simp add: consumer_ok_def)
  ultimately show ?thesis using inv by (simp add: system_inv_def)
qed

lemma drained_producer:
  assumes "system_inv place s" and "y_heap s a = Some p"
  shows "producer_ok p" "journal_ok (y_journal s a) p"
  using system_invD(4) [OF assms(1), of a] assms(2) by (simp_all add: addr_ok_def)

lemma live_shared_drain:
  assumes "system_inv place s" and "drains s k_MAX_THREADS a" and "y_heap s a = Some p"
  shows "d_phase p \<noteq> Phase_e_CLOSED"
  using shared_producer [OF assms(1)] assms(2,3) by (simp add: drains_def)

lemma pop_limit_closed: "4096 < pop_limit Phase_e_CLOSED"
  by (simp add: pop_limit_def)

text \<open>The steps of \<^verbatim>\<open>drain_one\<close>.\<close>

lemma read_phase_inv [step_inv]:
  assumes "system_inv place s" and "y_logger s = Reading_phase i a" and "y_heap s a = Some p"
    and "ph = Phase_e_CLOSED \<longrightarrow> d_phase p = Phase_e_CLOSED"
  shows "system_inv place (s\<lparr>y_logger := Popping i a ph 0\<rparr>)"
proof -
  have "drains s i a" using system_invD(7) [OF assms(1)] assms(2) by (simp add: consumer_ok_def)
  then have "consumer_ok (s\<lparr>y_logger := Popping i a ph 0\<rparr>)"
    using assms(3,4) producer_bounded [OF drained_producer(1) [OF assms(1,3)]]
    by (auto simp: consumer_ok_def drains_def closed_at_def)
  then show ?thesis using logger_moves_inv [OF assms(1)] assms(2) by simp
qed

lemma pop_record_inv [step_inv]:
  assumes "system_inv place s" and "y_logger s = Popping i a ph n" and "n < pop_limit ph"
    and "y_heap s a = Some p" and "head_visible ph p head" and "pop_seeing head p = (Some r, p1)"
  shows "system_inv place (s\<lparr>y_heap := (y_heap s)(a \<mapsto> p1), y_logger := Popping i a ph (n + 1),
       y_journal := (y_journal s)(a := (y_journal s a)
         \<lparr>written_records := written_records (y_journal s a) @ [r]\<rparr>)\<rparr>)"
proof -
  note p = drained_producer [OF assms(1,4)]
  note spec = pop_seeing_spec [OF p(1) assms(5,6)]
  have "consumer_ok (s\<lparr>y_heap := (y_heap s)(a \<mapsto> p1), y_logger := Popping i a ph (n + 1),
       y_journal := (y_journal s)(a := (y_journal s a)
         \<lparr>written_records := written_records (y_journal s a) @ [r]\<rparr>)\<rparr>)"
    using system_invD(7) [OF assms(1)] assms(2-4) spec
    by (auto simp: consumer_ok_def drains_def closed_at_def)
  moreover have "journal_ok ((y_journal s a)\<lparr>written_records := written_records (y_journal s a) @ [r]\<rparr>) p1"
    using p(2) spec by (simp add: journal_ok_def)
  ultimately show ?thesis
    using logger_works_inv [OF assms(1,4) spec(1), where pc = "Popping i a ph (n + 1)"] spec(6) assms(2)
    by auto
qed

lemma pop_nothing_inv [step_inv]:
  assumes "system_inv place s" and "y_logger s = Popping i a ph n" and "y_heap s a = Some p"
    and "head_visible ph p head" and "pop_seeing head p = (None, p1)"
  shows "system_inv place (s\<lparr>y_heap := (y_heap s)(a \<mapsto> p1), y_logger := Taking_dropped i a ph\<rparr>)"
proof -
  note p = drained_producer [OF assms(1,3)]
  note spec = pop_seeing_spec [OF p(1) assms(4,5)]
  have eq: "s\<lparr>y_heap := (y_heap s)(a \<mapsto> p1), y_logger := Taking_dropped i a ph,
      y_journal := (y_journal s)(a := y_journal s a)\<rparr> =
      s\<lparr>y_heap := (y_heap s)(a \<mapsto> p1), y_logger := Taking_dropped i a ph\<rparr>" by (cases s) simp
  have "consumer_ok (s\<lparr>y_heap := (y_heap s)(a \<mapsto> p1), y_logger := Taking_dropped i a ph\<rparr>)"
    using system_invD(7) [OF assms(1)] assms(2,3) spec
    by (auto simp: consumer_ok_def drains_def closed_at_def)
  moreover have "journal_ok (y_journal s a) p1" using p(2) spec by (simp add: journal_ok_def)
  ultimately show ?thesis
    using logger_works_inv [OF assms(1,3) spec(1), where j = "y_journal s a" and pc = "Taking_dropped i a ph"]
      spec(6) assms(2) unfolding eq by auto
qed

lemma journal_take_count:
  assumes "journal_ok j p" and "dropped_visible ph p d" and "count = d - d_reported p"
  shows "journal_ok (j\<lparr>told := told j + unat count\<rparr>) (p\<lparr>d_reported := d\<rparr>)"
proof -
  have "count \<le> d_dropped p - d_reported p"
    using assms(2) by (auto simp: assms(3) dropped_visible_def split: if_splits)
  moreover have "d_dropped p - d_reported p = of_nat (lost j - told j)"
    using assms(1) by (simp add: journal_ok_def of_nat_diff)
  ultimately have "unat count \<le> unat (of_nat (lost j - told j) :: u64)"
    by (simp add: word_le_nat_alt)
  also have "\<dots> \<le> lost j - told j" by (simp add: unat_of_nat)
  finally have "told j + unat count \<le> lost j" using assms(1) by (auto simp: journal_ok_def)
  then show ?thesis
    using assms(1) by (simp add: journal_ok_def assms(3) producer_contents_def)
qed

lemma take_count_inv [step_inv]:
  assumes "system_inv place s" and "y_logger s = Taking_dropped i a ph" and "y_heap s a = Some p"
    and "dropped_visible ph p d" and "take_dropped_seeing d p = (count, p1)"
  shows "system_inv place (s\<lparr>y_heap := (y_heap s)(a \<mapsto> p1), y_logger := after_drain_one i a ph,
       y_journal := (y_journal s)(a := (y_journal s a)
         \<lparr>told := told (y_journal s a) + unat count\<rparr>)\<rparr>)"
proof -
  note p = drained_producer [OF assms(1,3)]
  have p1: "count = d - d_reported p" "p1 = p\<lparr>d_reported := d\<rparr>"
    using assms(5) by (simp_all add: take_dropped_seeing_eq)
  let ?j = "(y_journal s a)\<lparr>told := told (y_journal s a) + unat count\<rparr>"
  have "journal_ok ?j p1" "producer_ok p1" "d_phase p1 = d_phase p"
    using journal_take_count [OF p(2) assms(4) p1(1)] p(1) by (simp_all add: p1(2) producer_ok_def)
  moreover have "consumer_ok (s\<lparr>y_heap := (y_heap s)(a \<mapsto> p1), y_logger := after_drain_one i a ph,
       y_journal := (y_journal s)(a := ?j)\<rparr>)"
    using system_invD(7) [OF assms(1)] assms(2-4) live_shared_drain [OF assms(1), of a p]
    by (auto simp: consumer_ok_def drains_def closed_at_def after_drain_one_def p1 dropped_visible_def
        producer_contents_def split: if_splits)
  moreover have "after_drain_one i a ph \<noteq> Clearing k" for k by (simp add: after_drain_one_def)
  ultimately show ?thesis
    using logger_works_inv [OF assms(1,3), where ?p1.0 = p1 and j = ?j and pc = "after_drain_one i a ph"]
      assms(2) by auto
qed

lemma logger_step_inv:
  assumes "logger_step s s'" and "system_inv place s"
  shows "\<exists>place'. system_inv place' s'"
  using assms
proof (induction rule: logger_step.induct)
  case (see_empty s i)
  then show ?case using logger_moves_inv [of place s "At_slot (i + 1)"] by (auto simp: consumer_ok_def)
next
  case (see_producer s i a)
  then have "system_inv place (s\<lparr>y_logger := Reading_phase i a\<rparr>)"
    using logger_moves_inv [of place s "Reading_phase i a"] by (simp add: consumer_ok_def drains_def)
  then have "system_inv place (s\<lparr>y_logger := Reading_phase i a, y_seen := insert i (y_seen s)\<rparr>)"
    using logger_sees_inv [where s = "s\<lparr>y_logger := Reading_phase i a\<rparr>" and place = place
        and seen = "insert i (y_seen s)"] by simp
  then show ?case by blast
next
  case (to_shared s)
  then show ?case
    using logger_moves_inv [of place s "Reading_phase k_MAX_THREADS (y_shared s)"]
    by (auto simp: consumer_ok_def drains_def)
next
  case (pop_enough s i a ph n)
  then have "consumer_ok (s\<lparr>y_logger := Taking_dropped i a ph\<rparr>)"
    using system_invD(7) [of place s] pop_limit_closed
    by (auto simp: consumer_ok_def drains_def closed_at_def split: option.splits)
  then show ?case using logger_moves_inv [of place s] pop_enough by fastforce
qed (blast intro: step_inv)+

lemma reachable_inv: "system_reachable s \<Longrightarrow> \<exists>place. system_inv place s"
  by (induction rule: system_reachable.induct)
    (use system_inv_init client_step_inv logger_step_inv in blast)+

section \<open>The logger thread is never stuck, and a pass ends\<close>

text \<open>Steps left in a pass: at most \<open>4102\<close> for each slot and for the shared producer.\<close>

fun pass_work :: "logger_pc \<Rightarrow> nat" where
  "pass_work (At_slot i) = (k_MAX_THREADS + 1 - i) * 4102"
| "pass_work (Reading_phase i a) = (k_MAX_THREADS - i) * 4102 + 4101"
| "pass_work (Popping i a ph n) = (k_MAX_THREADS - i) * 4102 + (4096 - n) + 4"
| "pass_work (Taking_dropped i a ph) = (k_MAX_THREADS - i) * 4102 + 3"
| "pass_work (Freeing i a) = (k_MAX_THREADS - i) * 4102 + 2"
| "pass_work (Clearing i) = (k_MAX_THREADS - i) * 4102 + 1"

definition pass_ends :: "logger_pc \<Rightarrow> logger_pc \<Rightarrow> bool" where
  "pass_ends pc pc' \<longleftrightarrow>
     (case pc of Taking_dropped i a ph \<Rightarrow> i = k_MAX_THREADS | _ \<Rightarrow> False) \<and> pc' = At_slot 0"

lemma drains_heap:
  assumes "system_inv place s" and "drains s i a" and "y_logger s \<noteq> Clearing i"
  obtains p where "y_heap s a = Some p"
proof -
  have "y_heap s a \<noteq> None"
  proof (cases "i = k_MAX_THREADS")
    case True
    then show ?thesis using assms(2) system_invD(3) [OF assms(1)] by (simp add: drains_def)
  next
    case False
    then have "slot_ok place s i" "y_slots s ! i = Some a"
      using assms(2) system_invD(5) [OF assms(1)] by (simp_all add: drains_def)
    then have "place a \<noteq> None" using assms(3) by (simp add: slot_ok_def)
    then show ?thesis using system_invD(4) [OF assms(1), of a] by (auto simp: addr_ok_def split: option.splits)
  qed
  then show ?thesis using that by blast
qed

text \<open>
  \<open>sees_since a b s s'\<close>: what the step of the logger thread from \<open>s\<close> to \<open>s'\<close> loads of the producer at \<open>a\<close>
  is no older than what was there in the earlier state \<open>b\<close>. A pointer that has been in its slot since is
  seen, a producer closed since is seen closed, and a pop that finds nothing has loaded a counter at least
  as new.
\<close>

definition sees_since :: "addr \<Rightarrow> system \<Rightarrow> system \<Rightarrow> system \<Rightarrow> bool" where
  "sees_since a b s s' \<longleftrightarrow>
     (\<forall>i. y_logger s = At_slot i \<and> y_logger s' = At_slot (i + 1) \<longrightarrow>
        \<not> (y_slots b ! i = Some a \<and> y_slots s ! i = Some a)) \<and>
     (\<forall>i p p0. y_logger s = Reading_phase i a \<and> y_heap s a = Some p \<and> y_heap b a = Some p0 \<and>
        d_phase p = Phase_e_CLOSED \<and> d_phase p0 = Phase_e_CLOSED \<longrightarrow> y_logger s' \<noteq> Popping i a Phase_e_LIVE 0) \<and>
     (\<forall>i ph n p p0. y_logger s = Popping i a ph n \<and> y_logger s' = Taking_dropped i a ph \<and>
        n < pop_limit ph \<and> y_heap s a = Some p \<and> y_heap b a = Some p0 \<longrightarrow>
        (\<exists>head p1. head_visible ph p head \<and> pop_seeing head p = (None, p1) \<and> y_heap s' a = Some p1 \<and>
           d_head (d_ring p) - head \<le> d_head (d_ring p) - d_head (d_ring p0)))"

lemma logger_enabled_newest:
  assumes "system_inv place s"
  shows "\<exists>s'. logger_step s s' \<and> (\<forall>a b. sees_since a b s s')"
proof -
  note ok = system_invD(7) [OF assms, unfolded consumer_ok_def]
  show ?thesis
  proof (cases "y_logger s")
    case (At_slot i)
    then consider "i = k_MAX_THREADS" | "i < k_MAX_THREADS" "y_slots s ! i = None"
      | a where "i < k_MAX_THREADS" "y_slots s ! i = Some a"
      using ok by fastforce
    then show ?thesis
    proof cases
      case 1
      then show ?thesis using to_shared [of s] At_slot by (force simp: sees_since_def)
    next
      case 2
      then show ?thesis using see_empty [OF At_slot] At_slot by (force simp: sees_since_def)
    next
      case (3 a)
      then show ?thesis using see_producer [OF At_slot] by (force simp: sees_since_def At_slot)
    qed
  next
    case (Reading_phase i a)
    then obtain p where p: "y_heap s a = Some p" using drains_heap [OF assms, of i a] ok by auto
    show ?thesis using read_phase [OF Reading_phase p, of "d_phase p"] Reading_phase p by (force simp: sees_since_def)
  next
    case (Popping i a ph n)
    then obtain p where p: "y_heap s a = Some p" using drains_heap [OF assms, of i a] ok by auto
    have vis: "head_visible ph p (d_head (d_ring p))" by (simp add: head_visible_def)
    obtain x p1 where "pop_seeing (d_head (d_ring p)) p = (x, p1)" by fastforce
    then show ?thesis
      using pop_record [OF Popping _ p vis] pop_nothing [OF Popping _ p vis] pop_enough [OF Popping] Popping p vis
      by (cases "n < pop_limit ph"; cases x) (force simp: sees_since_def)+
  next
    case (Taking_dropped i a ph)
    then obtain p where p: "y_heap s a = Some p" using drains_heap [OF assms, of i a] ok by auto
    have "dropped_visible ph p (d_dropped p)" by (simp add: dropped_visible_def)
    from take_count [OF Taking_dropped p this] show ?thesis
      using Taking_dropped by (force simp: sees_since_def take_dropped_seeing_eq)
  next
    case (Freeing i a)
    then show ?thesis using free_producer by (force simp: sees_since_def)
  next
    case (Clearing i)
    then show ?thesis using clear_slot by (force simp: sees_since_def)
  qed
qed

lemma logger_enabled: "system_inv place s \<Longrightarrow> \<exists>s'. logger_step s s'"
  using logger_enabled_newest by blast

lemma pass_work_decreases:
  assumes "logger_step s s'" and "system_inv place s"
  shows "pass_work (y_logger s') < pass_work (y_logger s) \<or> pass_ends (y_logger s) (y_logger s')"
  using assms
proof (induction rule: logger_step.induct)
  case (pop_record s i a ph n p head r p1)
  have "n < 4096"
  proof (cases ph)
    case Phase_e_LIVE
    then show ?thesis using pop_record(2) by (simp add: pop_limit_def)
  next
    case Phase_e_CLOSED
    then show ?thesis
      using system_invD(7) [OF pop_record(6)] pop_record(1,3)
        pop_seeing_spec(2) [OF drained_producer(1) [OF pop_record(6,3)] pop_record(4,5)]
      by (simp add: consumer_ok_def closed_at_def)
  qed
  then show ?case unfolding pop_record(1) by (intro disjI1) (simp; arith)
next
  case (take_count s i a ph p d count p1)
  then show ?case
    using system_invD(7) [OF take_count(5)]
    by (auto simp: after_drain_one_def pass_ends_def consumer_ok_def drains_def split: if_splits)
next
  case (clear_slot s i)
  then show ?case
    using system_invD(7) [OF clear_slot(2)] by (simp add: consumer_ok_def)
qed (simp_all add: Suc_diff_le)

lemma client_keeps_logger: "client_step s s' \<Longrightarrow> y_logger s' = y_logger s"
  by (induction rule: client_step.induct) (auto simp: pushed_at_def Let_def split: prod.splits)

lemma pass_work_bounded: "pass_work pc \<le> 33 * 4102 + 4101"
  by (cases pc) (auto simp: k_MAX_THREADS_def)

section \<open>Properties\<close>

text \<open>
  What the next steps of any thread may dereference: the producers of handles, the one a thread is
  registering, the one the logger thread is at, and the shared one.
\<close>

fun client_uses :: "client_pc \<Rightarrow> addr option" where
  "client_uses (Registering a i) = Some a"
| "client_uses pc = None"

fun logger_uses :: "logger_pc \<Rightarrow> addr option" where
  "logger_uses (Reading_phase i a) = Some a"
| "logger_uses (Popping i a ph n) = Some a"
| "logger_uses (Taking_dropped i a ph) = Some a"
| "logger_uses (Freeing i a) = Some a"
| "logger_uses pc = None"

lemma uses_heap:
  assumes "system_inv place s"
    and "y_handles s a \<noteq> None \<or> client_uses (y_clients s t) = Some a \<or> logger_uses (y_logger s) = Some a \<or>
      a = y_shared s"
  shows "y_heap s a \<noteq> None"
proof -
  note inv = system_invD [OF assms(1)]
  consider "y_handles s a \<noteq> None" | i where "y_clients s t = Registering a i"
    | i where "drains s i a" "y_logger s \<noteq> Clearing i" | "a = y_shared s"
    using assms(2) inv(7)
    by (cases "y_clients s t"; cases "y_logger s") (auto simp: consumer_ok_def)
  then show ?thesis
  proof cases
    case 1
    then show ?thesis using inv(4) [of a] by (auto simp: addr_ok_def split: option.splits)
  next
    case 2
    then show ?thesis using inv(6) [of t] inv(4) [of a] by (auto simp: client_ok_def addr_ok_def split: option.splits)
  next
    case 3
    then show ?thesis using drains_heap [OF assms(1)] by blast
  next
    case 4
    then show ?thesis using inv(3) by simp
  qed
qed

text \<open>A run: thread 7 registers as \<open>render\<close>, logs a record and destroys its handle.\<close>

definition example_registering :: system where
  "example_registering = system_init\<lparr>y_heap := (y_heap system_init)(1 \<mapsto> Producer ''render''),
     y_journal := (y_journal system_init)(1 := new_journal),
     y_clients := (y_clients system_init)(7 := Registering 1 0)\<rparr>"

definition example_registered :: system where
  "example_registered = example_registering\<lparr>y_slots := (y_slots example_registering)[0 := Some 1],
     y_handles := (y_handles example_registering)(1 \<mapsto> 7),
     y_clients := (y_clients example_registering)(7 := Outside),
     y_used := insert 0 (y_used example_registering)\<rparr>"

definition example_logged :: system where
  "example_logged = pushed_at 1 (Producer ''render'') 0 (record_make_error Severity_e_WARN 5 (Error 1))
     example_registered"

lemma example_steps:
  "client_step system_init example_registering"
  "client_step example_registering example_registered"
  "client_step example_registered example_logged"
proof -
  show "client_step system_init example_registering"
    unfolding example_registering_def
    by (rule make_producer) (simp_all add: system_init_def)
  show "client_step example_registering example_registered"
    unfolding example_registered_def
    by (rule exchange_succeeds) (simp_all add: example_registering_def system_init_def k_MAX_THREADS_def)
  show "client_step example_registered example_logged"
    unfolding example_logged_def
    by (rule handle_push [where t = 7])
      (simp_all add: example_registered_def example_registering_def system_init_def k_MAX_THREADS_def
        tail_visible_def Producer_def SpscRing_def Let_def)
qed

lemma example_logged_reachable: "system_reachable example_logged"
  using example_steps by (meson system_reachable.intros)

lemma example_logged_parts:
  "y_handles example_logged 1 = Some 7" "y_slots example_logged ! 0 = Some 1"
  "y_heap example_logged 1 = Some (snd (push_seeing 0 (record_make_error Severity_e_WARN 5 (Error 1)) (Producer ''render'')))"
  "y_logger example_logged = At_slot 0" "y_ended example_logged = []"
  by (simp_all add: example_logged_def pushed_at_def example_registered_def example_registering_def
      system_init_def k_MAX_THREADS_def Let_def split: prod.splits)

text \<open>
  C6. No producer is used after it was freed, or leaked, in any interleaving of the clients with the
  logger thread: whatever the next step of a thread may dereference is in the heap, and whatever is in the
  heap is the shared producer, the fresh one of a thread that is registering, or in a slot, where a pass
  will find it.
\<close>

theorem no_use_after_free:
  assumes "system_reachable s"
  shows "((y_handles s a \<noteq> None \<or> client_uses (y_clients s t) = Some a \<or> logger_uses (y_logger s) = Some a \<or>
           a = y_shared s) \<longrightarrow> y_heap s a \<noteq> None) \<and>
         (y_heap s a \<noteq> None \<longrightarrow>
           a = y_shared s \<or> (\<exists>u. client_uses (y_clients s u) = Some a) \<or> Some a \<in> set (y_slots s))"
proof -
  obtain place where inv: "system_inv place s" using reachable_inv [OF assms] by blast
  have "a = y_shared s \<or> (\<exists>u. client_uses (y_clients s u) = Some a) \<or> Some a \<in> set (y_slots s)"
    if "y_heap s a \<noteq> None"
  proof -
    from that obtain pl p where "in_place s a p pl"
      using system_invD(4) [OF inv, of a] by (auto simp: addr_ok_def split: option.splits)
    then show ?thesis
      using system_invD(1) [OF inv]
      by (cases pl) (auto simp: in_place_def in_set_conv_nth, metis client_uses.simps(1))
  qed
  then show ?thesis using uses_heap [OF inv] by blast
qed

theorem no_use_after_free_witness:
  "y_heap example_logged 1 \<noteq> None \<and> Some 1 \<in> set (y_slots example_logged)"
  using no_use_after_free [OF example_logged_reachable, of 1 7] example_logged_parts
  by (auto simp: example_logged_def pushed_at_def example_registered_def example_registering_def
      system_init_def Let_def split: prod.splits if_splits)

text \<open>
  C5. No record that a ring accepted is lost or reordered, while threads come, log and go and the logger
  thread drains: at any moment the records accepted from a producer are those written, in that order,
  then those still in its ring; and when a producer is freed, every record it accepted has been written
  and every record it lost has been reported.
\<close>

theorem every_record_written:
  assumes "system_reachable s"
  shows "(case y_heap s a of None \<Rightarrow> True | Some p \<Rightarrow>
           accepted_records (y_journal s a) = written_records (y_journal s a) @ producer_contents p \<and>
           told (y_journal s a) \<le> lost (y_journal s a)) \<and>
         list_all (\<lambda>j. accepted_records j = written_records j \<and> told j \<le> lost j \<and>
           told j mod 2 ^ 64 = lost j mod 2 ^ 64) (y_ended s)"
proof -
  obtain place where inv: "system_inv place s" using reachable_inv [OF assms] by blast
  have "list_all (\<lambda>j. accepted_records j = written_records j \<and> told j \<le> lost j \<and>
      told j mod 2 ^ 64 = lost j mod 2 ^ 64) (y_ended s)"
    using system_invD(8) [OF inv]
    by (auto simp: list_all_iff journal_complete_def unat_of_nat dest!: arg_cong [where f = unat] bspec)
  then show ?thesis
    using drained_producer(2) [OF inv, of a] by (auto simp: journal_ok_def split: option.splits)
qed

theorem every_record_written_witness:
  "accepted_records (y_journal example_logged 1) = producer_contents (the (y_heap example_logged 1))"
proof -
  have "written_records (y_journal example_logged 1) = []"
    by (simp add: example_logged_def pushed_at_def example_registered_def example_registering_def
        system_init_def new_journal_def Let_def split: prod.splits)
  then show ?thesis
    using every_record_written [OF example_logged_reachable, of 1] example_logged_parts(3) by simp
qed

text \<open>
  C16. The logger thread is never stuck and no client can hold it up: from any state it can take a step,
  each of its steps brings it closer to the end of the pass, at most 139467 steps away, unless it ends
  the pass, and no step of a client moves it back.
\<close>

theorem drain_pass_ends:
  assumes "system_reachable s"
  shows "(\<exists>s'. logger_step s s') \<and> pass_work (y_logger s) \<le> 139467 \<and>
         (\<forall>s'. (logger_step s s' \<longrightarrow>
                 pass_work (y_logger s') < pass_work (y_logger s) \<or> pass_ends (y_logger s) (y_logger s')) \<and>
               (client_step s s' \<longrightarrow> pass_work (y_logger s') = pass_work (y_logger s)))"
proof -
  obtain place where inv: "system_inv place s" using reachable_inv [OF assms] by blast
  show ?thesis
    using logger_enabled [OF inv] pass_work_decreases [OF _ inv] client_keeps_logger [of s]
      pass_work_bounded [of "y_logger s"] by auto
qed

theorem drain_pass_ends_witness:
  "\<exists>s'. logger_step example_logged s' \<and> pass_work (y_logger s') < 139467"
  using drain_pass_ends [OF example_logged_reachable] example_logged_parts(4)
  by (force simp: pass_ends_def)

end
