(* ===== verification/Core_Log_File.thy ===== *)
theory Core_Log_File
  imports Core_Log_Concurrent Core_Log_Session Transition_System
begin

text \<open>
  From the interleaved threads to the file. \<open>Core_Log_Concurrent\<close> says what the threads do to what they
  share; here the logger thread's private state, its batch and the descriptor of \<open>Core_Log\<close>, runs beside
  it: each pop is followed by \<open>write_record\<close>, each count of lost records by \<open>write_loss\<close>, and the last
  step of a pass by \<open>flush\<close>, as in \<^verbatim>\<open>drain_one\<close> and \<^verbatim>\<open>consume\<close>. Those calls touch nothing another thread
  can see, so they belong to the step that leads to them.

  A run is related to an abstract log, which has no ring, no thread and no batch: it is the list of what
  happened, replayed on the names, the records written and the text.
\<close>

section \<open>The abstract log\<close>

datatype log_event =
    Made addr string
  | Wrote addr log_record
  | Told addr u64 u64
  | Freed addr

text \<open>
  What the log knows of the producer at an address: its name, the records written and the number of
  losses reported since it was made; of those freed, in order, the records and the losses; and the text.
\<close>

record abstract_log =
  r_name :: "addr \<Rightarrow> string"
  r_written :: "addr \<Rightarrow> log_record list"
  r_told :: "addr \<Rightarrow> nat"
  r_freed :: "(log_record list \<times> nat) list"
  r_text :: string

definition new_log :: abstract_log where
  "new_log = \<lparr>r_name = (\<lambda>a. k_SHARED_NAME), r_written = (\<lambda>a. []), r_told = (\<lambda>a. 0), r_freed = [], r_text = []\<rparr>"

fun replay :: "tick_conversion \<Rightarrow> log_event \<Rightarrow> abstract_log \<Rightarrow> abstract_log" where
  "replay clock (Made a name) R =
     R\<lparr>r_name := (r_name R)(a := name), r_written := (r_written R)(a := []), r_told := (r_told R)(a := 0)\<rparr>"
| "replay clock (Wrote a r) R =
     R\<lparr>r_written := (r_written R)(a := r_written R a @ [r]),
       r_text := r_text R @ record_line clock (r_name R a) r\<rparr>"
| "replay clock (Told a count now) R =
     R\<lparr>r_told := (r_told R)(a := r_told R a + unat count),
       r_text := r_text R @ loss_line clock now (r_name R a) count\<rparr>"
| "replay clock (Freed a) R = R\<lparr>r_freed := r_freed R @ [(r_written R a, r_told R a)]\<rparr>"

abbreviation replays :: "tick_conversion \<Rightarrow> log_event list \<Rightarrow> abstract_log" where
  "replays clock tr \<equiv> fold (replay clock) tr new_log"

section \<open>Steps\<close>

text \<open>What the logger thread writes when it has taken the count of the producer \<open>p\<close> of slot \<open>i\<close>.\<close>

definition report_losses :: "logger \<Rightarrow> producer \<Rightarrow> u64 \<Rightarrow> logger option" where
  "report_losses l p count = (if count \<noteq> 0 then write_loss l (producer_name p) count else Some l)"

definition flush_after :: "nat \<Rightarrow> logger \<Rightarrow> logger option" where
  "flush_after i l = (if i = k_MAX_THREADS then flush l else Some l)"

definition told_events :: "logger \<Rightarrow> addr \<Rightarrow> u64 \<Rightarrow> log_event list" where
  "told_events l a count = (if count \<noteq> 0 then [Told a count (os_clock l (os_reads l))] else [])"

fun silent :: "logger_pc \<Rightarrow> logger_pc \<Rightarrow> bool" where
  "silent (At_slot i) pc = True"
| "silent (Reading_phase i a) pc = True"
| "silent (Popping i a ph n) pc = (pc = Taking_dropped i a ph)"
| "silent (Clearing i) pc = True"
| "silent pc pc' = False"

inductive file_step :: "system \<times> logger \<Rightarrow> log_event list \<Rightarrow> system \<times> logger \<Rightarrow> bool" where
  client_makes:
    "client_step s s' \<Longrightarrow> y_heap s a = None \<Longrightarrow> y_heap s' a = Some p \<Longrightarrow>
     file_step (s, l) [Made a (producer_name p)] (s', l)"
| client_other:
    "client_step s s' \<Longrightarrow> \<forall>a. y_heap s a = None \<longrightarrow> y_heap s' a = None \<Longrightarrow> file_step (s, l) [] (s', l)"
| writes:
    "logger_step s s' \<Longrightarrow> y_logger s = Popping i a ph n \<Longrightarrow> y_logger s' = Popping i a ph (n + 1) \<Longrightarrow>
     y_heap s a = Some p \<Longrightarrow>
     written_records (y_journal s' a) = written_records (y_journal s a) @ [r] \<Longrightarrow>
     write_record l r (producer_name p) = Some l' \<Longrightarrow> file_step (s, l) [Wrote a r] (s', l')"
| tells:
    "logger_step s s' \<Longrightarrow> y_logger s = Taking_dropped i a ph \<Longrightarrow> y_heap s a = Some p \<Longrightarrow>
     told (y_journal s' a) = told (y_journal s a) + unat count \<Longrightarrow>
     report_losses l p count = Some l1 \<Longrightarrow> flush_after i l1 = Some l2 \<Longrightarrow>
     file_step (s, l) (told_events l a count) (s', l2)"
| frees:
    "logger_step s s' \<Longrightarrow> y_logger s = Freeing i a \<Longrightarrow> file_step (s, l) [Freed a] (s', l)"
| passes:
    "logger_step s s' \<Longrightarrow> silent (y_logger s) (y_logger s') \<Longrightarrow> file_step (s, l) [] (s', l)"

inductive_cases file_stepE: "file_step (s, l) es (s', l')"

text \<open>A run from the constructor's state, with what happened in it.\<close>

definition file_run :: "os \<Rightarrow> tick_conversion \<Rightarrow> log_event list \<Rightarrow> system \<Rightarrow> logger \<Rightarrow> bool" where
  "file_run env clock tr s l \<longleftrightarrow> runs file_step (system_init, Logger env clock) tr (s, l)"

lemma file_run_start: "file_run env clock [] system_init (Logger env clock)"
  by (simp add: file_run_def runs_start)

lemma file_run_step:
  "file_run env clock tr s l \<Longrightarrow> file_step (s, l) es (s', l') \<Longrightarrow> file_run env clock (tr @ es) s' l'"
  unfolding file_run_def by (rule runs_step)

lemma file_step_threads: "file_step (s, l) es (s', l') \<Longrightarrow> client_step s s' \<or> logger_step s s'"
  by (elim file_stepE) blast+

section \<open>What a step leaves alone\<close>

lemma producer_names [simp]:
  "producer_name (producer_close p) = producer_name p"
  "producer_name (p\<lparr>d_reported := d\<rparr>) = producer_name p"
  "push_seeing tail r p = (b, p') \<Longrightarrow> producer_name p' = producer_name p"
  "pop_seeing head p = (x, p') \<Longrightarrow> producer_name p' = producer_name p"
  by (auto simp: producer_name_def producer_close_def push_seeing_linear pop_seeing_linear Let_def
      split: prod.splits if_splits)

text \<open>\<open>s'\<close> has the producers of \<open>s\<close>, or fewer, with the names and the journals they had.\<close>

definition same_producers :: "system \<Rightarrow> system \<Rightarrow> bool" where
  "same_producers s s' \<longleftrightarrow>
     (\<forall>a p'. y_heap s' a = Some p' \<longrightarrow> (\<exists>p. y_heap s a = Some p \<and> producer_name p' = producer_name p)) \<and>
     (\<forall>a. written_records (y_journal s' a) = written_records (y_journal s a) \<and>
          told (y_journal s' a) = told (y_journal s a))"

lemma client_step_frame: "client_step s s' \<Longrightarrow> y_ended s' = y_ended s \<and> y_logger s' = y_logger s"
  by (induction rule: client_step.induct) (auto simp: pushed_at_def Let_def split: prod.splits)

lemma client_step_makes:
  assumes "client_step s s'" and "y_heap s a = None" and "y_heap s' a = Some p"
  shows "y_heap s' = (y_heap s)(a \<mapsto> p) \<and> y_journal s' = (y_journal s)(a := new_journal)"
  using assms
  by (induction rule: client_step.induct) (auto simp: pushed_at_def Let_def split: prod.splits if_splits)

lemma client_step_other:
  assumes "client_step s s'" and "\<forall>a. y_heap s a = None \<longrightarrow> y_heap s' a = None"
  shows "same_producers s s'"
  using assms
  by (induction rule: client_step.induct)
    (auto simp: same_producers_def pushed_at_def Let_def split: prod.splits if_splits)

lemma silent_step:
  assumes "logger_step s s'" and "silent (y_logger s) (y_logger s')"
  shows "same_producers s s' \<and> y_ended s' = y_ended s \<and> y_logger s' \<noteq> At_slot 0"
  using assms
  by (induction rule: logger_step.induct) (auto simp: same_producers_def split: if_splits)

lemma writing_step:
  assumes "logger_step s s'" and "y_logger s = Popping i a ph n" and "y_logger s' = Popping i a ph (n + 1)"
    and "y_heap s a = Some p"
  shows "\<exists>p1 r. y_heap s' = (y_heap s)(a \<mapsto> p1) \<and> producer_name p1 = producer_name p \<and>
    y_journal s' = (y_journal s)(a := (y_journal s a)
      \<lparr>written_records := written_records (y_journal s a) @ [r]\<rparr>) \<and> y_ended s' = y_ended s"
  using assms by (induction rule: logger_step.induct) auto

lemma telling_step:
  assumes "logger_step s s'" and "y_logger s = Taking_dropped i a ph" and "y_heap s a = Some p"
  shows "\<exists>p1 (count :: u64). y_heap s' = (y_heap s)(a \<mapsto> p1) \<and> producer_name p1 = producer_name p \<and>
    y_journal s' = (y_journal s)(a := (y_journal s a)\<lparr>told := told (y_journal s a) + unat count\<rparr>) \<and>
    y_ended s' = y_ended s \<and> y_logger s' = after_drain_one i a ph"
  using assms
proof (induction rule: logger_step.induct)
  case (take_count s i' a' ph' p' d count p1)
  then show ?case
    by (intro exI [of _ p1] exI [of _ count]) (auto simp: take_dropped_seeing_eq)
qed auto

lemma freeing_step:
  assumes "logger_step s s'" and "y_logger s = Freeing i a"
  shows "y_heap s' = (y_heap s)(a := None) \<and> y_journal s' = y_journal s \<and>
    y_ended s' = y_ended s @ [y_journal s a] \<and> y_logger s' = Clearing i"
  using assms by (induction rule: logger_step.induct) auto

section \<open>The run and the abstract log\<close>

definition matches :: "string \<Rightarrow> abstract_log \<Rightarrow> system \<Rightarrow> logger \<Rightarrow> bool" where
  "matches out R s l \<longleftrightarrow>
     batch_ok l \<and> os_accepts l \<and> emitted l = out @ r_text R \<and>
     r_written R = (\<lambda>a. written_records (y_journal s a)) \<and> r_told R = (\<lambda>a. told (y_journal s a)) \<and>
     r_freed R = map (\<lambda>j. (written_records j, told j)) (y_ended s) \<and>
     (\<forall>a p. y_heap s a = Some p \<longrightarrow> producer_name p = r_name R a) \<and>
     (y_logger s = At_slot 0 \<longrightarrow> pending l = [])"

lemma matches_init:
  assumes "os_accepts (Logger env clock)"
  shows "matches (os_output env) new_log system_init (Logger env clock)"
  using Logger_ok [of env clock] assms
  by (auto simp: matches_def logger_ok_def new_log_def system_init_def new_journal_def
      producer_name_Producer k_SHARED_NAME_def k_MAX_NAME_SIZE_def)
    (simp_all add: Logger_def emitted_def pending_def memcpy_out_def)

lemma same_producers_matches:
  assumes "matches out R s l" and "same_producers s s'" and "y_ended s' = y_ended s"
    and "y_logger s' = At_slot 0 \<Longrightarrow> y_logger s = At_slot 0"
  shows "matches out R s' l"
  using assms by (fastforce simp: matches_def same_producers_def)

lemma client_makes_matches:
  assumes "matches out R s l" and "client_step s s'" and "y_heap s a = None" and "y_heap s' a = Some p"
  shows "matches out (replay clock (Made a (producer_name p)) R) s' l"
  using assms(1) client_step_makes [OF assms(2-4)] client_step_frame [OF assms(2)]
  by (auto simp: matches_def new_journal_def fun_eq_iff)

text \<open>What is emitted is added to the text of the log.\<close>

lemma matches_emits:
  assumes "matches out R s l" and "emits l l' t n"
  shows "batch_ok l'" and "os_accepts l'" and "emitted l' = out @ r_text R @ t" and "l_clock l' = l_clock l"
  using assms emits_accepts [OF assms(2)] by (auto simp: matches_def emits_def same_rest_def)

lemma writes_matches:
  assumes m: "matches out R s l" and st: "logger_step s s'" "y_logger s = Popping i a ph n"
    "y_logger s' = Popping i a ph (n + 1)"
    and p: "y_heap s a = Some p"
    and r: "written_records (y_journal s' a) = written_records (y_journal s a) @ [r]"
    and w: "write_record l r (producer_name p) = Some l'"
  shows "matches out (replay (l_clock l) (Wrote a r) R) s' l' \<and> l_clock l' = l_clock l"
proof -
  obtain p1 r1 where s': "y_heap s' = (y_heap s)(a \<mapsto> p1)" "producer_name p1 = producer_name p"
      "y_journal s' = (y_journal s)(a := (y_journal s a)
         \<lparr>written_records := written_records (y_journal s a) @ [r1]\<rparr>)" "y_ended s' = y_ended s"
    using writing_step [OF st p] by blast
  have r1: "r1 = r" using r s'(3) by simp
  have name: "producer_name p = r_name R a" using m p by (simp add: matches_def)
  have "emits l l' (record_line (l_clock l) (producer_name p) r) 0"
    using write_record_emits [of l r "producer_name p"] m w by (auto simp: matches_def)
  from matches_emits [OF m this] show ?thesis
    using m s' st(3) name by (auto simp: matches_def r1 fun_eq_iff)
qed

lemma report_losses_emits:
  assumes "matches out R s l" and "producer_ok p" and "report_losses l p count = Some l'"
  shows "emits l l' (if count = 0 then [] else
    loss_line (l_clock l) (os_clock l (os_reads l)) (producer_name p) count) (if count = 0 then 0 else 1)"
  using assms write_loss_emits [of l "producer_name p" count] length_producer_name [OF assms(2)]
    emits_refl [of l]
  by (auto simp: report_losses_def matches_def split: if_splits)

lemma flush_after_emits:
  assumes "batch_ok l" and "os_accepts l" and "flush_after i l = Some l'"
  shows "emits l l' [] 0" and "i = k_MAX_THREADS \<Longrightarrow> pending l' = []"
  using assms flush_emits [OF assms(2,1)] emits_refl [of l]
  by (auto simp: flush_after_def pending_def memcpy_out_def split: if_splits)

lemma tells_matches:
  assumes m: "matches out R s l" and ok: "producer_ok p" "drains s i a"
    and st: "logger_step s s'" "y_logger s = Taking_dropped i a ph"
    and p: "y_heap s a = Some p"
    and c: "told (y_journal s' a) = told (y_journal s a) + unat count"
    and w: "report_losses l p count = Some l1" "flush_after i l1 = Some l2"
  shows "matches out (fold (replay (l_clock l)) (told_events l a count) R) s' l2 \<and> l_clock l2 = l_clock l"
proof -
  obtain p1 and c1 :: u64 where s': "y_heap s' = (y_heap s)(a \<mapsto> p1)" "producer_name p1 = producer_name p"
      "y_journal s' = (y_journal s)(a := (y_journal s a)\<lparr>told := told (y_journal s a) + unat c1\<rparr>)"
      "y_ended s' = y_ended s" "y_logger s' = after_drain_one i a ph"
    using telling_step [OF st p] by blast
  have c1: "c1 = count" using c s'(3) by (simp add: word_unat_eq_iff)
  have name: "producer_name p = r_name R a" using m p by (simp add: matches_def)
  note e1 = report_losses_emits [OF m ok(1) w(1)]
  note f = flush_after_emits [OF matches_emits(1,2) [OF m e1] w(2)]
  note e2 = matches_emits [OF m emits_trans [OF e1 f(1)]]
  have "y_logger s' = At_slot 0 \<Longrightarrow> i = k_MAX_THREADS"
    using s'(5) ok(2) by (auto simp: after_drain_one_def split: if_splits)
  then show ?thesis
    using m e2 s' f(2) name by (auto simp: matches_def told_events_def c1 fun_eq_iff)
qed

lemma frees_matches:
  assumes "matches out R s l" and "logger_step s s'" and "y_logger s = Freeing i a"
  shows "matches out (replay clock (Freed a) R) s' l"
  using assms(1) freeing_step [OF assms(2,3)] by (auto simp: matches_def)

lemma file_step_matches:
  assumes "file_step (s, l) es (s', l')" and "system_reachable s" and "matches out R s l"
  shows "matches out (fold (replay (l_clock l)) es R) s' l' \<and> l_clock l' = l_clock l"
  using assms
proof (induction "(s, l)" es "(s', l')" rule: file_step.induct)
  case (client_makes a p)
  then show ?case using client_makes_matches by simp
next
  case client_other
  then show ?case
    using same_producers_matches client_step_other client_step_frame by (metis fold_simps(1))
next
  case (writes i a ph n p r)
  then show ?case using writes_matches by simp
next
  case (tells i a ph p count l1)
  obtain place where inv: "system_inv place s" using reachable_inv [OF tells(7)] by blast
  then have "producer_ok p" "drains s i a"
    using drained_producer(1) [OF inv tells(3)] system_invD(7) [OF inv] tells(2)
    by (simp_all add: consumer_ok_def)
  then show ?case using tells_matches tells by blast
next
  case (frees i a)
  then show ?case using frees_matches by simp
next
  case passes
  then show ?case
    using same_producers_matches [of out R s l s'] silent_step [of s s'] by simp
qed

definition log_step :: "tick_conversion \<Rightarrow> abstract_log \<Rightarrow> log_event list \<Rightarrow> abstract_log \<Rightarrow> bool" where
  "log_step clock R es R' \<longleftrightarrow> R' = fold (replay clock) es R"

lemma runs_log_step: "runs (log_step clock) new_log tr R \<Longrightarrow> R = replays clock tr"
  by (induction rule: runs.induct) (simp_all add: log_step_def)

interpretation file_simulation: simulation file_step "(system_init, Logger env clock)"
    "\<lambda>u. system_reachable (fst u)" "log_step clock" new_log
    "\<lambda>u R. os_accepts (Logger env clock) \<longrightarrow>
       matches (os_output env) R (fst u) (snd u) \<and> l_clock (snd u) = clock"
  for env clock
proof
  show "system_reachable (fst t)" if "system_reachable (fst u)" "file_step u es t" for u es t
    using that by (cases u; cases t) (auto dest: file_step_threads intro: system_reachable.intros)
  show "\<exists>R'. runs (log_step clock) R es R' \<and> (os_accepts (Logger env clock) \<longrightarrow>
      matches (os_output env) R' (fst t) (snd t) \<and> l_clock (snd t) = clock)"
    if "system_reachable (fst u)" "os_accepts (Logger env clock) \<longrightarrow>
        matches (os_output env) R (fst u) (snd u) \<and> l_clock (snd u) = clock" "file_step u es t" for u R es t
    using that file_step_matches [of "fst u" "snd u" es "fst t" "snd t" "os_output env" R]
    by (intro exI [of _ "fold (replay clock) es R"] conjI runs_single) (auto simp: log_step_def)
qed (use matches_init in \<open>auto simp: Logger_def intro: system_reachable.start\<close>)

lemma file_run_reachable: "file_run env clock tr s l \<Longrightarrow> system_reachable s"
  using file_simulation.always [of env clock tr "(s, l)"] by (simp add: file_run_def)

lemma file_run_matches:
  assumes "file_run env clock tr s l" and "os_accepts (Logger env clock)"
  shows "matches (os_output env) (replays clock tr) s l"
  using file_simulation.simulates [OF assms(1) [unfolded file_run_def]] runs_log_step assms(2) by auto

section \<open>Every interleaving has its file\<close>

text \<open>The private calls return, so they hold no step up.\<close>

lemma report_losses_returns:
  assumes "matches out R s l" and "producer_ok p"
  shows "\<exists>l'. report_losses l p count = Some l' \<and> batch_ok l' \<and> os_accepts l'"
  using assms write_loss_emits [of l "producer_name p" count] length_producer_name [OF assms(2)]
    emits_accepts emits_batch_ok
  by (fastforce simp: report_losses_def matches_def)

lemma flush_after_returns: "batch_ok l \<Longrightarrow> os_accepts l \<Longrightarrow> \<exists>l'. flush_after i l = Some l'"
  using flush_emits [of l] by (auto simp: flush_after_def)

lemma logger_step_pc:
  "logger_step s s' \<Longrightarrow> y_logger s = Popping i a ph n \<Longrightarrow>
   y_logger s' = Popping i a ph (n + 1) \<or> y_logger s' = Taking_dropped i a ph"
  by (induction rule: logger_step.induct) auto

lemma client_step_has_file:
  assumes "client_step s s'"
  shows "\<exists>es l'. file_step (s, l) es (s', l')"
proof (cases "\<forall>a. y_heap s a = None \<longrightarrow> y_heap s' a = None")
  case True
  then show ?thesis using client_other [OF assms] by blast
next
  case False
  then obtain a p where "y_heap s a = None" "y_heap s' a = Some p" by auto
  then show ?thesis using client_makes [OF assms] by blast
qed

lemma logger_step_has_file:
  assumes st: "logger_step s s'" and m: "matches out R s l" and inv: "system_inv place s"
  shows "\<exists>es l'. file_step (s, l) es (s', l')"
proof (cases "y_logger s")
  case (Popping i a ph n)
  then obtain p where p: "y_heap s a = Some p"
    using drains_heap [OF inv, of i a] system_invD(7) [OF inv] by (auto simp: consumer_ok_def)
  show ?thesis
  proof (cases "y_logger s' = Popping i a ph (n + 1)")
    case True
    then obtain r where r: "written_records (y_journal s' a) = written_records (y_journal s a) @ [r]"
      using writing_step [OF st Popping True p] by auto
    obtain l' where "write_record l r (producer_name p) = Some l'"
      using write_record_emits [of l r "producer_name p"] m by (auto simp: matches_def)
    then show ?thesis using writes [OF st Popping True p r] by blast
  next
    case False
    then show ?thesis using logger_step_pc [OF st Popping] passes [OF st] Popping by auto
  qed
next
  case (Taking_dropped i a ph)
  then obtain p where p: "y_heap s a = Some p"
    using drains_heap [OF inv, of i a] system_invD(7) [OF inv] by (auto simp: consumer_ok_def)
  obtain count :: u64 where c: "told (y_journal s' a) = told (y_journal s a) + unat count"
    using telling_step [OF st Taking_dropped p] by auto
  obtain l1 where l1: "report_losses l p count = Some l1" "batch_ok l1" "os_accepts l1"
    using report_losses_returns [OF m drained_producer(1) [OF inv p]] by blast
  then obtain l2 where "flush_after i l1 = Some l2" using flush_after_returns by blast
  then show ?thesis using tells [OF st Taking_dropped p c l1(1)] by blast
next
  case (Freeing i a)
  then show ?thesis using frees [OF st] by blast
qed (use passes [OF st] in auto)

text \<open>
  So the runs cover the threads' interleavings: a statement about every run is one about every reachable
  state, as long as no write fails.
\<close>

lemma reachable_has_file:
  assumes "system_reachable s" and "os_accepts (Logger env clock)"
  shows "\<exists>tr l. file_run env clock tr s l"
  using assms
proof (induction rule: system_reachable.induct)
  case start
  then show ?case using file_run_start by blast
next
  case (client s s')
  then show ?case using client_step_has_file file_run_step by meson
next
  case (logger s s')
  then obtain tr l where run: "file_run env clock tr s l" by blast
  obtain place where "system_inv place s" using reachable_inv [OF logger(1)] by blast
  then show ?case
    using logger_step_has_file [OF logger(2)] file_run_matches [OF run logger(4)] file_run_step [OF run] by blast
qed

section \<open>Shutdown\<close>

text \<open>
  What the destructor finds once it has joined the logger thread: the producers and slots the threads
  left, and the batch and descriptor. The address counter only has to be past those in use.
\<close>

definition joined :: "system \<Rightarrow> logger \<Rightarrow> logger" where
  "joined s l = l\<lparr>l_heap := y_heap s, l_slots := y_slots s, l_shared := the (y_heap s (y_shared s)),
     l_next := Suc (sum_list (map (\<lambda>x. case x of None \<Rightarrow> 0 | Some a \<Rightarrow> a) (y_slots s)))\<rparr>"

lemma slot_le_sum: "Some (a :: addr) \<in> set xs \<Longrightarrow> a \<le> sum_list (map (\<lambda>x. case x of None \<Rightarrow> 0 | Some a \<Rightarrow> a) xs)"
  by (induction xs) auto

lemma joined_next: "Some a \<in> set (y_slots s) \<Longrightarrow> a < l_next (joined s l)"
  using slot_le_sum [of a "y_slots s"] by (simp add: joined_def)

lemma slot_place:
  assumes "system_inv place s" and "\<forall>i. y_logger s \<noteq> Clearing i" and "i < k_MAX_THREADS"
    and "y_slots s ! i = Some a"
  shows "place a = Some (In_slot i)" and "\<exists>p. y_heap s a = Some p \<and> producer_ok p \<and>
    (y_handles s a = None \<longleftrightarrow> d_phase p = Phase_e_CLOSED)"
proof -
  show pl: "place a = Some (In_slot i)"
    using system_invD(5) [OF assms(1,3)] assms(2,4) by (simp add: slot_ok_def)
  show "\<exists>p. y_heap s a = Some p \<and> producer_ok p \<and> (y_handles s a = None \<longleftrightarrow> d_phase p = Phase_e_CLOSED)"
    using system_invD(4) [OF assms(1), of a] pl by (auto simp: addr_ok_def in_place_def split: option.splits)
qed

lemma joined_ok:
  assumes "system_inv place s" and "\<forall>i. y_logger s \<noteq> Clearing i" and "batch_ok l"
  shows "logger_ok (joined s l)"
proof -
  have len: "length (y_slots s) = k_MAX_THREADS" using system_invD(1) [OF assms(1)] .
  have "producer_ok (l_shared (joined s l))"
    using system_invD(3) [OF assms(1)] drained_producer(1) [OF assms(1), of "y_shared s"]
    by (auto simp: joined_def)
  moreover have "a < l_next (joined s l) \<and> (\<exists>p. y_heap s a = Some p \<and> producer_ok p)"
    if "i < k_MAX_THREADS" "y_slots s ! i = Some a" for i a
  proof -
    have "Some a \<in> set (y_slots s)" using nth_mem [of i "y_slots s"] that len by simp
    then show ?thesis using joined_next slot_place(2) [OF assms(1,2) that] by blast
  qed
  moreover have "i = j" if "i < k_MAX_THREADS" "j < k_MAX_THREADS" "y_slots s ! i = Some a" "y_slots s ! j = Some a"
    for i j a
    using slot_place(1) [OF assms(1,2) that(1,3)] slot_place(1) [OF assms(1,2) that(2,4)] by simp
  ultimately have "slots_ok (joined s l)"
    using len unfolding slots_ok_def by (simp add: joined_def)
  then show ?thesis using assms(3) by (simp add: logger_ok_def batch_ok_def joined_def)
qed

lemma joined_closed:
  assumes "system_inv place s" and "\<forall>i. y_logger s \<noteq> Clearing i" and "\<forall>a. y_handles s a = None"
  shows "list_all (\<lambda>p. d_phase p = Phase_e_CLOSED) (producers_at (joined s l) [0..<k_MAX_THREADS])"
proof -
  have "d_phase p = Phase_e_CLOSED" if i: "i < k_MAX_THREADS" and p: "slot_producer (joined s l) i = Some p" for i p
  proof -
    obtain a where "y_slots s ! i = Some a" "y_heap s a = Some p"
      using p by (auto simp: slot_producer_def joined_def split: option.splits)
    then show ?thesis using slot_place(2) [OF assms(1,2) i] assms(3) by fastforce
  qed
  then show ?thesis by (auto simp: list_all_iff producers_at_def)
qed

section \<open>Properties\<close>

text \<open>
  C1. Whatever the threads do and however they interleave, the file and the batch hold the log of what
  happened, in order and nothing else: a line for each record as it was written, and one for each report
  of losses; they are all in the file whenever a pass is over. For each producer alive, the records
  written and those in its ring are the ones it accepted; and of each one freed every accepted record
  was written.
\<close>

theorem file_holds_the_log:
  assumes "file_run env clock tr s l" and "os_accepts (Logger env clock)"
  shows "emitted l = os_output env @ r_text (replays clock tr) \<and>
    (y_logger s = At_slot 0 \<longrightarrow> os_output l = emitted l) \<and>
    (\<forall>a p. y_heap s a = Some p \<longrightarrow>
       producer_name p = r_name (replays clock tr) a \<and>
       accepted_records (y_journal s a) = r_written (replays clock tr) a @ producer_contents p) \<and>
    map fst (r_freed (replays clock tr)) = map accepted_records (y_ended s)"
proof -
  obtain place where inv: "system_inv place s"
    using reachable_inv [OF file_run_reachable [OF assms(1)]] by blast
  have m: "matches (os_output env) (replays clock tr) s l" using file_run_matches [OF assms] .
  have "map fst (r_freed (replays clock tr)) = map accepted_records (y_ended s)"
    using m system_invD(8) [OF inv]
    by (auto simp: matches_def list_all_iff journal_complete_def)
  then show ?thesis
    using m drained_producer(2) [OF inv] by (auto simp: matches_def emitted_def journal_ok_def)
qed

text \<open>The logger thread goes on: it sees the producer of \<open>example_logged\<close> and pops its record.\<close>

definition example_record :: log_record where
  "example_record = record_make_error Severity_e_WARN 5 (Error 1)"

definition example_producer :: producer where
  "example_producer = snd (push_seeing 0 example_record (Producer ''render''))"

lemma example_producer_ok: "producer_ok example_producer" "producer_contents example_producer = [example_record]"
  "d_phase example_producer = Phase_e_LIVE" "producer_name example_producer = ''render''"
proof -
  obtain b p where eq: "push_seeing 0 example_record (Producer ''render'') = (b, p)" by fastforce
  have b: b
    using eq by (auto simp: push_seeing_linear push_call_seeing_eq Producer_def Let_def SpscRing_def
        refreshed_def k_RING_CAPACITY_def)
  have "tail_visible (Producer ''render'') 0"
    by (simp add: tail_visible_def Producer_def SpscRing_def Let_def)
  note spec = push_seeing_spec [OF Producer_ok(1) this eq]
  show "producer_ok example_producer" "producer_contents example_producer = [example_record]"
    "d_phase example_producer = Phase_e_LIVE" "producer_name example_producer = ''render''"
    using spec b Producer_ok(2,3) [of "''render''"]
    by (simp_all add: example_producer_def eq producer_names(3) [OF eq] producer_name_Producer k_MAX_NAME_SIZE_def)
qed

lemma example_logged_heap: "y_heap example_logged 1 = Some example_producer"
  using example_logged_parts(3) by (simp add: example_producer_def example_record_def)

lemmas example_logged_at = example_logged_parts(1,2,4,5) example_logged_heap
  example_logged_parts(1) [unfolded One_nat_def] example_logged_heap [unfolded One_nat_def]

lemma example_file_steps:
  "file_step (system_init, l) [Made 1 ''render''] (example_registering, l)"
  "file_step (example_registering, l) [] (example_registered, l)"
  "file_step (example_registered, l) [] (example_logged, l)"
proof -
  have "file_step (system_init, l) [Made 1 (producer_name (Producer ''render''))] (example_registering, l)"
    by (rule client_makes [OF example_steps(1)]) (simp_all add: example_registering_def system_init_def)
  then show "file_step (system_init, l) [Made 1 ''render''] (example_registering, l)"
    by (simp add: producer_name_Producer k_MAX_NAME_SIZE_def)
  show "file_step (example_registering, l) [] (example_registered, l)"
    by (rule client_other [OF example_steps(2)]) (simp add: example_registered_def)
  show "file_step (example_registered, l) [] (example_logged, l)"
    by (rule client_other [OF example_steps(3)])
      (simp add: example_logged_def pushed_at_def Let_def example_registered_def example_registering_def
        split: prod.splits)
qed

lemma example_logged_run: "file_run env clock [Made 1 ''render''] example_logged (Logger env clock)"
  using file_run_step [OF file_run_step [OF file_run_step [OF file_run_start]], OF example_file_steps]
  by simp

definition example_reading :: system where
  "example_reading = example_logged\<lparr>y_logger := Reading_phase 0 1, y_seen := insert 0 (y_seen example_logged)\<rparr>"

definition example_popping :: system where
  "example_popping = example_reading\<lparr>y_logger := Popping 0 1 Phase_e_LIVE 0\<rparr>"

lemma example_popping_run: "file_run env clock [Made 1 ''render''] example_popping (Logger env clock)"
proof -
  have "logger_step example_logged example_reading"
    unfolding example_reading_def
    by (rule see_producer) (simp_all add: example_logged_at k_MAX_THREADS_def)
  then have "file_step (example_logged, Logger env clock) [] (example_reading, Logger env clock)"
    by (rule passes) (simp add: example_logged_at)
  moreover have "logger_step example_reading example_popping"
    unfolding example_popping_def
    by (rule read_phase [where p = example_producer]) (simp_all add: example_reading_def example_logged_at)
  then have "file_step (example_reading, Logger env clock) [] (example_popping, Logger env clock)"
    by (rule passes) (simp add: example_reading_def)
  ultimately show ?thesis using file_run_step example_logged_run by (metis append_Nil2)
qed

lemma example_written_run:
  assumes "os_accepts (Logger env clock)"
  shows "\<exists>s l. file_run env clock [Made 1 ''render'', Wrote 1 example_record] s l"
proof -
  let ?p = example_producer and ?s = example_popping
  have p: "y_heap ?s 1 = Some ?p" "y_logger ?s = Popping 0 1 Phase_e_LIVE 0"
    by (simp_all add: example_popping_def example_reading_def example_logged_at)
  have vis: "head_visible ph ?p (d_head (d_ring ?p))" for ph by (simp add: head_visible_def)
  obtain x p1 where pop: "pop_seeing (d_head (d_ring ?p)) ?p = (x, p1)" by fastforce
  note spec = pop_seeing_spec [OF example_producer_ok(1) vis [of Phase_e_CLOSED] pop]
  obtain r where r: "x = Some r" using spec(4) example_producer_ok(2) by (cases x) auto
  then have x: "x = Some example_record" using spec(2) example_producer_ok(2) by simp
  obtain l' where w: "write_record (Logger env clock) example_record (producer_name ?p) = Some l'"
    using write_record_emits [OF assms] Logger_ok [of env clock] by (auto simp: logger_ok_def)
  note step = pop_record [OF p(2) _ p(1) vis pop [unfolded x]]
  have "file_step (?s, Logger env clock) [Wrote 1 example_record] (?s\<lparr>y_heap := (y_heap ?s)(1 \<mapsto> p1),
       y_logger := Popping 0 1 Phase_e_LIVE (0 + 1), y_journal := (y_journal ?s)(1 := (y_journal ?s 1)
         \<lparr>written_records := written_records (y_journal ?s 1) @ [example_record]\<rparr>)\<rparr>, l')"
    by (rule writes [OF step p(2) _ p(1) _ w]) (simp_all add: pop_limit_def)
  from file_run_step [OF example_popping_run this] show ?thesis by auto
qed

theorem file_holds_the_log_witness:
  "\<exists>s l. file_run file_os unit_clock [Made 1 ''render'', Wrote 1 example_record] s l \<and>
     emitted l = record_line unit_clock ''render'' example_record"
proof -
  obtain s l where run: "file_run file_os unit_clock [Made 1 ''render'', Wrote 1 example_record] s l"
    using example_written_run [OF file_os_accepts] by blast
  then show ?thesis
    using file_holds_the_log [OF run file_os_accepts] by (auto simp: new_log_def file_os_def)
qed

text \<open>
  C3. Shutdown loses nothing: when the logger thread has ended, between two passes, and every handle was
  destroyed, the destructor returns with its assertion satisfied, and the file holds the log of the
  run and then the rest of every producer, whose accepted records are those written before and those
  the destructor wrote.
\<close>

theorem shutdown_writes_everything:
  assumes "file_run env clock tr s l" and "os_accepts (Logger env clock)"
    and "y_logger s = At_slot 0" and "\<forall>a. y_handles s a = None"
  shows "(\<exists>l'. Logger_destroy (joined s l) = Some (l', True) \<and> pending l' = [] \<and>
       os_output l' = os_output env @ r_text (replays clock tr) @ pass_text (joined s l)) \<and>
    (\<forall>a p. y_heap s a = Some p \<longrightarrow>
       accepted_records (y_journal s a) = r_written (replays clock tr) a @ producer_contents p)"
proof -
  obtain place where inv: "system_inv place s"
    using reachable_inv [OF file_run_reachable [OF assms(1)]] by blast
  have m: "matches (os_output env) (replays clock tr) s l" using file_run_matches [OF assms(1,2)] .
  have pc: "\<forall>i. y_logger s \<noteq> Clearing i" using assms(3) by simp
  have ok: "logger_ok (joined s l)" "os_accepts (joined s l)"
    using joined_ok [OF inv pc] m by (simp_all add: matches_def joined_def os_accepts_def os_fair_def)
  have out: "os_output (joined s l) @ pending (joined s l) = os_output env @ r_text (replays clock tr)"
    using m by (simp add: matches_def emitted_def joined_def pending_def)
  obtain l' where "Logger_destroy (joined s l) = Some (l', True)" "pending l' = []"
      "os_output l' = (os_output (joined s l) @ pending (joined s l)) @ pass_text (joined s l)"
    using destructor_writes_rest [OF ok] joined_closed [OF inv pc assms(4)] by auto
  then show ?thesis
    using m drained_producer(2) [OF inv] unfolding out by (auto simp: matches_def journal_ok_def)
qed

definition example_destroyed :: system where
  "example_destroyed = example_logged\<lparr>y_heap := (y_heap example_logged)(1 \<mapsto> producer_close example_producer),
     y_handles := (y_handles example_logged)(1 := None)\<rparr>"

lemma example_destroyed_run: "file_run env clock [Made 1 ''render''] example_destroyed (Logger env clock)"
proof -
  have "client_step example_logged example_destroyed"
    unfolding example_destroyed_def
    by (rule handle_destroy [where t = 7]) (simp_all add: example_logged_at)
  then have "file_step (example_logged, Logger env clock) [] (example_destroyed, Logger env clock)"
    by (rule client_other) (simp add: example_destroyed_def example_logged_at)
  then show ?thesis using file_run_step [OF example_logged_run] by fastforce
qed

theorem shutdown_writes_everything_witness:
  "(\<exists>l'. Logger_destroy (joined example_destroyed (Logger file_os unit_clock)) = Some (l', True)) \<and>
   accepted_records (y_journal example_destroyed 1) = [example_record]"
proof -
  have "y_handles example_destroyed a = None" for a
    by (simp add: example_destroyed_def example_logged_def pushed_at_def example_registered_def
        example_registering_def system_init_def Let_def split: prod.splits)
  moreover have "producer_contents (producer_close example_producer) = [example_record]"
    using example_producer_ok(2) by (simp add: producer_close_def producer_contents_def)
  ultimately show ?thesis
    using shutdown_writes_everything [OF example_destroyed_run file_os_accepts]
    by (simp add: example_destroyed_def example_logged_parts new_log_def) metis
qed

end
