(* ===== verification/Core_Log_Fair.thy ===== *)
theory Core_Log_Fair
  imports Core_Log_File
begin

text \<open>
  Runs of the logger that do not end. Two things are asked of the machine: the logger thread goes on taking
  steps, and a store becomes visible to loads in finite time, as the C++ standard has it (the logger
  thread may miss a pointer, a phase or a counter for a while, not for ever). A run with both is fair;
  every finite run is the start of a fair one, and in a fair run passes end again and again.
\<close>

section \<open>Counters and journals\<close>

text \<open>The pusher's counter is the number of records accepted.\<close>

definition heads_count :: "system \<Rightarrow> bool" where
  "heads_count s \<longleftrightarrow> (\<forall>a p. y_heap s a = Some p \<longrightarrow>
     d_head (d_ring p) = of_nat (length (accepted_records (y_journal s a))))"

lemma push_seeing_head:
  "push_seeing tail r p = (b, p') \<Longrightarrow>
   d_head (d_ring p') = (if b then d_head (d_ring p) + 1 else d_head (d_ring p))"
  by (auto simp: push_seeing_linear push_call_seeing_eq refreshed_def published_def Let_def
      split: prod.splits if_splits)

lemma pop_seeing_head: "pop_seeing head p = (x, p') \<Longrightarrow> d_head (d_ring p') = d_head (d_ring p)"
  by (auto simp: pop_seeing_linear try_pop_seeing_eq pop_release_def Let_def split: prod.splits if_splits)

lemma pop_seeing_nothing: "pop_seeing head p = (None, p') \<Longrightarrow> head = d_tail (d_ring p)"
  by (auto simp: pop_seeing_linear try_pop_seeing_eq pop_release_def Let_def split: prod.splits if_splits)

lemma producer_heads [simp]:
  "d_head (d_ring (Producer name)) = 0" "d_head (d_ring (producer_close p)) = d_head (d_ring p)"
  by (simp_all add: Producer_def SpscRing_def producer_close_def Let_def)

lemma client_step_heads: "client_step s s' \<Longrightarrow> heads_count s \<Longrightarrow> heads_count s'"
  by (induction rule: client_step.induct)
    (auto simp: heads_count_def pushed_at_def new_journal_def Let_def split: prod.splits
      dest!: push_seeing_head)

lemma logger_step_heads: "logger_step s s' \<Longrightarrow> heads_count s \<Longrightarrow> heads_count s'"
  by (induction rule: logger_step.induct)
    (auto simp: heads_count_def take_dropped_seeing_eq dest!: pop_seeing_head)

lemma reachable_heads: "system_reachable s \<Longrightarrow> heads_count s"
  by (induction rule: system_reachable.induct)
    (auto simp: heads_count_def system_init_def new_journal_def
      intro: client_step_heads [unfolded heads_count_def, rule_format]
        logger_step_heads [unfolded heads_count_def, rule_format])

text \<open>While a producer stays in the heap its journal only grows, and it keeps its name.\<close>

definition grows :: "addr \<Rightarrow> system \<Rightarrow> system \<Rightarrow> bool" where
  "grows a s s' \<longleftrightarrow>
     prefix (accepted_records (y_journal s a)) (accepted_records (y_journal s' a)) \<and>
     prefix (written_records (y_journal s a)) (written_records (y_journal s' a)) \<and>
     map_option producer_name (y_heap s' a) = map_option producer_name (y_heap s a)"

lemma grows_refl: "grows a s s"
  by (simp add: grows_def)

lemma grows_trans: "grows a s s1 \<Longrightarrow> grows a s1 s2 \<Longrightarrow> grows a s s2"
  unfolding grows_def by (auto intro: prefix_order.trans)

lemma client_step_grows: "client_step s s' \<Longrightarrow> y_heap s a \<noteq> None \<Longrightarrow> y_heap s' a \<noteq> None \<Longrightarrow> grows a s s'"
  by (induction rule: client_step.induct) (auto simp: grows_def pushed_at_def Let_def split: prod.splits)

lemma logger_step_grows: "logger_step s s' \<Longrightarrow> y_heap s a \<noteq> None \<Longrightarrow> y_heap s' a \<noteq> None \<Longrightarrow> grows a s s'"
  by (induction rule: logger_step.induct) (auto simp: grows_def take_dropped_seeing_eq)

section \<open>A producer in its place\<close>

text \<open>The producer at \<open>a\<close> is that of slot \<open>i\<close>, the shared one if \<open>i\<close> is \<open>k_MAX_THREADS\<close>.\<close>

definition settled :: "nat \<Rightarrow> addr \<Rightarrow> system \<Rightarrow> bool" where
  "settled i a s \<longleftrightarrow> drains s i a \<and> y_logger s \<noteq> Clearing i \<and> y_heap s a \<noteq> None"

lemma client_step_settled:
  assumes "client_step s s'" and "settled i a s" and "y_heap s' a \<noteq> None"
  shows "settled i a s'"
  using assms
proof (induction rule: client_step.induct)
  case (exchange_succeeds s t b j)
  then show ?case by (cases "i = j") (auto simp: settled_def drains_def split: if_splits)
qed (auto simp: settled_def drains_def pushed_at_def Let_def split: prod.splits if_splits)

lemma logger_step_settled:
  assumes "logger_step s s'" and "system_inv place s" and "settled i a s" and "y_heap s' a \<noteq> None"
  shows "settled i a s'"
  using assms
proof (induction rule: logger_step.induct)
  case (free_producer s j b)
  then have "drains s j b" using system_invD(7) [of place s] by (simp add: consumer_ok_def)
  then show ?case using free_producer by (auto simp: settled_def drains_def split: if_splits)
next
  case (take_count s j b ph p d count p1)
  then show ?case by (auto simp: settled_def drains_def after_drain_one_def split: if_splits)
qed (auto simp: settled_def drains_def nth_list_update split: if_splits)

lemma placed_settled:
  assumes "system_inv place s" and "y_heap s a \<noteq> None" and "y_handles s a \<noteq> None \<or> a = y_shared s"
  shows "\<exists>i\<le>k_MAX_THREADS. settled i a s"
proof (cases "a = y_shared s")
  case True
  moreover have "y_logger s \<noteq> Clearing k_MAX_THREADS"
    using system_invD(7) [OF assms(1)] by (auto simp: consumer_ok_def)
  ultimately show ?thesis using assms(2) by (auto simp: settled_def drains_def)
next
  case False
  then obtain i where "i < k_MAX_THREADS" "y_slots s ! i = Some a" "y_logger s \<noteq> Clearing i"
    using system_invD(4) [OF assms(1), of a] assms(2,3)
    by (auto simp: addr_ok_def in_place_def split: option.splits place.splits)
  then show ?thesis using assms(2) by (auto simp: settled_def drains_def intro: exI [of _ i])
qed

text \<open>A producer that goes out of the heap has had all its records written.\<close>

lemma logger_step_frees:
  assumes "logger_step s s'" and "system_inv place s" and "y_heap s a \<noteq> None" and "y_heap s' a = None"
  shows "accepted_records (y_journal s a) = written_records (y_journal s a)"
  using assms
proof (induction rule: logger_step.induct)
  case (free_producer s i b)
  then have "b = a" by (simp split: if_splits)
  then have "closed_at s a (\<lambda>p. producer_contents p = [] \<and> d_reported p = d_dropped p)"
    using free_producer system_invD(7) [of place s] by (simp add: consumer_ok_def)
  then obtain p where "y_heap s a = Some p" "producer_contents p = []"
    by (auto simp: closed_at_def split: option.splits)
  then show ?case using drained_producer(2) [of place s a p] free_producer(2) by (simp add: journal_ok_def)
qed (auto split: if_splits)

lemma client_step_keeps:
  assumes "client_step s s'" and "system_inv place s" and "settled i a s"
  shows "y_heap s' a \<noteq> None"
  using assms
proof (induction rule: client_step.induct)
  case (registration_fails s t b)
  then have "place b = Some (Fresh t)" "place (y_shared s) = Some Shared_place"
    using system_invD(2) [of place s] system_invD(6) [of place s t] by (auto simp: client_ok_def)
  moreover have "place a = Some (In_slot i) \<or> a = y_shared s"
    using registration_fails(3) system_invD(5) [OF registration_fails(2), of i]
    by (auto simp: settled_def drains_def slot_ok_def split: if_splits)
  ultimately show ?case using registration_fails(3) by (auto simp: settled_def)
qed (auto simp: settled_def pushed_at_def Let_def split: prod.splits)

section \<open>Runs of the threads\<close>

definition thread_run :: "(nat \<Rightarrow> system) \<Rightarrow> bool" where
  "thread_run \<sigma> \<longleftrightarrow>
     (\<forall>m. system_reachable (\<sigma> m) \<and> (client_step (\<sigma> m) (\<sigma> (Suc m)) \<or> logger_step (\<sigma> m) (\<sigma> (Suc m))))"

text \<open>The producer at \<open>a\<close> is not freed from \<open>n\<close> to \<open>m\<close>.\<close>

definition in_heap :: "(nat \<Rightarrow> system) \<Rightarrow> addr \<Rightarrow> nat \<Rightarrow> nat \<Rightarrow> bool" where
  "in_heap \<sigma> a n m \<longleftrightarrow> (\<forall>k. n \<le> k \<and> k \<le> m \<longrightarrow> y_heap (\<sigma> k) a \<noteq> None)"

text \<open>What was stored when the state was \<open>\<sigma> n\<close> is visible from some point on.\<close>

definition visible_in_time :: "(nat \<Rightarrow> system) \<Rightarrow> bool" where
  "visible_in_time \<sigma> \<longleftrightarrow>
     (\<forall>n a. \<exists>N\<ge>n. \<forall>m\<ge>N. in_heap \<sigma> a n m \<longrightarrow> sees_since a (\<sigma> n) (\<sigma> m) (\<sigma> (Suc m)))"

lemma thread_run_inv: "thread_run \<sigma> \<Longrightarrow> \<exists>place. system_inv place (\<sigma> m)"
  using reachable_inv by (auto simp: thread_run_def)

lemma in_heap_shorter: "in_heap \<sigma> a n m \<Longrightarrow> k \<le> m \<Longrightarrow> in_heap \<sigma> a n k"
  by (simp add: in_heap_def)

lemma stays_settled:
  assumes "thread_run \<sigma>" and "settled i a (\<sigma> n)" and "n \<le> m" and "in_heap \<sigma> a n m"
  shows "settled i a (\<sigma> m) \<and> grows a (\<sigma> n) (\<sigma> m)"
  using assms(3,4)
proof (induction rule: dec_induct)
  case base
  then show ?case using assms(2) grows_refl by simp
next
  case (step m)
  then have IH: "settled i a (\<sigma> m)" "grows a (\<sigma> n) (\<sigma> m)" and here: "y_heap (\<sigma> (Suc m)) a \<noteq> None"
    by (auto simp: in_heap_def)
  have there: "y_heap (\<sigma> m) a \<noteq> None" using IH(1) by (simp add: settled_def)
  obtain place where inv: "system_inv place (\<sigma> m)" using thread_run_inv [OF assms(1)] by blast
  have st: "client_step (\<sigma> m) (\<sigma> (Suc m)) \<or> logger_step (\<sigma> m) (\<sigma> (Suc m))"
    using assms(1) by (simp add: thread_run_def)
  then have "settled i a (\<sigma> (Suc m))"
    using client_step_settled [OF _ IH(1) here] logger_step_settled [OF _ inv IH(1) here] by blast
  moreover have "grows a (\<sigma> m) (\<sigma> (Suc m))"
    using st client_step_grows [OF _ there here] logger_step_grows [OF _ there here] by blast
  ultimately show ?case using grows_trans [OF IH(2)] by blast
qed

text \<open>A producer stays, or there is a step that frees it.\<close>

lemma stays_or_freed:
  assumes "y_heap (\<sigma> n) a \<noteq> None"
  shows "(\<forall>m\<ge>n. in_heap \<sigma> a n m) \<or> (\<exists>m\<ge>n. in_heap \<sigma> a n m \<and> y_heap (\<sigma> (Suc m)) a = None)"
proof (rule disjCI)
  assume never: "\<not> (\<exists>m\<ge>n. in_heap \<sigma> a n m \<and> y_heap (\<sigma> (Suc m)) a = None)"
  have "in_heap \<sigma> a n m" if "n \<le> m" for m
    using that
  proof (induction rule: dec_induct)
    case base
    then show ?case using assms by (auto simp: in_heap_def dest: le_antisym)
  next
    case (step m)
    then have "y_heap (\<sigma> (Suc m)) a \<noteq> None" using never by auto
    then show ?case using step.IH by (auto simp: in_heap_def le_Suc_eq)
  qed
  then show "\<forall>m\<ge>n. in_heap \<sigma> a n m" by blast
qed

lemma freed_when_written:
  assumes "thread_run \<sigma>" and "settled i a (\<sigma> m)" and "y_heap (\<sigma> (Suc m)) a = None"
  shows "accepted_records (y_journal (\<sigma> m) a) = written_records (y_journal (\<sigma> m) a)"
proof -
  obtain place where inv: "system_inv place (\<sigma> m)" using thread_run_inv [OF assms(1)] by blast
  have "logger_step (\<sigma> m) (\<sigma> (Suc m))"
    using assms(1,3) client_step_keeps [OF _ inv assms(2), of "\<sigma> (Suc m)"] unfolding thread_run_def by blast
  then show ?thesis
    using logger_step_frees [OF _ inv _ assms(3)] assms(2) by (simp add: settled_def)
qed

text \<open>While a producer stays, there is a whole pass that sees what was there at \<open>n\<close>.\<close>

lemma whole_pass:
  assumes "visible_in_time \<sigma>" and ends: "\<And>k. \<exists>m\<ge>k. pass_ends (y_logger (\<sigma> m)) (y_logger (\<sigma> (Suc m)))"
    and "\<And>m. n \<le> m \<Longrightarrow> in_heap \<sigma> a n m"
  shows "\<exists>e m. n \<le> e \<and> y_logger (\<sigma> e) = At_slot 0 \<and> e \<le> m \<and>
    (\<forall>k\<ge>e. sees_since a (\<sigma> n) (\<sigma> k) (\<sigma> (Suc k))) \<and> pass_ends (y_logger (\<sigma> m)) (y_logger (\<sigma> (Suc m)))"
proof -
  obtain N where N: "n \<le> N" "\<And>m. N \<le> m \<Longrightarrow> sees_since a (\<sigma> n) (\<sigma> m) (\<sigma> (Suc m))"
    using assms(1,3) unfolding visible_in_time_def by (meson le_trans)
  obtain e where e: "N \<le> e" "y_logger (\<sigma> (Suc e)) = At_slot 0"
    using ends [of N] by (auto simp: pass_ends_def)
  obtain m where m: "Suc e \<le> m" "pass_ends (y_logger (\<sigma> m)) (y_logger (\<sigma> (Suc m)))"
    using ends by blast
  show ?thesis
    using N e m by (intro exI [of _ "Suc e"] exI [of _ m]) auto
qed

section \<open>Fair runs\<close>

text \<open>An infinite run in which the logger thread goes on and stores become visible.\<close>

definition fair_file_run ::
  "os \<Rightarrow> tick_conversion \<Rightarrow> (nat \<Rightarrow> system \<times> logger) \<Rightarrow> (nat \<Rightarrow> log_event list) \<Rightarrow> bool" where
  "fair_file_run env clock \<rho> es \<longleftrightarrow>
     infinite_run file_step (system_init, Logger env clock) \<rho> es \<and>
     (\<forall>n. \<exists>m\<ge>n. logger_step (fst (\<rho> m)) (fst (\<rho> (Suc m)))) \<and> visible_in_time (\<lambda>n. fst (\<rho> n))"

interpretation file_progress: progress file_step "(system_init, Logger env clock)"
    "\<lambda>u. system_reachable (fst u)" "\<lambda>u v. logger_step (fst u) (fst v)"
    "\<lambda>u v. pass_ends (y_logger (fst u)) (y_logger (fst v))" "\<lambda>u. pass_work (y_logger (fst u))"
  for env clock
proof
  show "pass_work (y_logger (fst v)) < pass_work (y_logger (fst u)) \<or>
      pass_ends (y_logger (fst u)) (y_logger (fst v))"
    if "system_reachable (fst u)" "logger_step (fst u) (fst v)" for u v
    using pass_work_decreases [OF that(2)] reachable_inv [OF that(1)] by blast
  show "pass_work (y_logger (fst v)) \<le> pass_work (y_logger (fst u))"
    if "file_step u es v" "\<not> logger_step (fst u) (fst v)" for u es v
    using that client_keeps_logger file_step_threads [of "fst u" "snd u" es "fst v" "snd v"] by auto
qed

lemma fair_run_at:
  assumes "fair_file_run env clock \<rho> es"
  shows "file_run env clock (trace_to es n) (fst (\<rho> n)) (snd (\<rho> n))"
  using infinite_run_to [of file_step "(system_init, Logger env clock)" \<rho> es n] assms
  by (simp add: fair_file_run_def file_run_def)

lemma fair_run_threads:
  assumes "fair_file_run env clock \<rho> es"
  shows "thread_run (\<lambda>n. fst (\<rho> n))"
proof -
  have "file_step (\<rho> n) (es n) (\<rho> (Suc n))" for n
    using assms infinite_run_step by (auto simp: fair_file_run_def)
  then have "client_step (fst (\<rho> n)) (fst (\<rho> (Suc n))) \<or> logger_step (fst (\<rho> n)) (fst (\<rho> (Suc n)))" for n
    using file_step_threads by (metis prod.collapse)
  then show ?thesis using file_run_reachable [OF fair_run_at [OF assms]] by (simp add: thread_run_def)
qed

lemma fair_run_passes:
  assumes "fair_file_run env clock \<rho> es"
  shows "\<exists>m\<ge>k. pass_ends (y_logger (fst (\<rho> m))) (y_logger (fst (\<rho> (Suc m))))"
  using file_progress.goal_recurs [of env clock \<rho> es k] assms by (simp add: fair_file_run_def)

section \<open>Fair runs exist\<close>

text \<open>
  Such runs exist, and the two hypotheses exclude no finite run: whatever has happened, the logger thread
  can go on for ever and see the newest values.
\<close>

definition newest_step :: "system \<times> logger \<Rightarrow> system \<times> logger \<Rightarrow> bool" where
  "newest_step u v \<longleftrightarrow>
     logger_step (fst u) (fst v) \<and> (\<exists>es. file_step u es v) \<and> (\<forall>a b. sees_since a b (fst u) (fst v))"

definition newest_from :: "nat \<Rightarrow> (nat \<Rightarrow> system \<times> logger) \<Rightarrow> bool" where
  "newest_from N \<rho> \<longleftrightarrow> (\<forall>m\<ge>N. newest_step (\<rho> m) (\<rho> (Suc m)))"

lemma newest_continues:
  assumes run: "file_run env clock tr (fst u) (snd u)" and acc: "os_accepts (Logger env clock)"
  shows "\<exists>v. (\<exists>tr. file_run env clock tr (fst v) (snd v)) \<and> newest_step u v"
proof -
  obtain place where inv: "system_inv place (fst u)" using reachable_inv [OF file_run_reachable [OF run]] by blast
  obtain s' where s': "logger_step (fst u) s'" "\<forall>a b. sees_since a b (fst u) s'"
    using logger_enabled_newest [OF inv] by blast
  obtain es l' where "file_step (fst u, snd u) es (s', l')"
    using logger_step_has_file [OF s'(1) file_run_matches [OF run acc] inv] by blast
  then show ?thesis
    using s' file_run_step [OF run, of es s' l'] by (intro exI [of _ "(s', l')"]) (auto simp: newest_step_def)
qed

lemma newest_run:
  assumes "file_run env clock tr (fst u) (snd u)" and "os_accepts (Logger env clock)"
  shows "\<exists>\<tau> es. infinite_run file_step u \<tau> es \<and> newest_from 0 \<tau>"
proof -
  obtain \<tau> where \<tau>: "\<tau> 0 = u" "\<And>n. newest_step (\<tau> n) (\<tau> (Suc n))"
    using dependent_nat_choice [of "\<lambda>n x. (\<exists>tr. file_run env clock tr (fst x) (snd x)) \<and> (n = 0 \<longrightarrow> x = u)"
        "\<lambda>n. newest_step"] assms(1) newest_continues [OF _ assms(2)] by (metis nat.simps(3))
  then have "\<exists>es. \<forall>n. file_step (\<tau> n) (es n) (\<tau> (Suc n))"
    by (intro choice) (simp add: newest_step_def)
  then show ?thesis using \<tau> by (auto simp: infinite_run_def newest_from_def)
qed

lemma runs_into:
  assumes "runs file_step u0 tr u" and "infinite_run file_step u \<tau> es" and "newest_from M \<tau>"
  shows "\<exists>\<rho> es' N M. infinite_run file_step u0 \<rho> es' \<and> newest_from M \<rho> \<and> \<rho> N = u"
proof -
  have "\<exists>\<rho> es' N M. infinite_run file_step u0 \<rho> es' \<and> newest_from M \<rho> \<and> (\<forall>k. \<rho> (N + k) = \<tau> k)"
    using assms
  proof (induction arbitrary: \<tau> es M rule: runs.induct)
    case runs_start
    then show ?case by (metis add_0)
  next
    case (runs_step tr s e s')
    have "infinite_run file_step s (case_nat s \<tau>) (case_nat e es)"
      by (rule infinite_run_Suc [where step = file_step, OF runs_step(2,4)])
    moreover have "newest_from (Suc M) (case_nat s \<tau>)"
      using runs_step(5) by (auto simp: newest_from_def Suc_le_eq split: nat.split)
    ultimately obtain \<rho> es' N K where \<rho>: "infinite_run file_step u0 \<rho> es'" "newest_from K \<rho>"
        "\<forall>k. \<rho> (N + k) = (case_nat s \<tau>) k"
      using runs_step(3) by blast
    have "\<rho> (Suc N + k) = \<tau> k" for k using \<rho>(3) [rule_format, of "Suc k"] by simp
    then show ?case using \<rho>(1,2) by blast
  qed
  then show ?thesis using assms(2) by (metis add_0_right infinite_run_def)
qed

lemma newest_is_fair:
  assumes "infinite_run file_step (system_init, Logger env clock) \<rho> es" and "newest_from N \<rho>"
  shows "fair_file_run env clock \<rho> es"
proof -
  have "\<exists>m\<ge>n. logger_step (fst (\<rho> m)) (fst (\<rho> (Suc m)))" for n
    using assms(2) by (auto simp: newest_from_def newest_step_def intro: exI [of _ "n + N"])
  moreover have "\<exists>M\<ge>n. \<forall>m\<ge>M. in_heap (\<lambda>n. fst (\<rho> n)) a n m \<longrightarrow>
      sees_since a (fst (\<rho> n)) (fst (\<rho> m)) (fst (\<rho> (Suc m)))" for n a
    using assms(2) by (intro exI [of _ "n + N"]) (auto simp: newest_from_def newest_step_def)
  ultimately show ?thesis using assms(1) by (simp add: fair_file_run_def visible_in_time_def)
qed

lemma fair_run_through:
  assumes "file_run env clock tr s l" and "os_accepts (Logger env clock)"
  shows "\<exists>\<rho> es n. fair_file_run env clock \<rho> es \<and> \<rho> n = (s, l)"
proof -
  obtain \<tau> es where "infinite_run file_step (s, l) \<tau> es" "newest_from 0 \<tau>"
    using newest_run [of env clock tr "(s, l)"] assms by auto
  then show ?thesis
    using runs_into [OF assms(1) [unfolded file_run_def]] newest_is_fair by metis
qed

end
