(* ===== verification/Core_Log_Liveness.thy ===== *)
theory Core_Log_Liveness
  imports Core_Log_Fair
begin

text \<open>
  Liveness of the logger in fair runs: every record that a ring accepts is written to the file, and the
  slot of a thread that is gone comes free again, however the threads interleave, come and go. Both rest
  on a whole pass that sees what was there before it: the first shows what is due in the pass, the second
  what will be freed in it.
\<close>

section \<open>A pass catches up\<close>

text \<open>
  \<open>T\<close> records of the producer at \<open>a\<close>, of slot \<open>i\<close>, are due in this pass: the logger thread has not come to
  that slot, or is popping there and still may pop as many as are missing.
\<close>

definition ahead :: "nat \<Rightarrow> addr \<Rightarrow> nat \<Rightarrow> system \<Rightarrow> bool" where
  "ahead i a T s \<longleftrightarrow>
     (case y_logger s of
        At_slot k \<Rightarrow> k \<le> i
      | Reading_phase k b \<Rightarrow> k \<le> i
      | Popping k b ph n \<Rightarrow> k < i \<or> k = i \<and> T + n \<le> length (written_records (y_journal s a)) + 4096
      | Taking_dropped k b ph \<Rightarrow> k < i
      | Freeing k b \<Rightarrow> k < i
      | Clearing k \<Rightarrow> k < i)"

abbreviation caught_up :: "addr \<Rightarrow> nat \<Rightarrow> system \<Rightarrow> bool" where
  "caught_up a T s \<equiv> T \<le> length (written_records (y_journal s a))"

lemma nothing_left:
  assumes "producer_ok p" and "journal_ok j p"
    and "d_head (d_ring p) = of_nat (length (accepted_records j))" and "T \<le> length (accepted_records j)"
    and "pop_seeing head p = (None, p1)" and "d_head (d_ring p) - head \<le> d_head (d_ring p) - of_nat T"
  shows "T \<le> length (written_records j)"
proof -
  have "length (producer_contents p) = unat (d_head (d_ring p) - d_tail (d_ring p))"
    by (simp add: length_producer_contents ring_contents_def)
  also have "\<dots> \<le> unat (d_head (d_ring p) - of_nat T)"
    using assms(6) pop_seeing_nothing [OF assms(5)] by (simp add: word_le_nat_alt)
  also have "\<dots> = unat (of_nat (length (accepted_records j) - T) :: u64)"
    using assms(3,4) by (simp add: of_nat_diff)
  also have "\<dots> \<le> length (accepted_records j) - T" by (simp add: unat_of_nat)
  finally show ?thesis using assms(2,4) by (simp add: journal_ok_def)
qed

lemma logger_step_ahead:
  assumes "logger_step s s'" and "system_inv place s" and "heads_count s"
    and "settled i a s" and "settled i a b" and "i \<le> k_MAX_THREADS"
    and "y_heap b a = Some p0" and "d_head (d_ring p0) = of_nat T" and "T \<le> length (accepted_records (y_journal s a))"
    and "sees_since a b s s'" and "ahead i a T s"
  shows "ahead i a T s' \<or> caught_up a T s'"
  using assms
proof (induction rule: logger_step.induct)
  case (see_empty s k)
  then have "k \<noteq> i" by (auto simp: settled_def drains_def sees_since_def)
  then show ?case using see_empty by (simp add: ahead_def)
next
  case (read_phase s k c p ph)
  then have "k = i \<Longrightarrow> c = a" using system_invD(7) [of place s]
    by (auto simp: consumer_ok_def settled_def drains_def split: if_splits)
  then have "k = i \<Longrightarrow> T \<le> length (written_records (y_journal s a)) + 4096"
    using read_phase drained_producer [of place s a p] producer_bounded [of p] by (auto simp: journal_ok_def)
  then show ?case using read_phase by (auto simp: ahead_def)
next
  case (pop_record s k c ph n p head r p1)
  then have "k = i \<Longrightarrow> c = a" using system_invD(7) [of place s]
    by (auto simp: consumer_ok_def settled_def drains_def split: if_splits)
  then show ?case using pop_record by (auto simp: ahead_def)
next
  case (pop_nothing s k c ph n p head p1)
  have "k = i \<Longrightarrow> c = a" using system_invD(7) [of place s] pop_nothing
    by (auto simp: consumer_ok_def settled_def drains_def split: if_splits)
  moreover have "caught_up a T s" if eq: "c = a"
  proof -
    obtain head' p1' where "pop_seeing head' p = (None, p1')"
        "d_head (d_ring p) - head' \<le> d_head (d_ring p) - d_head (d_ring p0)"
      using pop_nothing(1-3,11,14) eq by (auto simp: sees_since_def)
    then show ?thesis
      using nothing_left [of p "y_journal s a" T head' p1'] drained_producer [of place s a p] pop_nothing eq
      by (auto simp: heads_count_def)
  qed
  ultimately show ?case using pop_nothing(1,15) by (auto simp: ahead_def)
next
  case (pop_enough s k c ph n)
  then have "k = i \<Longrightarrow> caught_up a T s"
    using system_invD(7) [of place s] pop_limit_closed
    by (cases ph) (auto simp: ahead_def pop_limit_def consumer_ok_def closed_at_def split: option.splits)
  then show ?case using pop_enough by (auto simp: ahead_def)
next
  case (take_count s k c ph p d count p1)
  then show ?case by (auto simp: ahead_def after_drain_one_def)
qed (auto simp: ahead_def)

lemma client_step_ahead:
  assumes "client_step s s'" and "grows a s s'" and "ahead i a T s"
  shows "ahead i a T s'"
  using assms client_keeps_logger [OF assms(1)] prefix_length_le
  by (fastforce simp: ahead_def grows_def split: logger_pc.splits)

text \<open>In a pass that sees what was there at \<open>n\<close>, the records accepted by then are written or due.\<close>

lemma pass_catches_up:
  assumes run: "thread_run \<sigma>" and placed: "settled i a (\<sigma> n)" "i \<le> k_MAX_THREADS"
    and start: "n \<le> e" "y_logger (\<sigma> e) = At_slot 0" and "e \<le> m" and "in_heap \<sigma> a n m"
    and fresh: "\<forall>k. e \<le> k \<and> k < m \<longrightarrow> sees_since a (\<sigma> n) (\<sigma> k) (\<sigma> (Suc k))"
  defines "T \<equiv> length (accepted_records (y_journal (\<sigma> n) a))"
  shows "ahead i a T (\<sigma> m) \<or> caught_up a T (\<sigma> m)"
  using assms(6-8)
proof (induction rule: dec_induct)
  case base
  show ?case using start by (simp add: ahead_def)
next
  case (step m)
  have alive: "in_heap \<sigma> a n m" using in_heap_shorter [OF step.prems(1)] by simp
  have m: "settled i a (\<sigma> m)" "grows a (\<sigma> n) (\<sigma> m)"
    using stays_settled [OF run placed(1) _ alive] start step.hyps by auto
  have m1: "settled i a (\<sigma> (Suc m))" "grows a (\<sigma> m) (\<sigma> (Suc m))"
    using stays_settled [OF run m(1), of "Suc m"] step.prems(1) start step.hyps by (auto simp: in_heap_def)
  have T: "T \<le> length (accepted_records (y_journal (\<sigma> m) a))"
    using m(2) prefix_length_le by (auto simp: grows_def T_def)
  obtain p0 where p0: "y_heap (\<sigma> n) a = Some p0" using placed(1) by (auto simp: settled_def)
  have counts: "heads_count (\<sigma> k)" for k using run reachable_heads by (simp add: thread_run_def)
  obtain place where inv: "system_inv place (\<sigma> m)" using thread_run_inv [OF run] by blast
  have "ahead i a T (\<sigma> m) \<or> caught_up a T (\<sigma> m)" using step.IH [OF alive] step.prems(2) by simp
  then show ?case
  proof
    assume ahead: "ahead i a T (\<sigma> m)"
    have "client_step (\<sigma> m) (\<sigma> (Suc m)) \<or> logger_step (\<sigma> m) (\<sigma> (Suc m))"
      using run by (simp add: thread_run_def)
    then show ?thesis
    proof
      assume "logger_step (\<sigma> m) (\<sigma> (Suc m))"
      then show ?thesis
        using logger_step_ahead [OF _ inv counts m(1) placed p0 _ T _ ahead] counts [of n] p0 step
        by (simp add: heads_count_def T_def)
    qed (use client_step_ahead [OF _ m1(2) ahead] in blast)
  next
    assume "caught_up a T (\<sigma> m)"
    then show ?thesis using m1(2) prefix_length_le by (fastforce simp: grows_def)
  qed
qed

lemma accepted_is_written:
  assumes run: "thread_run \<sigma>" and vis: "visible_in_time \<sigma>"
    and ends: "\<And>k. \<exists>m\<ge>k. pass_ends (y_logger (\<sigma> m)) (y_logger (\<sigma> (Suc m)))"
    and placed: "settled i a (\<sigma> n)" "i \<le> k_MAX_THREADS"
  defines "T \<equiv> length (accepted_records (y_journal (\<sigma> n) a))"
  shows "\<exists>m\<ge>n. in_heap \<sigma> a n m \<and> caught_up a T (\<sigma> m)"
proof -
  have "y_heap (\<sigma> n) a \<noteq> None" using placed(1) by (simp add: settled_def)
  then consider (stays) "\<forall>m\<ge>n. in_heap \<sigma> a n m"
    | (freed) m where "n \<le> m" "in_heap \<sigma> a n m" "y_heap (\<sigma> (Suc m)) a = None"
    using stays_or_freed by blast
  then show ?thesis
  proof cases
    case stays
    then obtain e m where pass: "n \<le> e" "y_logger (\<sigma> e) = At_slot 0" "e \<le> m"
        "\<forall>k\<ge>e. sees_since a (\<sigma> n) (\<sigma> k) (\<sigma> (Suc k))"
      and m: "pass_ends (y_logger (\<sigma> m)) (y_logger (\<sigma> (Suc m)))"
      using whole_pass [OF vis ends] by blast
    then have "ahead i a T (\<sigma> m) \<or> caught_up a T (\<sigma> m)"
      using pass_catches_up [OF run placed] stays by (auto simp: T_def)
    moreover have "\<not> ahead i a T (\<sigma> m)"
      using m placed(2) by (auto simp: ahead_def pass_ends_def split: logger_pc.splits)
    ultimately show ?thesis using stays pass(1,3) by (meson le_trans)
  next
    case freed
    have "settled i a (\<sigma> m)" "grows a (\<sigma> n) (\<sigma> m)"
      using stays_settled [OF run placed(1) freed(1,2)] by simp_all
    then have "caught_up a T (\<sigma> m)"
      using freed_when_written [OF run _ freed(3)] prefix_length_le by (fastforce simp: grows_def T_def)
    then show ?thesis using freed(1,2) by blast
  qed
qed

section \<open>Slots come free again\<close>

abbreviation is_closed :: "addr \<Rightarrow> system \<Rightarrow> bool" where
  "is_closed a s \<equiv> closed_at s a (\<lambda>p. True)"

lemma client_step_closed: "client_step s s' \<Longrightarrow> is_closed a s \<Longrightarrow> y_heap s' a \<noteq> None \<Longrightarrow> is_closed a s'"
  by (induction rule: client_step.induct)
    (auto simp: closed_at_def pushed_at_def producer_close_def push_seeing_linear Let_def
      split: prod.splits option.splits if_splits)

lemma logger_step_closed: "logger_step s s' \<Longrightarrow> is_closed a s \<Longrightarrow> y_heap s' a \<noteq> None \<Longrightarrow> is_closed a s'"
  by (induction rule: logger_step.induct)
    (auto simp: closed_at_def pop_seeing_linear take_dropped_seeing_eq Let_def
      split: prod.splits option.splits if_splits)

lemma stays_closed:
  assumes "thread_run \<sigma>" and "is_closed a (\<sigma> n)" and "n \<le> m" and "in_heap \<sigma> a n m"
  shows "is_closed a (\<sigma> m)"
  using assms(3,4)
proof (induction rule: dec_induct)
  case base
  show ?case by (rule assms(2))
next
  case (step m)
  then show ?case
    using assms(1) client_step_closed logger_step_closed in_heap_shorter [OF step.prems, of m]
    unfolding thread_run_def in_heap_def by (meson le_SucI le_refl)
qed

lemma closed_settled:
  assumes "system_inv place s" and "is_closed a s"
  obtains i where "i < k_MAX_THREADS" and "settled i a s"
proof -
  obtain p where p: "y_heap s a = Some p" "d_phase p = Phase_e_CLOSED"
    using assms(2) by (auto simp: closed_at_def split: option.splits)
  then obtain i where "i < k_MAX_THREADS" "y_slots s ! i = Some a" "y_logger s \<noteq> Clearing i"
    using system_invD(4) [OF assms(1), of a]
    by (auto simp: addr_ok_def in_place_def split: option.splits place.splits)
  then show thesis using that p(1) by (auto simp: settled_def drains_def)
qed

text \<open>The closed producer at \<open>a\<close>, of slot \<open>i\<close>, will be freed in this pass.\<close>

definition to_be_freed :: "nat \<Rightarrow> system \<Rightarrow> bool" where
  "to_be_freed i s \<longleftrightarrow>
     (case y_logger s of
        At_slot k \<Rightarrow> k \<le> i
      | Reading_phase k b \<Rightarrow> k \<le> i
      | Popping k b ph n \<Rightarrow> k < i \<or> k = i \<and> ph = Phase_e_CLOSED
      | Taking_dropped k b ph \<Rightarrow> k < i \<or> k = i \<and> ph = Phase_e_CLOSED
      | Freeing k b \<Rightarrow> k \<le> i
      | Clearing k \<Rightarrow> k < i)"

lemma logger_step_to_be_freed:
  assumes "logger_step s s'" and "system_inv place s" and "i < k_MAX_THREADS"
    and "settled i a s" and "settled i a b" and "is_closed a s" and "is_closed a b"
    and "y_heap s' a \<noteq> None" and "sees_since a b s s'" and "to_be_freed i s"
  shows "to_be_freed i s'"
  using assms
proof (induction rule: logger_step.induct)
  case (see_empty s k)
  then have "k \<noteq> i" by (auto simp: settled_def drains_def sees_since_def)
  then show ?case using see_empty by (simp add: to_be_freed_def)
next
  case (read_phase s k c p ph)
  have "ph = Phase_e_CLOSED" if "k = i"
  proof -
    have "c = a"
      using that read_phase system_invD(7) [of place s]
      by (auto simp: consumer_ok_def settled_def drains_def split: if_splits)
    then have "d_phase p = Phase_e_CLOSED" "y_logger (s\<lparr>y_logger := Popping k c ph 0\<rparr>) \<noteq> Popping i a Phase_e_LIVE 0"
      using that read_phase(1,2,8,9,11)
      by (auto simp: closed_at_def sees_since_def split: option.splits)
    then show ?thesis using that \<open>c = a\<close> by (cases ph) auto
  qed
  then show ?case using read_phase by (auto simp: to_be_freed_def)
next
  case (take_count s k c ph p d count p1)
  then show ?case by (auto simp: to_be_freed_def after_drain_one_def)
next
  case (free_producer s k c)
  then have "k = i \<Longrightarrow> c = a" using system_invD(7) [of place s]
    by (auto simp: consumer_ok_def settled_def drains_def split: if_splits)
  then show ?case using free_producer by (cases "k = i") (auto simp: to_be_freed_def)
qed (auto simp: to_be_freed_def)

lemma pass_will_free:
  assumes run: "thread_run \<sigma>" and placed: "settled i a (\<sigma> n)" "i < k_MAX_THREADS" and closed: "is_closed a (\<sigma> n)"
    and start: "n \<le> e" "y_logger (\<sigma> e) = At_slot 0" and "e \<le> m" and "in_heap \<sigma> a n m"
    and fresh: "\<forall>k. e \<le> k \<and> k < m \<longrightarrow> sees_since a (\<sigma> n) (\<sigma> k) (\<sigma> (Suc k))"
  shows "to_be_freed i (\<sigma> m)"
  using assms(7-9)
proof (induction rule: dec_induct)
  case base
  show ?case using start by (simp add: to_be_freed_def)
next
  case (step m)
  have le: "n \<le> m" using start step.hyps by simp
  have alive: "in_heap \<sigma> a n m" using in_heap_shorter [OF step.prems(1)] by simp
  have m: "settled i a (\<sigma> m)" "is_closed a (\<sigma> m)"
    using stays_settled [OF run placed(1) le alive] stays_closed [OF run closed le alive] by simp_all
  have here: "y_heap (\<sigma> (Suc m)) a \<noteq> None" using step.prems(1) le by (simp add: in_heap_def)
  obtain place where inv: "system_inv place (\<sigma> m)" using thread_run_inv [OF run] by blast
  have ahead: "to_be_freed i (\<sigma> m)" using step.IH [OF alive] step.prems(2) by simp
  have sees: "sees_since a (\<sigma> n) (\<sigma> m) (\<sigma> (Suc m))" using step.prems(2) step.hyps by simp
  have "client_step (\<sigma> m) (\<sigma> (Suc m)) \<or> logger_step (\<sigma> m) (\<sigma> (Suc m))"
    using run by (simp add: thread_run_def)
  then show ?case
    using logger_step_to_be_freed [OF _ inv placed(2) m(1) placed(1) m(2) closed here sees ahead]
      client_keeps_logger [of "\<sigma> m" "\<sigma> (Suc m)"] ahead
    by (auto simp: to_be_freed_def)
qed

lemma closed_is_freed:
  assumes run: "thread_run \<sigma>" and vis: "visible_in_time \<sigma>"
    and ends: "\<And>k. \<exists>m\<ge>k. pass_ends (y_logger (\<sigma> m)) (y_logger (\<sigma> (Suc m)))"
    and placed: "settled i a (\<sigma> n)" "i < k_MAX_THREADS" and closed: "is_closed a (\<sigma> n)"
  shows "\<exists>m\<ge>n. in_heap \<sigma> a n m \<and> y_heap (\<sigma> (Suc m)) a = None"
proof (rule ccontr)
  assume "\<not> ?thesis"
  moreover have "y_heap (\<sigma> n) a \<noteq> None" using placed(1) by (simp add: settled_def)
  ultimately have stays: "\<forall>m\<ge>n. in_heap \<sigma> a n m" using stays_or_freed by blast
  then obtain e m where "n \<le> e" "y_logger (\<sigma> e) = At_slot 0" "e \<le> m"
      "\<forall>k\<ge>e. sees_since a (\<sigma> n) (\<sigma> k) (\<sigma> (Suc k))"
    and m: "pass_ends (y_logger (\<sigma> m)) (y_logger (\<sigma> (Suc m)))"
    using whole_pass [OF vis ends] by blast
  then have "to_be_freed i (\<sigma> m)" using pass_will_free [OF run placed closed] stays by auto
  then show False
    using m placed(2) by (auto simp: to_be_freed_def pass_ends_def split: logger_pc.splits)
qed

text \<open>Between \<open>free_producer\<close> and \<open>clear_slot\<close> the logger thread does nothing else.\<close>

lemma freeing_step_at:
  assumes "logger_step s s'" and "system_inv place s" and "settled i a s" and "y_heap s' a = None"
  shows "y_logger s' = Clearing i \<and> y_ended s' = y_ended s @ [y_journal s a]"
  using assms
proof (induction rule: logger_step.induct)
  case (free_producer s k b)
  then have ba: "b = a" by (auto simp: settled_def split: if_splits)
  have "drains s k b" "k < k_MAX_THREADS"
    using free_producer(1) system_invD(7) [OF free_producer(2)] by (simp_all add: consumer_ok_def)
  moreover have "a \<noteq> y_shared s"
    using calculation system_invD(2) [OF free_producer(2)] system_invD(5) [OF free_producer(2), of k] ba free_producer(1)
    by (auto simp: drains_def slot_ok_def)
  ultimately have "k = i"
    using system_invD(5) [OF free_producer(2), of k] system_invD(5) [OF free_producer(2), of i] ba free_producer(1,3)
    by (auto simp: drains_def settled_def slot_ok_def split: if_splits)
  then show ?case using ba by simp
qed (auto simp: settled_def split: if_splits)

lemma cleared_next:
  assumes "thread_run \<sigma>" and "y_logger (\<sigma> n) = Clearing i" and "n \<le> m"
    and "\<forall>k. n \<le> k \<and> k < m \<longrightarrow> \<not> logger_step (\<sigma> k) (\<sigma> (Suc k))"
  shows "y_logger (\<sigma> m) = Clearing i \<and> y_ended (\<sigma> m) = y_ended (\<sigma> n)"
  using assms(3,4)
proof (induction rule: dec_induct)
  case (step m)
  then have "client_step (\<sigma> m) (\<sigma> (Suc m))" using assms(1) by (auto simp: thread_run_def)
  then show ?case using client_step_frame step by auto
qed (use assms(2) in simp)

lemma clearing_step:
  "logger_step s s' \<Longrightarrow> y_logger s = Clearing i \<Longrightarrow> y_slots s' = (y_slots s)[i := None] \<and> y_ended s' = y_ended s"
  by (induction rule: logger_step.induct) auto

lemma slot_gets_free:
  assumes run: "thread_run \<sigma>" and acts: "\<And>n. \<exists>m\<ge>n. logger_step (\<sigma> m) (\<sigma> (Suc m))"
    and freed: "settled i a (\<sigma> m)" "y_heap (\<sigma> (Suc m)) a = None" and "i < k_MAX_THREADS"
  shows "\<exists>k>m. y_slots (\<sigma> k) ! i = None \<and> y_journal (\<sigma> m) a \<in> set (y_ended (\<sigma> k))"
proof -
  obtain place where inv: "system_inv place (\<sigma> m)" using thread_run_inv [OF run] by blast
  have "logger_step (\<sigma> m) (\<sigma> (Suc m))"
    using run client_step_keeps [OF _ inv freed(1), of "\<sigma> (Suc m)"] freed(2) unfolding thread_run_def by blast
  then have pc: "y_logger (\<sigma> (Suc m)) = Clearing i" "y_journal (\<sigma> m) a \<in> set (y_ended (\<sigma> (Suc m)))"
    using freeing_step_at [OF _ inv freed] by auto
  define k where "k = (LEAST k. Suc m \<le> k \<and> logger_step (\<sigma> k) (\<sigma> (Suc k)))"
  have k: "Suc m \<le> k" "logger_step (\<sigma> k) (\<sigma> (Suc k))"
    using LeastI_ex [OF acts [of "Suc m", unfolded Bex_def]] by (auto simp: k_def)
  have "\<forall>j. Suc m \<le> j \<and> j < k \<longrightarrow> \<not> logger_step (\<sigma> j) (\<sigma> (Suc j))"
    using not_less_Least unfolding k_def by blast
  then have "y_logger (\<sigma> k) = Clearing i" "y_ended (\<sigma> k) = y_ended (\<sigma> (Suc m))"
    using cleared_next [OF run pc(1) k(1)] by simp_all
  moreover obtain place where "system_inv place (\<sigma> k)" using thread_run_inv [OF run] by blast
  ultimately show ?thesis
    using clearing_step [OF k(2)] pc(2) assms(5) system_invD(1) k(1)
    by (intro exI [of _ "Suc k"]) (auto simp: nth_list_update)
qed

section \<open>The file\<close>

lemma replay_text: "prefix (r_text R) (r_text (fold (replay clock) es R))"
proof (induction es arbitrary: R)
  case (Cons e es)
  have "prefix (r_text R) (r_text (replay clock e R))" by (cases e) simp_all
  then show ?case using Cons prefix_order.trans by fastforce
qed simp

lemma written_line:
  "r \<in> set (r_written (replays clock tr) a) \<Longrightarrow>
   sublist (record_line clock (r_name (replays clock tr) a) r) (r_text (replays clock tr))"
proof (induction tr rule: rev_induct)
  case (snoc e tr)
  then show ?case
    by (cases e) (auto split: if_splits intro: sublist_appendI sublist_order.order_trans)
qed (simp add: new_log_def)

text \<open>What is in the log is in the file at the end of the pass.\<close>

lemma text_reaches_file:
  assumes "fair_file_run env clock \<rho> es" and "os_accepts (Logger env clock)"
  shows "\<exists>m\<ge>n. prefix (os_output env @ r_text (replays clock (trace_to es n))) (os_output (snd (\<rho> m)))"
proof -
  obtain k where k: "n \<le> k" "y_logger (fst (\<rho> (Suc k))) = At_slot 0"
    using fair_run_passes [OF assms(1)] by (auto simp: pass_ends_def)
  have m: "matches (os_output env) (replays clock (trace_to es (Suc k))) (fst (\<rho> (Suc k))) (snd (\<rho> (Suc k)))"
    using file_run_matches [OF fair_run_at [OF assms(1)] assms(2)] .
  have "trace_to es (Suc k) = trace_to es n @ concat (map es [n..<Suc k])"
    using k(1) by (metis concat_append le_Suc_eq map_append upt_add_eq_append le0 le_add_diff_inverse)
  then have "prefix (r_text (replays clock (trace_to es n))) (r_text (replays clock (trace_to es (Suc k))))"
    using replay_text by simp
  moreover have "os_output (snd (\<rho> (Suc k))) = os_output env @ r_text (replays clock (trace_to es (Suc k)))"
    using m k(2) by (auto simp: matches_def emitted_def simp del: upt_Suc)
  ultimately show ?thesis using k(1) by (metis le_SucI same_prefix_prefix)
qed

section \<open>Properties\<close>

text \<open>
  C2. Every record that a ring accepts is in the end in the file, as a line under the name of the thread
  that logged it, however the threads interleave, come and go: in any run in which the logger thread goes
  on, stores become visible in finite time and the descriptor takes what it is given.
\<close>

theorem every_record_reaches_the_file:
  assumes run: "fair_file_run env clock \<rho> es" and acc: "os_accepts (Logger env clock)"
    and p: "y_heap (fst (\<rho> n)) a = Some p"
    and placed: "y_handles (fst (\<rho> n)) a \<noteq> None \<or> a = y_shared (fst (\<rho> n))"
    and r: "r \<in> set (accepted_records (y_journal (fst (\<rho> n)) a))"
  shows "\<exists>m\<ge>n. sublist (record_line clock (producer_name p) r) (os_output (snd (\<rho> m)))"
proof -
  note threads = fair_run_threads [OF run]
  have vis: "visible_in_time (\<lambda>n. fst (\<rho> n))" using run by (simp add: fair_file_run_def)
  obtain place where inv: "system_inv place (fst (\<rho> n))" using thread_run_inv [OF threads] by blast
  obtain i where i: "settled i a (fst (\<rho> n))" "i \<le> k_MAX_THREADS"
    using placed_settled [OF inv _ placed] p by auto
  obtain m where m: "n \<le> m" "in_heap (\<lambda>n. fst (\<rho> n)) a n m"
      "length (accepted_records (y_journal (fst (\<rho> n)) a)) \<le> length (written_records (y_journal (fst (\<rho> m)) a))"
    using accepted_is_written [OF threads vis fair_run_passes [OF run] i] by blast
  have g: "settled i a (fst (\<rho> m))" "grows a (fst (\<rho> n)) (fst (\<rho> m))"
    using stays_settled [OF threads i(1) m(1,2)] by simp_all
  then obtain q where q: "y_heap (fst (\<rho> m)) a = Some q" "producer_name q = producer_name p"
    using p by (auto simp: settled_def grows_def)
  let ?R = "replays clock (trace_to es m)"
  have mt: "matches (os_output env) ?R (fst (\<rho> m)) (snd (\<rho> m))"
    using file_run_matches [OF fair_run_at [OF run] acc] .
  obtain place' where "system_inv place' (fst (\<rho> m))" using thread_run_inv [OF threads] by blast
  then have "prefix (written_records (y_journal (fst (\<rho> m)) a)) (accepted_records (y_journal (fst (\<rho> m)) a))"
    using drained_producer(2) q(1) by (auto simp: journal_ok_def)
  then have "prefix (accepted_records (y_journal (fst (\<rho> n)) a)) (written_records (y_journal (fst (\<rho> m)) a))"
    using g(2) m(3) prefix_length_prefix by (auto simp: grows_def)
  then have "r \<in> set (r_written ?R a)" using r mt set_mono_prefix by (fastforce simp: matches_def)
  then have "sublist (record_line clock (r_name ?R a) r) (r_text ?R)" by (rule written_line)
  then have "sublist (record_line clock (producer_name p) r) (r_text ?R)"
    using mt q by (simp add: matches_def)
  moreover obtain k where "m \<le> k" "prefix (os_output env @ r_text ?R) (os_output (snd (\<rho> k)))"
    using text_reaches_file [OF run acc] by blast
  ultimately show ?thesis
    using m(1) by (meson le_trans prefix_imp_sublist sublist_append_leftI sublist_order.order_trans)
qed

lemma example_accepted: "accepted_records (y_journal example_logged 1) = [example_record]"
proof -
  obtain place where "system_inv place example_logged" using reachable_inv [OF example_logged_reachable] by blast
  then have "journal_ok (y_journal example_logged 1) example_producer"
    using drained_producer(2) example_logged_heap by blast
  moreover have "written_records (y_journal example_logged 1) = []"
    by (simp add: example_logged_def pushed_at_def example_registered_def example_registering_def
        system_init_def new_journal_def Let_def split: prod.splits)
  ultimately show ?thesis by (simp add: journal_ok_def example_producer_ok(2))
qed

theorem every_record_reaches_the_file_witness:
  "\<exists>\<rho> es n m. fair_file_run file_os unit_clock \<rho> es \<and> fst (\<rho> n) = example_logged \<and>
     sublist (record_line unit_clock ''render'' example_record) (os_output (snd (\<rho> m)))"
proof -
  obtain \<rho> es n where run: "fair_file_run file_os unit_clock \<rho> es"
    and at: "\<rho> n = (example_logged, Logger file_os unit_clock)"
    using fair_run_through [OF example_logged_run file_os_accepts] by blast
  obtain m where "sublist (record_line unit_clock ''render'' example_record) (os_output (snd (\<rho> m)))"
    using every_record_reaches_the_file [OF run file_os_accepts, of n 1 example_producer example_record]
      at example_accepted by (auto simp: example_logged_at example_producer_ok(4))
  moreover have "fst (\<rho> n) = example_logged" by (simp add: at)
  ultimately show ?thesis using run by blast
qed

text \<open>
  C7. A thread that destroys its handle gives its slot back: in any run in which the logger thread goes on
  and stores become visible in finite time, a closed producer is in the end freed, when all its records
  are written, and the slot it was in is free for another thread to take.
\<close>

theorem slots_come_free:
  assumes "fair_file_run env clock \<rho> es"
    and "y_heap (fst (\<rho> n)) a = Some p" and "d_phase p = Phase_e_CLOSED"
  shows "\<exists>i<k_MAX_THREADS. y_slots (fst (\<rho> n)) ! i = Some a \<and>
    (\<exists>m>n. y_slots (fst (\<rho> m)) ! i = None \<and>
      (\<exists>j \<in> set (y_ended (fst (\<rho> m))).
         prefix (accepted_records (y_journal (fst (\<rho> n)) a)) (written_records j)))"
proof -
  let ?\<sigma> = "\<lambda>n. fst (\<rho> n)"
  note run = fair_run_threads [OF assms(1)]
  have vis: "visible_in_time ?\<sigma>" and acts: "\<And>n. \<exists>m\<ge>n. logger_step (?\<sigma> m) (?\<sigma> (Suc m))"
    using assms(1) by (simp_all add: fair_file_run_def)
  have closed: "is_closed a (?\<sigma> n)" using assms(2,3) by (simp add: closed_at_def)
  obtain place where inv: "system_inv place (?\<sigma> n)" using thread_run_inv [OF run] by blast
  obtain i where i: "i < k_MAX_THREADS" "settled i a (?\<sigma> n)" by (rule closed_settled [OF inv closed])
  obtain m where m: "n \<le> m" "in_heap ?\<sigma> a n m" "y_heap (?\<sigma> (Suc m)) a = None"
    using closed_is_freed [OF run vis fair_run_passes [OF assms(1)] i(2,1) closed] by blast
  have g: "settled i a (?\<sigma> m)" "grows a (?\<sigma> n) (?\<sigma> m)"
    using stays_settled [OF run i(2) m(1,2)] by simp_all
  obtain k where k: "m < k" "y_slots (?\<sigma> k) ! i = None" "y_journal (?\<sigma> m) a \<in> set (y_ended (?\<sigma> k))"
    using slot_gets_free [OF run acts g(1) m(3) i(1)] by blast
  have "prefix (accepted_records (y_journal (?\<sigma> n) a)) (written_records (y_journal (?\<sigma> m) a))"
    using g(2) freed_when_written [OF run g(1) m(3)] by (simp add: grows_def)
  moreover have "y_slots (?\<sigma> n) ! i = Some a" using i by (auto simp: settled_def drains_def)
  ultimately show ?thesis using i(1) k m(1) by (meson le_less_trans)
qed

theorem slots_come_free_witness:
  "\<exists>\<rho> es n m. fair_file_run file_os unit_clock \<rho> es \<and> fst (\<rho> n) = example_destroyed \<and>
     y_slots example_destroyed ! 0 = Some 1 \<and> y_slots (fst (\<rho> m)) ! 0 = None"
proof -
  obtain \<rho> es n where run: "fair_file_run file_os unit_clock \<rho> es"
    and at: "\<rho> n = (example_destroyed, Logger file_os unit_clock)"
    using fair_run_through [OF example_destroyed_run file_os_accepts] by blast
  have "y_slots example_destroyed = (replicate k_MAX_THREADS None)[0 := Some 1]"
    by (simp add: example_destroyed_def example_logged_def pushed_at_def example_registered_def
        example_registering_def system_init_def Let_def split: prod.splits)
  then have slot: "y_slots example_destroyed ! i = Some 1 \<longleftrightarrow> i = 0" if "i < k_MAX_THREADS" for i
    using that by (simp add: nth_list_update)
  have "y_heap example_destroyed 1 = Some (producer_close example_producer)" by (simp add: example_destroyed_def)
  then obtain i m where i: "i < k_MAX_THREADS" "y_slots example_destroyed ! i = Some 1"
    and m: "y_slots (fst (\<rho> m)) ! i = None"
    using slots_come_free [OF run, of n 1 "producer_close example_producer"] at by auto
  then have "i = 0" using slot by blast
  moreover have "fst (\<rho> n) = example_destroyed" by (simp add: at)
  ultimately show ?thesis using run i m by blast
qed

end
