(* ===== verification/Spec2Isabelle.thy ===== *)
theory Spec2Isabelle
  imports Core_Clock Core_Spsc_Ring Core_Spsc_Concurrent Core_Spsc_Linear Core_Error_Format
    Core_Log_Message_Format Core_Log_Format Core_Log_Session Core_Log_Concurrent Core_Log_File Core_Log_Liveness
begin

text \<open>
  This development models the core of the gamegine engine, the headers of
  \<^verbatim>\<open>gamegine/include/engine/core/\<close>: the logger and everything it is made of. An application thread
  registers with the logger and gets a handle; through it it pushes records (an error or a message, with
  a severity and a tick) into its own wait-free ring; the logger thread passes over the rings, writes each
  record as a line into a batch and hands the batch to \<^verbatim>\<open>write(2)\<close>. A thread that does not register uses a
  shared ring under a mutex. Errors and messages are 64-bit values whose names and texts are in catalogs.

  \<^bold>\<open>Theories, in the order of the code.\<close>

  \<^item> \<open>Prelude\<close>: word types, characters as codes, \<^verbatim>\<open>memcpy\<close> into and out of a buffer, list and word lemmas,
    and the collections of facts the components fill: \<open>codec\<close>, the fields of packed words, and \<open>step_inv\<close>,
    the steps of the two interleaved systems that keep their invariant. \<open>Transition_System\<close>: labelled runs,
    and the interfaces \<open>invariant\<close>, \<open>simulation\<close> and \<open>progress\<close>, locales that the interleaved systems interpret.
  \<^item> \<open>Core_Domain\<close>, \<open>Core_Clock\<close>: \<^verbatim>\<open>core_domain.h\<close>, and \<^verbatim>\<open>core_clock.h\<close> with its conversion of ticks to
    nanoseconds; the conversion is exact and monotone as long as the time fits in 64 bits.
  \<^item> \<open>Bounded_Fifo\<close>: the interface of a bounded queue, a locale. \<open>Core_Spsc_Ring\<close>: \<^verbatim>\<open>core_spsc_ring.h\<close> on
    raw bytes and wrapping 64-bit counters, each call alone; it interprets the interface.
    \<open>Core_Spsc_Concurrent\<close>: the same calls one memory access at a time, two threads interleaved in every
    way that acquire and release allow. No data race, no access out of bounds, first in first out, and
    a bounded number of own steps for every call. \<open>Core_Spsc_Linear\<close>: a simulation that shows the
    interleaved calls to be linearizable, that is, to answer as calls of \<open>Core_Spsc_Ring\<close> made one at a
    time in the order they return, each with a possibly old counter of the other side.
  \<^item> \<open>Core_Error\<close>, \<open>Core_Error_Catalog\<close>, \<open>Core_Error_Format\<close>: \<^verbatim>\<open>core_error.h\<close>,
    \<^verbatim>\<open>core_error_catalog.h\<close>, \<^verbatim>\<open>core_error_format.h\<close>. Packing reads back, every 64-bit value has a
    descriptor, its line fits the buffer the code reserves, and the alternate form can be decoded. The
    propagation macros are statements of a function, which return from it or go on, on any state.
  \<^item> \<open>To_Chars\<close>: the text the standard library's \<^verbatim>\<open>std::to_chars\<close> gives a \<^verbatim>\<open>float\<close>, as it is documented. It
    has the fewest digits that read back, and never takes more than the 15 characters the code reserves.
  \<^item> \<open>Swar\<close>, \<open>Core_Format\<close>: \<^verbatim>\<open>core_format.h\<close>. \<open>Swar\<close> shows that the bit trick on eight characters finds the
    first control character. \<open>Core_Format\<close> holds the line writer; every append, that of a \<^verbatim>\<open>float\<close> included, is an instance of the
    locale \<open>appends\<close> (it adds a text, cut at the end of the buffer, and remembers a cut), so a sequence of
    appends is a concatenation of texts.
  \<^item> \<open>Core_Log_Message\<close>, \<open>Core_Log_Message_Catalog\<close>, \<open>Core_Log_Message_Format\<close>: \<^verbatim>\<open>core_log_message*.h\<close>,
    the messages, the compile-time checks of identifiers and texts, and the text of a message.
  \<^item> \<open>Core_Log_Record\<close>, \<open>Core_Log_Format\<close>: \<^verbatim>\<open>core_log_record.h\<close>, \<^verbatim>\<open>core_log_format.h\<close>, the 16-byte record
    and its line of fixed columns.
  \<^item> \<open>Core_Log\<close>, \<open>Core_Log_Session\<close>: \<^verbatim>\<open>core_log.h\<close>, every operation run to completion: producers on a
    heap, registration, handles, the locked path, a pass (\<open>drain\<close>), \<open>flush\<close>, the logger thread's loop, the
    constructor and the destructor. \<open>Core_Log_Session\<close> states what the session of a thread, and the whole
    life of a logger, leave in the file.
  \<^item> \<open>Core_Log_Concurrent\<close>: the same class with its threads interleaved one shared access at a time: no use
    after free, no leak, no record lost, every loss reported, and a pass that ends.
  \<^item> \<open>Core_Log_File\<close>: the interleaved threads with what the logger thread writes. Every run refines an
    abstract log, the list of what happened: the file holds a line for each event and nothing else,
    and the destructor writes what the threads left behind.
  \<^item> \<open>Core_Log_Fair\<close>, \<open>Core_Log_Liveness\<close>: infinite runs, in which the logger thread goes on and stores
    become visible in finite time. Every finite run is the start of such a run; in each, every record that
    a ring accepts is in the end a line of the file, and the slot of a thread that is gone comes free.

  \<^bold>\<open>Conventions.\<close> A class is a record with the names of its data members, an enumeration a wrapper of its
  underlying word (so that a value no enumerator names is in the model), \<^verbatim>\<open>Result\<close> a sum whose left side is
  the error. A failed assertion, \<^verbatim>\<open>std::abort\<close>, an access to a freed producer and a call that never returns
  are \<open>None\<close>. Integers have their width; sizes and positions within a buffer are \<open>nat\<close>, which they fit.
  Strings are lists of characters.

  \<^bold>\<open>What is an argument.\<close> The outcome of each \<^verbatim>\<open>write(2)\<close> and each reading of the clock (arbitrary
  functions in the state of the logger; a result of \<^verbatim>\<open>write\<close> is at most what was asked for). Properties of
  what is written assume that \<^verbatim>\<open>write\<close> is not interrupted for ever and does not fail. Liveness assumes
  besides that the scheduler runs the logger thread again and again, and that a load answers, from some
  point on, a value no older than a given store, which the C++ memory model asks of implementations.

  \<^bold>\<open>Loops.\<close> They recur on a measure, apart from the loop of \<open>flush\<close>, which does not end if the system call
  is interrupted for ever: it is a partial function, and \<open>flush_hands_over\<close> shows that it returns
  otherwise. No definition has fuel.

  \<^bold>\<open>Not modelled.\<close> The rest between two passes (\<^verbatim>\<open>sleep_for\<close>) and the time a thread waits for the mutex;
  the placement of data in cache lines; the compile-time concepts other than those that reject a value.
  In \<open>Core_Log_Concurrent\<close> a whole ring call is one step, which \<open>Core_Spsc_Linear\<close> justifies; lines, the
  batch and the descriptor, which only the logger thread touches, join it in \<open>Core_Log_File\<close>. Tests,
  benchmarks, build scripts and vendored libraries are not part of the engine's logic.
\<close>

end
